(* ===== verification/Prelude.thy ===== *)
theory Prelude
  imports Main "HOL-Library.Word" "HOL-Library.Signed_Division" "HOL-Library.Multiset"
begin

text \<open>
  What the component theories share.

  \<^item> Go's run-time panics (\<open>panic\<close>) and the result type \<open>'a go\<close> of code that may panic, with
    its sequencing \<open>go_bind\<close>.
  \<^item> Go's fixed-width signed integers as \<open>int\<close> with the wrap-around written out
    (\<open>wrap32\<close>, \<open>wrap64\<close>) and Go's truncating division, which panics on a zero divisor
    (\<open>go_div\<close>, \<open>go_mod\<close>). Go's \<open>uint\<close> is \<^typ>\<open>64 word\<close>.
  \<^item> \<open>go_while\<close>, a Go \<open>for\<close> loop whose body may panic and that may not end (\<open>None\<close>), and
    the locale \<open>ranked_loop\<close>: the contract under which such a loop returns.
  \<^item> Generic lemmas on lists, maps and words.
\<close>

named_theorems go_arith \<open>wrap-around arithmetic inside the range of the type\<close>

section \<open>Panics and results\<close>

datatype panic =
    NilDereference
  | IndexOutOfRange
  | IntegerDivideByZero
  | NegativeWaitGroup
  | CloseOfClosedChannel
  | TypeAssertion
  | InvalidArgument string
  | Explicit string

type_synonym 'a go = "panic + 'a"

type_synonym error = string

fun go_bind :: "'a go \<Rightarrow> ('a \<Rightarrow> 'b go) \<Rightarrow> 'b go" where
  "go_bind (Inl p) f = Inl p"
| "go_bind (Inr x) f = f x"

lemma go_bind_Inr_iff [simp]: "go_bind m f = Inr y \<longleftrightarrow> (\<exists>x. m = Inr x \<and> f x = Inr y)"
  by (cases m) auto

lemma Inr_go_bind_iff: "Inr y = go_bind m f \<longleftrightarrow> (\<exists>x. m = Inr x \<and> f x = Inr y)"
  by (cases m) auto

lemma go_bind_Inl_iff:
  "go_bind m f = Inl p \<longleftrightarrow> m = Inl p \<or> (\<exists>x. m = Inr x \<and> f x = Inl p)"
  by (cases m) auto

text \<open>A slice access \<open>xs[i]\<close>: out of range it panics.\<close>

definition slice_at :: "'a list \<Rightarrow> nat \<Rightarrow> 'a go" where
  "slice_at xs i = (if i < length xs then Inr (xs ! i) else Inl IndexOutOfRange)"

lemma slice_at_Inr [simp]: "i < length xs \<Longrightarrow> slice_at xs i = Inr (xs ! i)"
  by (simp add: slice_at_def)

text \<open>A pointer read through a map of pointers: a missing key gives the nil pointer.\<close>

definition deref :: "'a option \<Rightarrow> 'a go" where
  "deref p = (case p of None \<Rightarrow> Inl NilDereference | Some x \<Rightarrow> Inr x)"

lemma deref_simps [simp]: "deref None = Inl NilDereference" "deref (Some x) = Inr x"
  by (simp_all add: deref_def)

section \<open>Fixed-width integers\<close>

definition wrap32 :: "int \<Rightarrow> int" where
  "wrap32 x = (x + 2 ^ 31) mod 2 ^ 32 - 2 ^ 31"

definition wrap64 :: "int \<Rightarrow> int" where
  "wrap64 x = (x + 2 ^ 63) mod 2 ^ 64 - 2 ^ 63"

definition int64_range :: "int \<Rightarrow> bool" where
  "int64_range x \<longleftrightarrow> - (2 ^ 63) \<le> x \<and> x < 2 ^ 63"

lemma wrap32_id [go_arith]: "- (2 ^ 31) \<le> x \<Longrightarrow> x < 2 ^ 31 \<Longrightarrow> wrap32 x = x"
  by (simp add: wrap32_def)

lemma wrap64_id [go_arith]: "- (2 ^ 63) \<le> x \<Longrightarrow> x < 2 ^ 63 \<Longrightarrow> wrap64 x = x"
  by (simp add: wrap64_def)

lemma wrap64_range: "int64_range (wrap64 x)"
proof -
  have "0 \<le> (x + 2 ^ 63) mod 2 ^ 64" and "(x + 2 ^ 63) mod 2 ^ 64 < (2::int) ^ 64"
    by simp_all
  then show ?thesis
    by (simp add: int64_range_def wrap64_def)
qed

text \<open>Go's \<open>/\<close> and \<open>%\<close> truncate towards zero and panic on a zero divisor.\<close>

definition go_div :: "int \<Rightarrow> int \<Rightarrow> int go" where
  "go_div a b = (if b = 0 then Inl IntegerDivideByZero else Inr (wrap64 (a sdiv b)))"

definition go_mod :: "int \<Rightarrow> int \<Rightarrow> int go" where
  "go_mod a b = (if b = 0 then Inl IntegerDivideByZero else Inr (wrap64 (a smod b)))"

lemma sdiv_nonneg: "0 \<le> a \<Longrightarrow> 0 < b \<Longrightarrow> (a::int) sdiv b = a div b"
  by (simp add: signed_divide_int_def sgn_if)

lemma go_div_nonneg:
  assumes "0 \<le> a" "a < 2 ^ 63" "0 < b"
  shows "go_div a b = Inr (a div b)"
proof -
  have "a div b \<le> a div 1"
    using assms by (intro zdiv_mono2) auto
  then have "a div b \<le> a"
    by simp
  moreover have "0 \<le> a div b"
    using assms by (simp add: pos_imp_zdiv_nonneg_iff)
  ultimately show ?thesis
    using assms by (simp add: go_div_def sdiv_nonneg wrap64_id)
qed

lemma go_div_zero [simp]: "go_div a 0 = Inl IntegerDivideByZero"
  by (simp add: go_div_def)


lemma wrap32_wrap32_add [simp]: "wrap32 (wrap32 a + b) = wrap32 (a + b)"
proof -
  have "wrap32 a + b + 2 ^ 31 = (a + 2 ^ 31) mod 2 ^ 32 + b"
    by (simp add: wrap32_def)
  then have "(wrap32 a + b + 2 ^ 31) mod 2 ^ 32 = (a + 2 ^ 31 + b) mod 2 ^ 32"
    by (simp only: mod_add_left_eq)
  then show ?thesis
    by (simp add: wrap32_def ac_simps)
qed

lemma wrap64_wrap64_add [simp]: "wrap64 (wrap64 a + b) = wrap64 (a + b)"
proof -
  have "wrap64 a + b + 2 ^ 63 = (a + 2 ^ 63) mod 2 ^ 64 + b"
    by (simp add: wrap64_def)
  then have "(wrap64 a + b + 2 ^ 63) mod 2 ^ 64 = (a + 2 ^ 63 + b) mod 2 ^ 64"
    by (simp only: mod_add_left_eq)
  then show ?thesis
    by (simp add: wrap64_def ac_simps)
qed

lemma wrap64_add_wrap64 [simp]: "wrap64 (b + wrap64 a) = wrap64 (b + a)"
  using wrap64_wrap64_add [of a b] by (simp add: add.commute)

section \<open>Lists\<close>

lemma sum_list_map_update:
  fixes f :: "'a \<Rightarrow> 'b::comm_monoid_add"
  assumes "j < length xs"
  shows "sum_list (map f (xs[j := y])) + f (xs ! j) = sum_list (map f xs) + f y"
proof -
  have "xs = take j xs @ xs ! j # drop (Suc j) xs"
    using assms by (simp add: id_take_nth_drop)
  then have "sum_list (map f xs) =
      sum_list (map f (take j xs)) + f (xs ! j) + sum_list (map f (drop (Suc j) xs))"
    by (metis append.assoc append_Cons append_Nil list.simps(9) map_append sum_list.Cons sum_list.append add.assoc)
  moreover have "sum_list (map f (xs[j := y])) =
      sum_list (map f (take j xs)) + f y + sum_list (map f (drop (Suc j) xs))"
    using assms by (simp add: upd_conv_take_nth_drop add.assoc)
  ultimately show ?thesis
    by (simp add: ac_simps)
qed

lemma sum_list_map_grow:
  fixes f :: "'a \<Rightarrow> 'b::cancel_comm_monoid_add"
  assumes "j < length xs" "f y = f (xs ! j) + d"
  shows "sum_list (map f (xs[j := y])) = sum_list (map f xs) + d"
proof -
  have "sum_list (map f (xs[j := y])) + f (xs ! j) = sum_list (map f xs) + d + f (xs ! j)"
    using sum_list_map_update [OF assms(1), of f y] assms(2) by (simp add: ac_simps)
  then show ?thesis
    by simp
qed

lemma mset_concat_map: "mset (concat (map f xs)) = sum_list (map (\<lambda>x. mset (f x)) xs)"
  by (induction xs) auto

lemma length_filter_concat_map:
  "length (filter P (concat (map f xs))) = sum_list (map (\<lambda>x. length (filter P (f x))) xs)"
  by (induction xs) auto

lemma ball_update: "(\<forall>x \<in> set xs. P x) \<Longrightarrow> P y \<Longrightarrow> (\<forall>x \<in> set (xs[j := y]). P x)"
  using set_update_subset_insert [of xs j y] by auto

text \<open>Removal by index from a slice: the last element takes the freed place.\<close>

definition swap_remove :: "nat \<Rightarrow> 'a list \<Rightarrow> 'a list" where
  "swap_remove i xs = butlast (xs[i := last xs])"

lemma mset_swap_remove:
  assumes "i < length xs"
  shows "mset xs = add_mset (xs ! i) (mset (swap_remove i xs))"
proof (cases xs rule: rev_cases)
  case (snoc ys y)
  show ?thesis
  proof (cases "i = length ys")
    case True
    then show ?thesis
      by (simp add: snoc swap_remove_def)
  next
    case False
    then have i: "i < length ys"
      using assms snoc by simp
    then have "mset (ys[i := y]) = add_mset y (mset ys - {#ys ! i#})"
      by (rule mset_update)
    then show ?thesis
      using i by (simp add: snoc swap_remove_def list_update_append nth_append)
  qed
qed (use assms in simp)

lemma swap_remove_facts:
  assumes "i < length xs"
  shows "length (swap_remove i xs) = length xs - 1"
    and "distinct (map f xs) \<Longrightarrow> distinct (map f (swap_remove i xs))"
    and "distinct xs \<Longrightarrow> set (swap_remove i xs) = set xs - {xs ! i}"
proof -
  have m: "mset xs = mset (xs ! i # swap_remove i xs)"
    using mset_swap_remove [OF assms] by simp
  then have "length xs = length (xs ! i # swap_remove i xs)"
    by (rule mset_eq_length)
  then show "length (swap_remove i xs) = length xs - 1"
    by simp
  have "mset (map f xs) = mset (map f (xs ! i # swap_remove i xs))"
    using m by (metis mset_map)
  then show "distinct (map f xs) \<Longrightarrow> distinct (map f (swap_remove i xs))"
    using mset_eq_imp_distinct_iff by fastforce
  show "set (swap_remove i xs) = set xs - {xs ! i}" if "distinct xs"
    using mset_eq_setD [OF m] mset_eq_imp_distinct_iff [OF m] that by auto
qed

lemma distinct_subset_mset:
  assumes "mset xs \<subseteq># mset ys" "distinct ys"
  shows "distinct xs \<and> set xs \<subseteq> set ys"
proof -
  obtain zs where "mset zs = mset ys - mset xs"
    using ex_mset by blast
  then have m: "mset ys = mset (xs @ zs)"
    using assms(1) by (simp add: subset_mset.add_diff_inverse)
  then show ?thesis
    using mset_eq_imp_distinct_iff [OF m] mset_eq_setD [OF m] assms(2) by auto
qed

lemma sum_list_mset_mono: "(\<And>x. x \<in> set xs \<Longrightarrow> f x \<subseteq># g x) \<Longrightarrow> (\<Sum>x\<leftarrow>xs. f x) \<subseteq># (\<Sum>x\<leftarrow>xs. g x :: 'b multiset)"
  by (induction xs) (auto intro!: subset_mset.add_mono)

lemma upto_prefix_mset: "b \<le> c \<Longrightarrow> mset [a..b] \<subseteq># mset [a..c :: int]"
proof (cases "a \<le> b + 1")
  case True
  assume "b \<le> c"
  then have "[a..c] = [a..b] @ [b + 1..c]"
    using upto_split1 [of a "b + 1" c] True by (cases "b = c") auto
  then show ?thesis
    by simp
qed simp

section \<open>Loops\<close>

text \<open>
  A Go loop \<open>for b { f }\<close>: \<open>None\<close> when it never ends, \<open>Some (Inl p)\<close> when its body panics,
  \<open>Some (Inr s)\<close> when it leaves the loop in the state \<open>s\<close>.
\<close>

partial_function (option) go_while ::
  "('s \<Rightarrow> bool) \<Rightarrow> ('s \<Rightarrow> 's go) \<Rightarrow> 's \<Rightarrow> 's go option" where
  "go_while b f s =
     (if b s then (case f s of Inl p \<Rightarrow> Some (Inl p) | Inr s' \<Rightarrow> go_while b f s')
      else Some (Inr s))"

declare go_while.simps [code]

lemma go_while_exit: "\<not> b s \<Longrightarrow> go_while b f s = Some (Inr s)"
  by (simp add: go_while.simps)

lemma go_while_step: "b s \<Longrightarrow> f s = Inr s' \<Longrightarrow> go_while b f s = go_while b f s'"
  by (subst go_while.simps) simp

text \<open>
  The contract of a loop that returns: its body, run under the guard in a state that satisfies
  the invariant, does not panic, keeps the invariant and decreases the rank.
\<close>

locale ranked_loop =
  fixes guard :: "'s \<Rightarrow> bool"
    and body :: "'s \<Rightarrow> 's go"
    and inv :: "'s \<Rightarrow> bool"
    and rank :: "'s \<Rightarrow> nat"
  assumes body_total: "inv s \<Longrightarrow> guard s \<Longrightarrow> \<exists>s'. body s = Inr s'"
    and body_inv: "inv s \<Longrightarrow> guard s \<Longrightarrow> body s = Inr s' \<Longrightarrow> inv s'"
    and body_rank: "inv s \<Longrightarrow> guard s \<Longrightarrow> body s = Inr s' \<Longrightarrow> rank s' < rank s"
begin

lemma loop_returns:
  "inv s \<Longrightarrow> \<exists>s'. go_while guard body s = Some (Inr s') \<and> inv s' \<and> \<not> guard s'"
proof (induction "rank s" arbitrary: s rule: less_induct)
  case less
  show ?case
  proof (cases "guard s")
    case True
    with less.prems obtain t where t: "body s = Inr t"
      using body_total by blast
    with less.prems True have "inv t" "rank t < rank s"
      using body_inv body_rank by blast+
    then show ?thesis
      using less.hyps [of t] go_while_step [of guard s body t] True t by simp
  next
    case False
    with less.prems show ?thesis
      by (auto simp: go_while_exit)
  qed
qed

lemma loop_result:
  "inv s \<Longrightarrow> go_while guard body s = Some r \<Longrightarrow> \<exists>s'. r = Inr s' \<and> inv s' \<and> \<not> guard s'"
  using loop_returns [of s] by auto

end

end
