(* ===== verification/Observer.thy ===== *)
theory Observer
  imports Prelude
begin

text \<open>
  The package \<open>observer\<close>: \<open>state.go\<close>, \<open>stream.go\<close> and \<open>subject.go\<close>.

  A Go pointer to a \<open>state\<close> is an address into an explicit heap (a list of states, allocation
  appends), nil is \<open>None\<close>. A state's \<open>done\<close> channel is only ever closed, so it is the boolean
  "closed"; receiving from it is possible exactly when it is closed. A method that would read
  through a nil pointer, or close a channel twice, returns the panic.

  The list abstraction of a subject is its \<open>history\<close> (every value it ever held, in order); a
  stream is a position in it. The locale \<open>feed\<close> is that contract, the interpretation
  \<open>subject_feed\<close> discharges it for the heap code, and the section on interleavings proves the
  same delivery guarantee when the three writes of an \<open>Update\<close> and the reads of any number of
  streams run in any order.
\<close>

section \<open>state.go\<close>

record 'v state =
  st_value :: 'v
  st_next :: "nat option"
  st_done :: bool

type_synonym 'v heap = "'v state list"

definition load :: "'v heap \<Rightarrow> nat option \<Rightarrow> 'v state go" where
  "load h p = (case p of None \<Rightarrow> Inl NilDereference
     | Some a \<Rightarrow> if a < length h then Inr (h ! a) else Inl NilDereference)"

definition store :: "'v heap \<Rightarrow> nat option \<Rightarrow> 'v state \<Rightarrow> 'v heap" where
  "store h p s = (case p of None \<Rightarrow> h | Some a \<Rightarrow> h[a := s])"

definition newState :: "'v \<Rightarrow> 'v heap \<Rightarrow> nat option \<times> 'v heap" where
  "newState v h = (Some (length h), h @ [\<lparr>st_value = v, st_next = None, st_done = False\<rparr>])"

text \<open>The two writes of \<open>state.update\<close>: \<open>s.next = newState(value)\<close>, then \<open>close(s.done)\<close>.\<close>

definition state_link :: "nat option \<Rightarrow> 'v \<Rightarrow> 'v heap \<Rightarrow> 'v heap go" where
  "state_link s v h =
     go_bind (load h s) (\<lambda>st. let (a, h1) = newState v h in Inr (store h1 s (st\<lparr>st_next := a\<rparr>)))"

definition state_close :: "nat option \<Rightarrow> 'v heap \<Rightarrow> 'v heap go" where
  "state_close s h =
     go_bind (load h s) (\<lambda>st. if st_done st then Inl CloseOfClosedChannel
                               else Inr (store h s (st\<lparr>st_done := True\<rparr>)))"

definition state_update :: "nat option \<Rightarrow> 'v \<Rightarrow> 'v heap \<Rightarrow> (nat option \<times> 'v heap) go" where
  "state_update s v h =
     go_bind (state_link s v h) (\<lambda>h1.
     go_bind (state_close s h1) (\<lambda>h2.
     go_bind (load h2 s) (\<lambda>st. Inr (st_next st, h2))))"

section \<open>stream.go\<close>

record stream =
  stream_state :: "nat option"

definition stream_Value :: "stream \<Rightarrow> 'v heap \<Rightarrow> 'v go" where
  "stream_Value s h = go_bind (load h (stream_state s)) (\<lambda>st. Inr (st_value st))"

text \<open>\<open>Changes\<close> returns the channel of the current state: the boolean is whether it is closed.\<close>

definition stream_Changes :: "stream \<Rightarrow> 'v heap \<Rightarrow> bool go" where
  "stream_Changes s h = go_bind (load h (stream_state s)) (\<lambda>st. Inr (st_done st))"

definition stream_Next :: "stream \<Rightarrow> 'v heap \<Rightarrow> ('v \<times> stream) go" where
  "stream_Next s h =
     go_bind (load h (stream_state s)) (\<lambda>st.
       let s' = s\<lparr>stream_state := st_next st\<rparr>
       in go_bind (load h (stream_state s')) (\<lambda>st'. Inr (st_value st', s')))"

definition stream_HasNext :: "stream \<Rightarrow> 'v heap \<Rightarrow> bool go" where
  "stream_HasNext s h =
     go_bind (load h (stream_state s)) (\<lambda>st. if st_done st then Inr True else Inr False)"

text \<open>\<open>WaitNext\<close> blocks (\<open>None\<close>) while the channel of the current state is open.\<close>

definition stream_WaitNext :: "stream \<Rightarrow> 'v heap \<Rightarrow> ('v \<times> stream) go option" where
  "stream_WaitNext s h =
     (case load h (stream_state s) of Inl p \<Rightarrow> Some (Inl p)
      | Inr st \<Rightarrow>
          if \<not> st_done st then None
          else (let s' = s\<lparr>stream_state := st_next st\<rparr>
                in Some (go_bind (load h (stream_state s')) (\<lambda>st'. Inr (st_value st', s')))))"

section \<open>subject.go\<close>

record subject =
  subject_state :: "nat option"

definition NewSubject :: "'v \<Rightarrow> 'v heap \<Rightarrow> subject \<times> 'v heap" where
  "NewSubject v h = (let (a, h') = newState v h in (\<lparr>subject_state = a\<rparr>, h'))"

definition subject_Value :: "subject \<Rightarrow> 'v heap \<Rightarrow> 'v go" where
  "subject_Value s h = go_bind (load h (subject_state s)) (\<lambda>st. Inr (st_value st))"

definition subject_Update :: "'v \<Rightarrow> subject \<times> 'v heap \<Rightarrow> (subject \<times> 'v heap) go" where
  "subject_Update v = (\<lambda>(s, h).
     go_bind (state_update (subject_state s) v h) (\<lambda>(a, h'). Inr (s\<lparr>subject_state := a\<rparr>, h')))"

definition subject_Observe :: "subject \<times> 'v heap \<Rightarrow> stream" where
  "subject_Observe = (\<lambda>(s, h). \<lparr>stream_state = subject_state s\<rparr>)"

section \<open>The list abstraction\<close>

text \<open>
  \<open>chain h as vs\<close>: the states at the addresses \<open>as\<close> form a linked list that holds the values
  \<open>vs\<close>; every state but the last one is done and points to its successor.
\<close>

definition cell :: "nat list \<Rightarrow> 'v list \<Rightarrow> nat \<Rightarrow> 'v state" where
  "cell as vs i = \<lparr>st_value = vs ! i,
     st_next = (if Suc i < length as then Some (as ! Suc i) else None),
     st_done = (Suc i < length as)\<rparr>"

definition chain :: "'v heap \<Rightarrow> nat list \<Rightarrow> 'v list \<Rightarrow> bool" where
  "chain h as vs \<longleftrightarrow> as \<noteq> [] \<and> distinct as \<and> length vs = length as \<and>
     (\<forall>i < length as. as ! i < length h \<and> h ! (as ! i) = cell as vs i)"

lemma chainD:
  assumes "chain h as vs"
  shows "as \<noteq> []" "vs \<noteq> []" "distinct as" "length vs = length as"
    and "i < length as \<Longrightarrow> load h (Some (as ! i)) = Inr (cell as vs i)"
  using assms by (auto simp: chain_def load_def)

lemma chain_addr_less: "chain h as vs \<Longrightarrow> a \<in> set as \<Longrightarrow> a < length h"
  by (auto simp: chain_def in_set_conv_nth)

lemma chain_newState: "newState v h = (a, h') \<Longrightarrow> \<exists>b. a = Some b \<and> chain h' [b] [v]"
  by (auto simp: newState_def chain_def cell_def)

lemma load_last_chain:
  "chain h as vs \<Longrightarrow> load h (Some (last as)) =
     Inr \<lparr>st_value = last vs, st_next = None, st_done = False\<rparr>"
  using chainD(5) [of h as vs "length as - 1"] chainD(1-4) [of h as vs]
  by (auto simp: last_conv_nth cell_def)

text \<open>After both writes of an update the chain has grown by one state.\<close>

definition linked_heap :: "'v heap \<Rightarrow> nat list \<Rightarrow> 'v list \<Rightarrow> 'v \<Rightarrow> 'v heap" where
  "linked_heap h as vs v =
     (h @ [\<lparr>st_value = v, st_next = None, st_done = False\<rparr>])
       [last as := \<lparr>st_value = last vs, st_next = Some (length h), st_done = False\<rparr>]"

lemma state_link_chain:
  assumes "chain h as vs"
  shows "state_link (Some (last as)) v h = Inr (linked_heap h as vs v)"
  using load_last_chain [OF assms]
  by (simp add: state_link_def newState_def store_def linked_heap_def)

lemma last_chain_less: "chain h as vs \<Longrightarrow> last as < length h"
  using chain_addr_less [of h as vs "last as"] chainD(1) [of h as vs] by simp

lemma load_linked_last:
  assumes "chain h as vs"
  shows "load (linked_heap h as vs v) (Some (last as)) =
    Inr \<lparr>st_value = last vs, st_next = Some (length h), st_done = False\<rparr>"
  using last_chain_less [OF assms] by (simp add: load_def linked_heap_def)

lemma cell_snoc:
  assumes "length vs = length as" "i < length as" "Suc i \<noteq> length as"
  shows "cell (as @ [a]) (vs @ [v]) i = cell as vs i"
  using assms by (simp add: cell_def nth_append)

lemma state_close_linked:
  assumes c: "chain h as vs"
  shows "\<exists>h'. state_close (Some (last as)) (linked_heap h as vs v) = Inr h' \<and>
    chain h' (as @ [length h]) (vs @ [v]) \<and>
    h' = (h @ [\<lparr>st_value = v, st_next = None, st_done = False\<rparr>])
           [last as := \<lparr>st_value = last vs, st_next = Some (length h), st_done = True\<rparr>]"
    (is "\<exists>h'. _ \<and> _ \<and> h' = ?h")
proof (intro exI [of _ ?h] conjI refl)
  show "state_close (Some (last as)) (linked_heap h as vs v) = Inr ?h"
    using load_linked_last [OF c] by (simp add: state_close_def store_def) (simp add: linked_heap_def)
next
  let ?n = "length as"
  have n: "as \<noteq> []" "length vs = ?n" "distinct as" "vs \<noteq> []"
    using chainD [OF c] by simp_all
  have "as ! i < length ?h \<and> ?h ! (as ! i) = cell (as @ [length h]) (vs @ [v]) i"
    if i: "i < ?n" for i
  proof (cases "Suc i = ?n")
    case True
    then have "as ! i = last as" "vs ! i = last vs"
      using n by (metis diff_Suc_1 last_conv_nth)+
    then show ?thesis
      using True i n last_chain_less [OF c] by (simp add: cell_def nth_append)
  next
    case False
    then have "as ! i \<noteq> last as"
      using n i by (metis Suc_pred' diff_less last_conv_nth length_greater_0_conv nth_eq_iff_index_eq zero_less_one)
    moreover have "as ! i < length h" "h ! (as ! i) = cell as vs i"
      using c i by (auto simp: chain_def)
    ultimately show ?thesis
      using False i n by (simp add: cell_snoc nth_append)
  qed
  moreover have "?h ! length h = cell (as @ [length h]) (vs @ [v]) ?n"
    using n last_chain_less [OF c] by (simp add: cell_def nth_append)
  moreover have "length h \<notin> set as"
    using chain_addr_less [OF c] by blast
  ultimately show "chain ?h (as @ [length h]) (vs @ [v])"
    using n by (auto simp: chain_def less_Suc_eq nth_append)
qed

lemma state_update_chain:
  assumes c: "chain h as vs"
  shows "\<exists>h'. state_update (Some (last as)) v h = Inr (Some (length h), h') \<and>
    chain h' (as @ [length h]) (vs @ [v])"
proof -
  obtain h' where h': "state_close (Some (last as)) (linked_heap h as vs v) = Inr h'"
    "chain h' (as @ [length h]) (vs @ [v])"
    using state_close_linked [OF c] by blast
  have "load h' (Some ((as @ [length h]) ! (length as - 1))) =
      Inr (cell (as @ [length h]) (vs @ [v]) (length as - 1))"
    using chainD(5) [OF h'(2), of "length as - 1"] by simp
  then have "load h' (Some (last as)) = Inr (cell (as @ [length h]) (vs @ [v]) (length as - 1))"
    using chainD(1) [OF c] by (simp add: nth_append last_conv_nth)
  then show ?thesis
    using h' chainD(1) [OF c]
    by (simp add: state_update_def state_link_chain [OF c] cell_def nth_append)
qed


section \<open>The contract of a subject and its streams\<close>

text \<open>
  \<open>rep w ks vs\<close>: in the world \<open>w\<close> the subject has the history \<open>vs\<close>, and \<open>ks ! i\<close> is the
  stream that stands at the \<open>i\<close>-th value.
\<close>

locale feed =
  fixes upd :: "'v \<Rightarrow> 'w \<Rightarrow> 'w go"
    and obs :: "'w \<Rightarrow> 's"
    and nxt :: "'s \<Rightarrow> 'w \<Rightarrow> ('v \<times> 's) go"
    and has :: "'s \<Rightarrow> 'w \<Rightarrow> bool go"
    and rep :: "'w \<Rightarrow> 's list \<Rightarrow> 'v list \<Rightarrow> bool"
  assumes rep_length: "rep w ks vs \<Longrightarrow> length ks = length vs \<and> vs \<noteq> []"
    and upd_rep: "rep w ks vs \<Longrightarrow> \<exists>w' k. upd v w = Inr w' \<and> rep w' (ks @ [k]) (vs @ [v])"
    and obs_rep: "rep w ks vs \<Longrightarrow> obs w = last ks"
    and has_rep: "rep w ks vs \<Longrightarrow> i < length ks \<Longrightarrow> has (ks ! i) w = Inr (Suc i < length ks)"
    and nxt_rep: "rep w ks vs \<Longrightarrow> Suc i < length ks \<Longrightarrow>
      nxt (ks ! i) w = Inr (vs ! Suc i, ks ! Suc i)"

primrec updates :: "('v \<Rightarrow> 'w \<Rightarrow> 'w go) \<Rightarrow> 'v list \<Rightarrow> 'w \<Rightarrow> 'w go" where
  "updates upd [] w = Inr w"
| "updates upd (x # xs) w = go_bind (upd x w) (updates upd xs)"

primrec reads :: "('s \<Rightarrow> 'w \<Rightarrow> ('v \<times> 's) go) \<Rightarrow> nat \<Rightarrow> 's \<Rightarrow> 'w \<Rightarrow> ('v list \<times> 's) go" where
  "reads nxt 0 s w = Inr ([], s)"
| "reads nxt (Suc n) s w =
     go_bind (nxt s w) (\<lambda>(v, s'). go_bind (reads nxt n s' w) (\<lambda>(vs, s''). Inr (v # vs, s'')))"

context feed
begin

lemma updates_rep:
  "rep w ks vs \<Longrightarrow> \<exists>w' ls. updates upd xs w = Inr w' \<and> rep w' (ks @ ls) (vs @ xs)"
proof (induction xs arbitrary: w ks vs)
  case Nil
  then have "rep w (ks @ []) (vs @ [])"
    by simp
  then show ?case
    by (metis updates.simps(1))
next
  case (Cons x xs)
  from upd_rep [OF Cons.prems, of x] obtain w1 k where
    w1: "upd x w = Inr w1" "rep w1 (ks @ [k]) (vs @ [x])"
    by blast
  from Cons.IH [OF w1(2)] obtain w' ls where
    "updates upd xs w1 = Inr w'" "rep w' (ks @ [k] @ ls) (vs @ [x] @ xs)"
    by auto
  with w1(1) show ?case
    by (metis append_Cons append_Nil go_bind.simps(2) updates.simps(2))
qed

lemma reads_rep:
  "rep w ks vs \<Longrightarrow> i + n < length ks \<Longrightarrow>
     reads nxt n (ks ! i) w = Inr (take n (drop (Suc i) vs), ks ! (i + n))"
proof (induction n arbitrary: i)
  case 0
  then show ?case by simp
next
  case (Suc n)
  then have "Suc i < length vs"
    using rep_length by fastforce
  then have "take (Suc n) (drop (Suc i) vs) = vs ! Suc i # take n (drop (Suc (Suc i)) vs)"
    by (simp add: Cons_nth_drop_Suc [symmetric])
  then show ?case
    using Suc.prems Suc.IH [of "Suc i"] nxt_rep [of w ks vs i] by simp
qed

lemma delivery:
  assumes r: "rep w ks vs"
  shows "\<exists>w' s'. updates upd xs w = Inr w' \<and>
    reads nxt (length xs) (obs w) w' = Inr (xs, s') \<and> has s' w' = Inr False"
proof -
  obtain w' ls where w': "updates upd xs w = Inr w'" "rep w' (ks @ ls) (vs @ xs)"
    using updates_rep [OF r] by blast
  define i where "i = length ks - 1"
  have len: "length ks = length vs" "vs \<noteq> []" "length ls = length xs"
    using rep_length [OF r] rep_length [OF w'(2)] by auto
  have "ks \<noteq> []"
    using len by auto
  then have i: "Suc i = length vs" "last ks = (ks @ ls) ! i"
    using len by (auto simp: i_def last_conv_nth nth_append)
  then have "reads nxt (length xs) (obs w) w' = Inr (xs, (ks @ ls) ! (i + length xs))"
    using reads_rep [OF w'(2), of i "length xs"] obs_rep [OF r] len by simp
  moreover have "has ((ks @ ls) ! (i + length xs)) w' = Inr False"
    using has_rep [OF w'(2), of "i + length xs"] i len by simp
  ultimately show ?thesis
    using w'(1) by blast
qed

end

text \<open>The heap code meets the contract.\<close>

definition subject_rep :: "subject \<times> 'v heap \<Rightarrow> stream list \<Rightarrow> 'v list \<Rightarrow> bool" where
  "subject_rep w ks vs \<longleftrightarrow> (\<exists>as. ks = map (\<lambda>a. \<lparr>stream_state = Some a\<rparr>) as \<and>
     chain (snd w) as vs \<and> subject_state (fst w) = Some (last as))"

lemma subject_repI:
  "chain h as vs \<Longrightarrow> subject_state s = Some (last as) \<Longrightarrow>
     subject_rep (s, h) (map (\<lambda>a. \<lparr>stream_state = Some a\<rparr>) as) vs"
  by (auto simp: subject_rep_def)

lemma subject_rep_New:
  assumes "NewSubject v h = w"
  shows "\<exists>k. subject_rep w [k] [v]"
proof -
  let ?h = "h @ [\<lparr>st_value = v, st_next = None, st_done = False\<rparr>]"
  have "chain ?h [length h] [v]"
    using chain_newState [of v h] by (auto simp: newState_def)
  then have "subject_rep (\<lparr>subject_state = Some (length h)\<rparr>, ?h) [\<lparr>stream_state = Some (length h)\<rparr>] [v]"
    using subject_repI [of ?h "[length h]"] by simp
  with assms show ?thesis
    by (auto simp: NewSubject_def newState_def)
qed

lemma stream_ops_chain:
  assumes "chain h as vs" "i < length as"
  shows "stream_Value \<lparr>stream_state = Some (as ! i)\<rparr> h = Inr (vs ! i)"
    and "stream_Changes \<lparr>stream_state = Some (as ! i)\<rparr> h = Inr (Suc i < length as)"
    and "stream_HasNext \<lparr>stream_state = Some (as ! i)\<rparr> h = Inr (Suc i < length as)"
    and "stream_Next \<lparr>stream_state = Some (as ! i)\<rparr> h =
      (if Suc i < length as then Inr (vs ! Suc i, \<lparr>stream_state = Some (as ! Suc i)\<rparr>)
       else Inl NilDereference)"
    and "stream_WaitNext \<lparr>stream_state = Some (as ! i)\<rparr> h =
      (if Suc i < length as then Some (Inr (vs ! Suc i, \<lparr>stream_state = Some (as ! Suc i)\<rparr>))
       else None)"
  using chainD(5) [OF assms] chainD(5) [OF assms(1), of "Suc i"]
  by (simp_all add: stream_Value_def stream_Changes_def stream_HasNext_def stream_Next_def
      stream_WaitNext_def cell_def load_def)

interpretation subject_feed: feed subject_Update subject_Observe
  "\<lambda>st w. stream_Next st (snd w)" "\<lambda>st w. stream_HasNext st (snd w)" subject_rep
proof (unfold_locales, goal_cases)
  case (1 w ks vs)
  then show ?case
    by (auto simp: subject_rep_def chain_def)
next
  case (2 w ks vs v)
  then obtain s h as where w: "w = (s, h)" "ks = map (\<lambda>a. \<lparr>stream_state = Some a\<rparr>) as"
    "chain h as vs" "subject_state s = Some (last as)"
    by (cases w) (auto simp: subject_rep_def)
  obtain h' where h': "state_update (Some (last as)) v h = Inr (Some (length h), h')"
    "chain h' (as @ [length h]) (vs @ [v])"
    using state_update_chain [OF w(3)] by blast
  then have "subject_Update v w = Inr (\<lparr>subject_state = Some (length h)\<rparr>, h')"
    using w by (simp add: subject_Update_def)
  moreover have "subject_rep (\<lparr>subject_state = Some (length h)\<rparr>, h')
      (ks @ [\<lparr>stream_state = Some (length h)\<rparr>]) (vs @ [v])"
    using subject_repI [OF h'(2)] w(2) by simp
  ultimately show ?case
    by blast
next
  case (3 w ks vs)
  then show ?case
    by (cases w) (auto simp: subject_rep_def subject_Observe_def last_map dest: chainD(1))
next
  case (4 w ks vs i)
  then show ?case
    by (auto simp: subject_rep_def stream_ops_chain)
next
  case (5 w ks vs i)
  then show ?case
    by (auto simp: subject_rep_def stream_ops_chain)
qed

text \<open>
  C33. A stream delivers exactly the updates made after \<open>Observe\<close>, in order and without loss or
  repetition: whatever happened before (\<open>ys\<close>), after the updates \<open>xs\<close> the stream can be advanced
  \<open>length xs\<close> times, no step panics, it returns the values \<open>xs\<close>, and then \<open>HasNext\<close> is false.
\<close>

theorem stream_delivers_updates:
  assumes "NewSubject v0 h0 = w0"
  shows "\<exists>w w' st. updates subject_Update ys w0 = Inr w \<and> updates subject_Update xs w = Inr w' \<and>
    reads (\<lambda>st w. stream_Next st (snd w)) (length xs) (subject_Observe w) w' = Inr (xs, st) \<and>
    stream_HasNext st (snd w') = Inr False"
proof -
  obtain k where "subject_rep w0 [k] [v0]"
    using subject_rep_New [OF assms] by blast
  then obtain w ls where "updates subject_Update ys w0 = Inr w" "subject_rep w ([k] @ ls) ([v0] @ ys)"
    using subject_feed.updates_rep by blast
  then show ?thesis
    using subject_feed.delivery [of w "[k] @ ls" "[v0] @ ys" xs] by blast
qed

theorem stream_delivers_updates_witness:
  "\<exists>w w' st. updates subject_Update [1, 2] (NewSubject (0::nat) []) = Inr w \<and>
    updates subject_Update [7, 8, 9] w = Inr w' \<and>
    reads (\<lambda>st w. stream_Next st (snd w)) 3 (subject_Observe w) w' = Inr ([7, 8, 9], st) \<and>
    stream_HasNext st (snd w') = Inr False"
  using stream_delivers_updates [of "0::nat" "[]" _ "[1, 2]" "[7, 8, 9]"]
  by (simp add: numeral_3_eq_3)

section \<open>Interleavings\<close>

text \<open>
  \<open>Update\<close> holds the subject's write lock while it performs its three writes (line 23 and line 24
  of \<open>state.go\<close>, line 36 of \<open>subject.go\<close>); \<open>Observe\<close> takes the read lock, so it runs only while no
  update is in progress; \<open>Changes\<close> and \<open>Next\<close> take no lock and may run between any two of the
  writes. The phase says how far the running update has come.

  \<open>history\<close>, \<open>start\<close> and \<open>seen\<close> are not program state: they record the values published so far,
  how many there were when stream \<open>k\<close> was created, and the values \<open>Next\<close> has returned on it.
\<close>

datatype 'v phase = Idle | Linked 'v | Closed

record 'v osys =
  os_heap :: "'v heap"
  os_subject :: subject
  os_phase :: "'v phase"
  os_streams :: "nat \<rightharpoonup> stream"
  history :: "'v list"
  start :: "nat \<Rightarrow> nat"
  seen :: "nat \<Rightarrow> 'v list"

definition osys_init :: "'v \<Rightarrow> 'v heap \<Rightarrow> 'v osys" where
  "osys_init v h = (let (s, h') = NewSubject v h in
     \<lparr>os_heap = h', os_subject = s, os_phase = Idle, os_streams = Map.empty,
      history = [v], start = (\<lambda>_. 0), seen = (\<lambda>_. [])\<rparr>)"

inductive osys_step :: "'v osys \<Rightarrow> 'v osys \<Rightarrow> bool" where
  link: "os_phase s = Idle \<Longrightarrow> state_link (subject_state (os_subject s)) v (os_heap s) = Inr h \<Longrightarrow>
    osys_step s (s\<lparr>os_heap := h, os_phase := Linked v\<rparr>)"
| close: "os_phase s = Linked v \<Longrightarrow> state_close (subject_state (os_subject s)) (os_heap s) = Inr h \<Longrightarrow>
    osys_step s (s\<lparr>os_heap := h, os_phase := Closed, history := history s @ [v]\<rparr>)"
| assign: "os_phase s = Closed \<Longrightarrow> load (os_heap s) (subject_state (os_subject s)) = Inr st \<Longrightarrow>
    osys_step s (s\<lparr>os_subject := (os_subject s)\<lparr>subject_state := st_next st\<rparr>, os_phase := Idle\<rparr>)"
| observe: "os_phase s = Idle \<Longrightarrow>
    osys_step s (s\<lparr>os_streams := (os_streams s)(k \<mapsto> subject_Observe (os_subject s, os_heap s)),
                   start := (start s)(k := length (history s)), seen := (seen s)(k := [])\<rparr>)"
| advance: "os_streams s k = Some st \<Longrightarrow> stream_Changes st (os_heap s) = Inr True \<Longrightarrow>
    stream_Next st (os_heap s) = Inr (v, st') \<Longrightarrow>
    osys_step s (s\<lparr>os_streams := (os_streams s)(k \<mapsto> st'),
                   seen := (seen s)(k := seen s k @ [v])\<rparr>)"

inductive osys_reach :: "'v \<Rightarrow> 'v heap \<Rightarrow> 'v osys \<Rightarrow> bool" for v0 h0 where
  init: "osys_reach v0 h0 (osys_init v0 h0)"
| step: "osys_reach v0 h0 s \<Longrightarrow> osys_step s t \<Longrightarrow> osys_reach v0 h0 t"

text \<open>What a stream can read off a heap, whether an update is in progress or not.\<close>

definition readable :: "'v heap \<Rightarrow> nat list \<Rightarrow> 'v list \<Rightarrow> bool" where
  "readable h as vs \<longleftrightarrow> (\<forall>i < length as.
     stream_Changes \<lparr>stream_state = Some (as ! i)\<rparr> h = Inr (Suc i < length as) \<and>
     (Suc i < length as \<longrightarrow> stream_Next \<lparr>stream_state = Some (as ! i)\<rparr> h =
        Inr (vs ! Suc i, \<lparr>stream_state = Some (as ! Suc i)\<rparr>)))"

lemma chain_readable: "chain h as vs \<Longrightarrow> readable h as vs"
  by (simp add: readable_def stream_ops_chain)

lemma load_linked:
  assumes c: "chain h as vs" and i: "i < length as"
  shows "load (linked_heap h as vs v) (Some (as ! i)) =
    Inr ((cell as vs i)\<lparr>st_next := if Suc i < length as then Some (as ! Suc i) else Some (length h)\<rparr>)"
proof (cases "Suc i < length as")
  case True
  then have "as ! i \<noteq> last as"
    using chainD [OF c] i by (auto simp: last_conv_nth nth_eq_iff_index_eq)
  moreover have "as ! i < length h"
    using chain_addr_less [OF c] i by simp
  ultimately show ?thesis
    using True chainD(5) [OF c i] by (simp add: load_def linked_heap_def nth_append cell_def)
next
  case False
  then have "i = length as - 1"
    using i by simp
  then have "as ! i = last as" "vs ! i = last vs"
    using chainD(1-4) [OF c] by (auto simp: last_conv_nth)
  then show ?thesis
    using False load_linked_last [OF c, of v] by (simp add: cell_def)
qed

lemma linked_readable: "chain h as vs \<Longrightarrow> readable (linked_heap h as vs v) as vs"
  by (auto simp: readable_def stream_Changes_def stream_Next_def load_linked cell_def)

definition phase_ok :: "'v osys \<Rightarrow> nat list \<Rightarrow> bool" where
  "phase_ok s as \<longleftrightarrow>
     (case os_phase s of
        Idle \<Rightarrow> chain (os_heap s) as (history s) \<and> subject_state (os_subject s) = Some (last as)
      | Linked v \<Rightarrow> subject_state (os_subject s) = Some (last as) \<and>
          (\<exists>h. chain h as (history s) \<and> os_heap s = linked_heap h as (history s) v)
      | Closed \<Rightarrow> chain (os_heap s) as (history s) \<and>
          (\<exists>bs a. as = bs @ [a] \<and> bs \<noteq> [] \<and> subject_state (os_subject s) = Some (last bs)))"

definition stream_ok :: "'v osys \<Rightarrow> nat list \<Rightarrow> nat \<Rightarrow> stream \<Rightarrow> bool" where
  "stream_ok s as k st \<longleftrightarrow> 1 \<le> start s k \<and> start s k - 1 + length (seen s k) < length as \<and>
     st = \<lparr>stream_state = Some (as ! (start s k - 1 + length (seen s k)))\<rparr> \<and>
     seen s k = take (length (seen s k)) (drop (start s k) (history s))"

definition osys_inv :: "'v osys \<Rightarrow> bool" where
  "osys_inv s \<longleftrightarrow> (\<exists>as. phase_ok s as \<and>
     (\<forall>k st. os_streams s k = Some st \<longrightarrow> stream_ok s as k st))"

lemma phase_ok_facts:
  assumes "phase_ok s as"
  shows "readable (os_heap s) as (history s)" "length as = length (history s)" "as \<noteq> []"
  using assms
  by (auto simp: phase_ok_def chain_readable linked_readable split: phase.splits dest: chainD)

text \<open>A stream that is not at the end of the history can advance, and reads the next value.\<close>

lemma stream_ok_advance:
  assumes "phase_ok s as" "stream_ok s as k st"
  shows "stream_Changes st (os_heap s) = Inr (start s k + length (seen s k) < length (history s))"
    and "start s k + length (seen s k) < length (history s) \<Longrightarrow>
      stream_Next st (os_heap s) = Inr (history s ! (start s k + length (seen s k)),
        \<lparr>stream_state = Some (as ! (start s k + length (seen s k)))\<rparr>)"
  using phase_ok_facts [OF assms(1)] assms(2) by (auto simp: readable_def stream_ok_def)

lemma stream_ok_extend:
  "stream_ok s as k st \<Longrightarrow> length as = length (history s) \<Longrightarrow> start t k = start s k \<Longrightarrow>
   seen t k = seen s k \<Longrightarrow> history t = history s @ xs \<Longrightarrow> stream_ok t (as @ bs) k st"
  by (auto simp: stream_ok_def nth_append)

text \<open>
  One lemma per step. Each keeps the streams it does not touch; \<open>osys_inv_frame\<close> carries them over.
\<close>

lemma osys_inv_frame:
  assumes "phase_ok s as" "\<And>k st. os_streams s k = Some st \<Longrightarrow> stream_ok s as k st"
    and "phase_ok t (as @ bs)" "history t = history s @ xs"
    and "\<And>k st. os_streams t k = Some st \<Longrightarrow> stream_ok t (as @ bs) k st \<or>
      os_streams s k = Some st \<and> start t k = start s k \<and> seen t k = seen s k"
  shows "osys_inv t"
  unfolding osys_inv_def
  using assms stream_ok_extend phase_ok_facts(2) [OF assms(1)] by metis

lemma osys_inv_link:
  assumes "phase_ok s as" "\<And>k st. os_streams s k = Some st \<Longrightarrow> stream_ok s as k st"
    and "os_phase s = Idle" "state_link (subject_state (os_subject s)) v (os_heap s) = Inr h"
  shows "osys_inv (s\<lparr>os_heap := h, os_phase := Linked v\<rparr>)"
proof (rule osys_inv_frame [OF assms(1,2), of _ "[]" "[]"])
  have "chain (os_heap s) as (history s)" "subject_state (os_subject s) = Some (last as)"
    using assms(1,3) by (auto simp: phase_ok_def)
  then show "phase_ok (s\<lparr>os_heap := h, os_phase := Linked v\<rparr>) (as @ [])"
    using assms(4) state_link_chain [of "os_heap s" as "history s" v] by (auto simp: phase_ok_def)
qed simp_all

lemma osys_inv_close:
  assumes "phase_ok s as" "\<And>k st. os_streams s k = Some st \<Longrightarrow> stream_ok s as k st"
    and "os_phase s = Linked v" "state_close (subject_state (os_subject s)) (os_heap s) = Inr h"
  shows "osys_inv (s\<lparr>os_heap := h, os_phase := Closed, history := history s @ [v]\<rparr>)"
proof -
  obtain h0 where c: "chain h0 as (history s)" "os_heap s = linked_heap h0 as (history s) v"
    "subject_state (os_subject s) = Some (last as)"
    using assms(1,3) by (auto simp: phase_ok_def)
  have "chain h (as @ [length h0]) (history s @ [v])"
    using assms(4) state_close_linked [OF c(1), of v] c(2,3) by auto
  then have "phase_ok (s\<lparr>os_heap := h, os_phase := Closed, history := history s @ [v]\<rparr>) (as @ [length h0])"
    using c(3) chainD(1) [OF c(1)] by (simp add: phase_ok_def)
  then show ?thesis
    by (intro osys_inv_frame [OF assms(1,2)]) auto
qed

lemma osys_inv_assign:
  assumes "phase_ok s as" "\<And>k st. os_streams s k = Some st \<Longrightarrow> stream_ok s as k st"
    and "os_phase s = Closed" "load (os_heap s) (subject_state (os_subject s)) = Inr cl"
  shows "osys_inv (s\<lparr>os_subject := (os_subject s)\<lparr>subject_state := st_next cl\<rparr>, os_phase := Idle\<rparr>)"
proof (rule osys_inv_frame [OF assms(1,2), of _ "[]" "[]"])
  obtain bs a where c: "chain (os_heap s) as (history s)" "as = bs @ [a]" "bs \<noteq> []"
    "subject_state (os_subject s) = Some (last bs)"
    using assms(1,3) by (auto simp: phase_ok_def)
  have "load (os_heap s) (Some (last bs)) = Inr (cell as (history s) (length bs - 1))"
    using chainD(5) [OF c(1), of "length bs - 1"] c(2,3) by (simp add: nth_append last_conv_nth)
  then have "st_next cl = Some a"
    using assms(4) c by (auto simp: cell_def nth_append)
  then show "phase_ok (s\<lparr>os_subject := (os_subject s)\<lparr>subject_state := st_next cl\<rparr>,
      os_phase := Idle\<rparr>) (as @ [])"
    using c by (simp add: phase_ok_def)
qed simp_all

lemma osys_inv_observe:
  assumes "phase_ok s as" "\<And>k st. os_streams s k = Some st \<Longrightarrow> stream_ok s as k st"
    and "os_phase s = Idle"
  shows "osys_inv (s\<lparr>os_streams := (os_streams s)(k \<mapsto> subject_Observe (os_subject s, os_heap s)),
      start := (start s)(k := length (history s)), seen := (seen s)(k := [])\<rparr>)"
    (is "osys_inv ?t")
proof (rule osys_inv_frame [OF assms(1,2), of _ "[]" "[]"])
  show "phase_ok ?t (as @ [])"
    using assms(1,3) by (simp add: phase_ok_def)
  have "history s \<noteq> []" "length as = length (history s)" "as \<noteq> []"
    using phase_ok_facts [OF assms(1)] by auto
  then have "stream_ok ?t as k (subject_Observe (os_subject s, os_heap s))"
    using assms(1,3)
    by (auto simp: stream_ok_def phase_ok_def subject_Observe_def last_conv_nth Suc_le_eq)
  then show "stream_ok ?t (as @ []) j st \<or>
      os_streams s j = Some st \<and> start ?t j = start s j \<and> seen ?t j = seen s j"
    if "os_streams ?t j = Some st" for j st
    using that by (cases "j = k") auto
qed simp_all

lemma osys_inv_advance:
  assumes "phase_ok s as" "\<And>k st. os_streams s k = Some st \<Longrightarrow> stream_ok s as k st"
    and "os_streams s k = Some st" "stream_Changes st (os_heap s) = Inr True"
    and "stream_Next st (os_heap s) = Inr (v, st')"
  shows "osys_inv (s\<lparr>os_streams := (os_streams s)(k \<mapsto> st'), seen := (seen s)(k := seen s k @ [v])\<rparr>)"
    (is "osys_inv ?t")
proof (rule osys_inv_frame [OF assms(1,2), of _ "[]" "[]"])
  show "phase_ok ?t (as @ [])"
    using assms(1) by (simp add: phase_ok_def cong: phase.case_cong)
  let ?n = "start s k + length (seen s k)"
  have ok: "stream_ok s as k st"
    using assms(2,3) by simp
  have n: "?n < length (history s)"
    using stream_ok_advance(1) [OF assms(1) ok] assms(4) by simp
  have "take (Suc (length (seen s k))) (drop (start s k) (history s)) = seen s k @ [history s ! ?n]"
    using ok n by (simp add: stream_ok_def take_Suc_conv_app_nth)
  then have "stream_ok ?t as k st'"
    using stream_ok_advance(2) [OF assms(1) ok n] assms(5) ok n phase_ok_facts(2) [OF assms(1)]
    by (auto simp: stream_ok_def)
  then show "stream_ok ?t (as @ []) j sj \<or>
      os_streams s j = Some sj \<and> start ?t j = start s j \<and> seen ?t j = seen s j"
    if "os_streams ?t j = Some sj" for j sj
    using that by (cases "j = k") auto
qed simp_all

lemma osys_step_inv: "osys_step s t \<Longrightarrow> osys_inv s \<Longrightarrow> osys_inv t"
  unfolding osys_inv_def [of s]
  by (elim exE conjE, erule osys_step.cases)
    (blast intro: osys_inv_link osys_inv_close osys_inv_assign osys_inv_observe osys_inv_advance)+

lemma osys_init_inv: "osys_inv (osys_init v h)"
  using chain_newState [of v h]
  by (auto simp: osys_inv_def osys_init_def phase_ok_def NewSubject_def newState_def)

lemma osys_reach_inv: "osys_reach v0 h0 s \<Longrightarrow> osys_inv s"
  by (induction rule: osys_reach.induct) (auto intro: osys_init_inv osys_step_inv)

lemma stream_ok_rest:
  assumes p: "phase_ok s as" and ok: "stream_ok s as k st"
  shows "\<exists>rest. drop (start s k) (history s) = seen s k @ rest \<and>
    stream_Changes st (os_heap s) = Inr (rest \<noteq> []) \<and>
    (\<forall>v ws. rest = v # ws \<longrightarrow> (\<exists>st'. stream_Next st (os_heap s) = Inr (v, st')))"
proof -
  let ?n = "start s k + length (seen s k)"
  have "drop (start s k) (history s) = seen s k @ drop ?n (history s)"
    using ok by (metis add.commute append_take_drop_id drop_drop stream_ok_def)
  moreover have "stream_Changes st (os_heap s) = Inr (drop ?n (history s) \<noteq> [])"
    using stream_ok_advance(1) [OF p ok] by (simp add: not_le)
  moreover have "\<exists>st'. stream_Next st (os_heap s) = Inr (v, st')"
    if r: "drop ?n (history s) = v # ws" for v ws
  proof -
    have n: "?n < length (history s)"
      using r by (metis drop_all linorder_not_le list.distinct(1))
    then have "history s ! ?n = v"
      using r by (metis hd_drop_conv_nth list.sel(1))
    then show ?thesis
      using stream_ok_advance(2) [OF p ok n] by auto
  qed
  ultimately show ?thesis
    by blast
qed

lemma phase_ok_no_panic:
  assumes "phase_ok s as"
  shows "os_phase s = Idle \<Longrightarrow> \<exists>h. state_link (subject_state (os_subject s)) v (os_heap s) = Inr h"
    and "os_phase s = Linked w \<Longrightarrow> \<exists>h. state_close (subject_state (os_subject s)) (os_heap s) = Inr h"
  using assms state_link_chain state_close_linked by (fastforce simp: phase_ok_def)+

text \<open>
  C6. Delivery under every interleaving. In every reachable state, what a stream has returned is a
  prefix of the values published after it was created; \<open>Changes\<close> signals exactly when there is
  more; and none of the writes of an update nor a signalled \<open>Next\<close> panics, so the channel of a
  state is never closed twice and \<open>Next\<close> never follows a nil pointer.
\<close>

theorem stream_interleaving_delivery:
  assumes "osys_reach v0 h0 s"
  shows "(\<forall>k st. os_streams s k = Some st \<longrightarrow>
      (\<exists>rest. drop (start s k) (history s) = seen s k @ rest \<and>
         stream_Changes st (os_heap s) = Inr (rest \<noteq> []) \<and>
         (\<forall>v ws. rest = v # ws \<longrightarrow> (\<exists>st'. stream_Next st (os_heap s) = Inr (v, st'))))) \<and>
    (os_phase s = Idle \<longrightarrow> (\<exists>h. state_link (subject_state (os_subject s)) v (os_heap s) = Inr h)) \<and>
    (\<forall>w. os_phase s = Linked w \<longrightarrow> (\<exists>h. state_close (subject_state (os_subject s)) (os_heap s) = Inr h))"
proof -
  obtain as where as: "phase_ok s as" "\<And>k st. os_streams s k = Some st \<Longrightarrow> stream_ok s as k st"
    using osys_reach_inv [OF assms] by (auto simp: osys_inv_def)
  show ?thesis
    by (intro conjI allI impI stream_ok_rest [OF as(1)] as(2) phase_ok_no_panic [OF as(1)])
qed

text \<open>A run of the system: stream 5 is created, then 42 is published and read.\<close>

definition osys_example :: "nat osys" where
  "osys_example = \<lparr>os_heap = [\<lparr>st_value = 0, st_next = Some 1, st_done = True\<rparr>,
      \<lparr>st_value = 42, st_next = None, st_done = False\<rparr>],
    os_subject = \<lparr>subject_state = Some 0\<rparr>, os_phase = Closed,
    os_streams = [5 \<mapsto> \<lparr>stream_state = Some 1\<rparr>], history = [0, 42],
    start = (\<lambda>_. 0)(5 := 1), seen = (\<lambda>_. [])(5 := [42])\<rparr>"

lemma osys_example_reach: "osys_reach 0 [] osys_example"
proof -
  let ?c = "\<lparr>st_value = (42::nat), st_next = None, st_done = False\<rparr>"
  let ?s0 = "osys_init (0::nat) []"
  let ?s1 = "?s0\<lparr>os_streams := [5 \<mapsto> \<lparr>stream_state = Some 0\<rparr>], start := (\<lambda>_. 0)(5 := 1),
    seen := (\<lambda>_. [])(5 := [])\<rparr>"
  let ?s2 = "?s1\<lparr>os_heap := [\<lparr>st_value = 0, st_next = Some 1, st_done = False\<rparr>, ?c],
    os_phase := Linked 42\<rparr>"
  let ?s3 = "?s2\<lparr>os_heap := [\<lparr>st_value = 0, st_next = Some 1, st_done = True\<rparr>, ?c],
    os_phase := Closed, history := history ?s2 @ [42]\<rparr>"
  have 1: "osys_step ?s0 ?s1"
    using osys_step.observe [of ?s0 5]
    by (simp add: osys_init_def NewSubject_def newState_def subject_Observe_def)
  have 2: "osys_step ?s1 ?s2"
    by (rule osys_step.link)
      (simp_all add: osys_init_def NewSubject_def newState_def state_link_def load_def store_def)
  have 3: "osys_step ?s2 ?s3"
    by (rule osys_step.close)
      (simp_all add: osys_init_def NewSubject_def newState_def state_close_def load_def store_def)
  have "osys_step ?s3 (?s3\<lparr>os_streams := (os_streams ?s3)(5 \<mapsto> \<lparr>stream_state = Some 1\<rparr>),
      seen := (seen ?s3)(5 := seen ?s3 5 @ [42])\<rparr>)"
    by (rule osys_step.advance [where st = "\<lparr>stream_state = Some 0\<rparr>"])
      (simp_all add: osys_init_def stream_Changes_def stream_Next_def load_def)
  then have 4: "osys_step ?s3 osys_example"
    by (simp add: osys_example_def osys_init_def NewSubject_def newState_def)
  show ?thesis
    by (rule osys_reach.step [OF osys_reach.step [OF osys_reach.step [OF osys_reach.step
      [OF osys_reach.init 1] 2] 3] 4])
qed

theorem stream_interleaving_delivery_witness:
  "osys_reach 0 [] osys_example \<and>
   (\<exists>rest. drop 1 (history osys_example) = [42] @ rest \<and>
     stream_Changes \<lparr>stream_state = Some 1\<rparr> (os_heap osys_example) = Inr (rest \<noteq> []))"
proof -
  have "os_streams osys_example 5 = Some \<lparr>stream_state = Some 1\<rparr>"
    "start osys_example 5 = 1" "seen osys_example 5 = [42]"
    by (simp_all add: osys_example_def)
  then show ?thesis
    using stream_interleaving_delivery [OF osys_example_reach] osys_example_reach by metis
qed

end
