(* ===== verification/Runner.thy ===== *)
theory Runner
  imports Prelude
begin

text \<open>
  \<open>utils.MultiRoutineRunner\<close>: it splits \<open>itemsCount\<close> calls of \<open>fn\<close> into chunks, starts one
  goroutine per chunk and waits for all of them.

  The chunking is a function with Go's integer arithmetic; the goroutines are a step relation in
  which any goroutine may move next. An iteration of a goroutine's loop is three steps: the call of
  \<open>fn\<close>, the atomic update of \<open>success\<close> or \<open>failed\<close>, and the progress counter together with the
  loop increment; leaving the loop is \<open>wg.Done()\<close>. The result of the \<open>k\<close>-th call is a parameter
  \<open>fn k\<close> (\<open>None\<close> is Go's nil error). \<open>r_calls\<close> records the indices \<open>fn\<close> was called with, in
  order; it is not program state.

  The locale \<open>task_pool\<close> is what the callers of the runner rely on; it is interpreted for the two
  parameter choices of the source, \<open>StartAgents\<close> (1, 1000) and \<open>ConnectAll\<close> (5, 50).
\<close>

section \<open>Chunks\<close>

definition routinesCount :: "int \<Rightarrow> int \<Rightarrow> int \<Rightarrow> int go" where
  "routinesCount itemsCount itemsPerRoutine maxRoutines =
     go_bind (go_div (wrap64 (wrap64 (itemsCount + itemsPerRoutine) - 1)) itemsPerRoutine)
       (\<lambda>rc. Inr (if rc > maxRoutines then maxRoutines else rc))"

definition chunk :: "int \<Rightarrow> int \<Rightarrow> int \<Rightarrow> int \<times> int" where
  "chunk itemsCount cntPerRoutine i =
     (let cnt = cntPerRoutine; offset = wrap64 (i * cntPerRoutine)
      in (offset, if wrap64 (cnt + offset) > itemsCount then wrap64 (itemsCount - offset) else cnt))"

text \<open>\<open>wg.Add\<close> panics on a negative count.\<close>

definition runner_plan :: "int \<Rightarrow> int \<Rightarrow> int \<Rightarrow> (int \<times> int) list go" where
  "runner_plan itemsCount itemsPerRoutine maxRoutines =
     go_bind (routinesCount itemsCount itemsPerRoutine maxRoutines) (\<lambda>rc.
     go_bind (go_div (wrap64 (wrap64 (itemsCount + rc) - 1)) rc) (\<lambda>cntPerRoutine.
       if rc < 0 then Inl NegativeWaitGroup
       else Inr (map (\<lambda>i. chunk itemsCount cntPerRoutine (int i)) [0..<nat rc])))"

definition chunk_indices :: "int \<times> int \<Rightarrow> int list" where
  "chunk_indices = (\<lambda>(offset, cnt). [offset..offset + cnt - 1])"

lemma ceil_div_bounds:
  fixes n r :: int
  assumes "0 < n" "0 < r"
  shows "n \<le> r * ((n + r - 1) div r)" "1 \<le> (n + r - 1) div r" "(n + r - 1) div r \<le> n"
proof -
  have "n + r - 1 = r * ((n + r - 1) div r) + (n + r - 1) mod r"
    by (rule mult_div_mod_eq [symmetric])
  moreover have "(n + r - 1) mod r < r"
    using assms(2) by (rule pos_mod_bound)
  ultimately show "n \<le> r * ((n + r - 1) div r)"
    by linarith
  have "r div r \<le> (n + r - 1) div r"
    using assms by (intro zdiv_mono1) simp_all
  then show "1 \<le> (n + r - 1) div r"
    using assms by simp
  have "0 \<le> (n - 1) * (r - 1)"
    using assms by simp
  then have "n + r - 1 \<le> n * r"
    by (simp add: algebra_simps)
  then have "(n + r - 1) div r \<le> (n * r) div r"
    using assms by (intro zdiv_mono1) simp_all
  then show "(n + r - 1) div r \<le> n"
    using assms by simp
qed

text \<open>
  For inputs far from the bounds of \<open>int\<close> nothing wraps: the plan is \<open>r\<close> chunks of \<open>c\<close> items.
\<close>

definition small_args :: "int \<Rightarrow> int \<Rightarrow> int \<Rightarrow> bool" where
  "small_args n q m \<longleftrightarrow> 0 < n \<and> n < 2 ^ 31 \<and> 0 < q \<and> q < 2 ^ 31 \<and> 0 < m \<and> m < 2 ^ 31"

lemma routinesCount_small:
  assumes "small_args n q m"
  shows "routinesCount n q m = Inr (min m ((n + q - 1) div q))"
    and "1 \<le> min m ((n + q - 1) div q)" "min m ((n + q - 1) div q) \<le> n"
proof -
  have b: "0 < n" "n < 2 ^ 31" "0 < q" "q < 2 ^ 31" "0 < m"
    using assms by (simp_all add: small_args_def)
  have "wrap64 (wrap64 (n + q) - 1) = n + q - 1"
    using b by (simp add: wrap64_id)
  then show "routinesCount n q m = Inr (min m ((n + q - 1) div q))"
    using b by (simp add: routinesCount_def go_div_nonneg)
  show "1 \<le> min m ((n + q - 1) div q)" "min m ((n + q - 1) div q) \<le> n"
    using b ceil_div_bounds [of n q] by simp_all
qed

lemma runner_plan_small:
  assumes "small_args n q m"
  obtains r c where "1 \<le> r" "r \<le> m" "1 \<le> c" "n \<le> r * c" "c \<le> n" "r \<le> n"
    "runner_plan n q m = Inr (map (\<lambda>i. chunk n c (int i)) [0..<nat r])"
proof -
  define r where "r = min m ((n + q - 1) div q)"
  have r: "routinesCount n q m = Inr r" "1 \<le> r" "r \<le> m" "r \<le> n"
    using routinesCount_small [OF assms] by (simp_all add: r_def)
  have n: "0 < n" "n < 2 ^ 31"
    using assms by (simp_all add: small_args_def)
  have "wrap64 (wrap64 (n + r) - 1) = n + r - 1"
    using r n by (simp add: wrap64_id)
  then have "go_div (wrap64 (wrap64 (n + r) - 1)) r = Inr ((n + r - 1) div r)"
    using r n by (simp add: go_div_nonneg)
  then show ?thesis
    using that [of r "(n + r - 1) div r"] r n ceil_div_bounds [of n r] by (simp add: runner_plan_def)
qed

lemma chunk_small:
  assumes "0 \<le> i" "i < 2 ^ 31" "1 \<le> c" "c < 2 ^ 31" "0 < n" "n < 2 ^ 31"
  shows "chunk n c i = (i * c, if c + i * c > n then n - i * c else c)"
proof -
  define p where "p = i * c"
  have "0 \<le> p" "p < 2 ^ 62"
    using assms mult_strict_mono [of i "2 ^ 31" c "2 ^ 31"] by (simp_all add: p_def)
  then have "wrap64 p = p" "wrap64 (c + p) = c + p" "wrap64 (n - p) = n - p"
    using assms by (simp_all add: wrap64_id)
  then show ?thesis
    by (simp add: chunk_def Let_def flip: p_def)
qed

lemma chunk_indices_small:
  assumes "0 \<le> i" "i < 2 ^ 31" "1 \<le> c" "c < 2 ^ 31" "0 < n" "n < 2 ^ 31"
  shows "chunk_indices (chunk n c i) = [i * c..min n (i * c + c) - 1]"
  using chunk_small [OF assms] by (auto simp: chunk_indices_def min_def algebra_simps)

lemma concat_chunks:
  assumes "int k < 2 ^ 31" "1 \<le> c" "c < 2 ^ 31" "0 < n" "n < 2 ^ 31"
  shows "concat (map (\<lambda>i. chunk_indices (chunk n c (int i))) [0..<k]) = [0..min n (int k * c) - 1]"
  using assms(1)
proof (induction k)
  case 0
  then show ?case by simp
next
  case (Suc k)
  have "0 \<le> int k * c"
    using assms by simp
  then have "[0..min n (int k * c) - 1] @ [int k * c..min n (int k * c + c) - 1] =
      [0..min n (int k * c + c) - 1]"
    using upto_split1 [of 0 "int k * c" "min n (int k * c + c) - 1"] assms
    by (cases "int k * c < n") auto
  then show ?case
    using Suc assms chunk_indices_small [of "int k" c n] by (simp add: algebra_simps)
qed

text \<open>The chunks of a plan are the indices \<open>0..itemsCount-1\<close>, each once and in order.\<close>

lemma runner_plan_partition:
  assumes "small_args n q m"
  shows "\<exists>cs. runner_plan n q m = Inr cs \<and> concat (map chunk_indices cs) = [0..n - 1] \<and>
    int (length cs) \<le> m"
proof -
  obtain r c where rc: "1 \<le> r" "r \<le> m" "1 \<le> c" "n \<le> r * c" "c \<le> n" "r \<le> n"
    "runner_plan n q m = Inr (map (\<lambda>i. chunk n c (int i)) [0..<nat r])"
    using runner_plan_small [OF assms] .
  have n: "0 < n" "n < 2 ^ 31"
    using assms by (simp_all add: small_args_def)
  have "concat (map (\<lambda>i. chunk_indices (chunk n c (int i))) [0..<nat r]) = [0..n - 1]"
    using concat_chunks [of "nat r" c n] rc n by simp
  then show ?thesis
    using rc by (simp add: comp_def)
qed

section \<open>Goroutines\<close>

datatype gpc = AtLoop | Returned "error option" | Counted | Finished

record goroutine =
  g_offset :: int
  g_cnt :: int
  g_i :: int
  g_pc :: gpc

record runner =
  r_gs :: "goroutine list"
  r_success :: int
  r_failed :: int
  r_currentOperation :: int
  r_wg :: int
  r_calls :: "int list"

definition runner_start :: "(int \<times> int) list \<Rightarrow> runner" where
  "runner_start cs = \<lparr>r_gs = map (\<lambda>(offset, cnt).
       \<lparr>g_offset = offset, g_cnt = cnt, g_i = 0, g_pc = AtLoop\<rparr>) cs,
     r_success = 0, r_failed = 0, r_currentOperation = 0, r_wg = int (length cs), r_calls = []\<rparr>"

inductive runner_step :: "(int \<Rightarrow> error option) \<Rightarrow> runner \<Rightarrow> runner \<Rightarrow> bool" for fn where
  call: "j < length (r_gs s) \<Longrightarrow> g = r_gs s ! j \<Longrightarrow> g_pc g = AtLoop \<Longrightarrow> g_i g < g_cnt g \<Longrightarrow>
    runner_step fn s (s\<lparr>r_gs := (r_gs s)[j := g\<lparr>g_pc := Returned (fn (g_offset g + g_i g))\<rparr>],
                        r_calls := r_calls s @ [g_offset g + g_i g]\<rparr>)"
| count_failed: "j < length (r_gs s) \<Longrightarrow> g = r_gs s ! j \<Longrightarrow> g_pc g = Returned (Some e) \<Longrightarrow>
    runner_step fn s (s\<lparr>r_gs := (r_gs s)[j := g\<lparr>g_pc := Counted\<rparr>],
                        r_failed := wrap32 (r_failed s + 1)\<rparr>)"
| count_success: "j < length (r_gs s) \<Longrightarrow> g = r_gs s ! j \<Longrightarrow> g_pc g = Returned None \<Longrightarrow>
    runner_step fn s (s\<lparr>r_gs := (r_gs s)[j := g\<lparr>g_pc := Counted\<rparr>],
                        r_success := wrap32 (r_success s + 1)\<rparr>)"
| progress: "j < length (r_gs s) \<Longrightarrow> g = r_gs s ! j \<Longrightarrow> g_pc g = Counted \<Longrightarrow>
    runner_step fn s (s\<lparr>r_gs := (r_gs s)[j := g\<lparr>g_i := g_i g + 1, g_pc := AtLoop\<rparr>],
                        r_currentOperation := wrap32 (r_currentOperation s + 1)\<rparr>)"
| finish: "j < length (r_gs s) \<Longrightarrow> g = r_gs s ! j \<Longrightarrow> g_pc g = AtLoop \<Longrightarrow> \<not> g_i g < g_cnt g \<Longrightarrow>
    runner_step fn s (s\<lparr>r_gs := (r_gs s)[j := g\<lparr>g_pc := Finished\<rparr>], r_wg := r_wg s - 1\<rparr>)"

inductive runner_reach :: "(int \<Rightarrow> error option) \<Rightarrow> (int \<times> int) list \<Rightarrow> runner \<Rightarrow> bool" for fn cs where
  init: "runner_reach fn cs (runner_start cs)"
| step: "runner_reach fn cs s \<Longrightarrow> runner_step fn s t \<Longrightarrow> runner_reach fn cs t"

text \<open>
  What \<open>MultiRoutineRunner\<close> can return: the counters of a run that passed \<open>wg.Wait()\<close>. The last
  argument is the order in which \<open>fn\<close> was called.
\<close>

inductive MultiRoutineRunner ::
  "int \<Rightarrow> int \<Rightarrow> int \<Rightarrow> (int \<Rightarrow> error option) \<Rightarrow> (int \<times> int) go \<Rightarrow> int list \<Rightarrow> bool" where
  panics: "runner_plan n q m = Inl p \<Longrightarrow> MultiRoutineRunner n q m fn (Inl p) []"
| returns: "runner_plan n q m = Inr cs \<Longrightarrow> runner_reach fn cs s \<Longrightarrow> r_wg s = 0 \<Longrightarrow>
    MultiRoutineRunner n q m fn (Inr (r_success s, r_failed s)) (r_calls s)"

section \<open>What every run does\<close>

definition g_called :: "goroutine \<Rightarrow> int list" where
  "g_called g = [g_offset g..g_offset g + g_i g - (if g_pc g = AtLoop \<or> g_pc g = Finished then 1 else 0)]"

definition g_counted :: "goroutine \<Rightarrow> int list" where
  "g_counted g = [g_offset g..g_offset g + g_i g - (if g_pc g = Counted then 0 else 1)]"

definition g_ok :: "(int \<Rightarrow> error option) \<Rightarrow> goroutine \<Rightarrow> bool" where
  "g_ok fn g \<longleftrightarrow> 0 \<le> g_i g \<and> g_i g \<le> max 0 (g_cnt g) \<and>
     (case g_pc g of AtLoop \<Rightarrow> True | Finished \<Rightarrow> g_cnt g \<le> g_i g
      | Counted \<Rightarrow> g_i g < g_cnt g | Returned e \<Rightarrow> g_i g < g_cnt g \<and> e = fn (g_offset g + g_i g))"

definition counts :: "(int \<Rightarrow> error option) \<Rightarrow> bool \<Rightarrow> goroutine list \<Rightarrow> nat" where
  "counts fn ok gs = sum_list (map (\<lambda>g. length (filter (\<lambda>k. (fn k = None) = ok) (g_counted g))) gs)"

definition runner_inv :: "(int \<Rightarrow> error option) \<Rightarrow> (int \<times> int) list \<Rightarrow> runner \<Rightarrow> bool" where
  "runner_inv fn cs s \<longleftrightarrow>
     map (\<lambda>g. (g_offset g, g_cnt g)) (r_gs s) = cs \<and>
     (\<forall>g \<in> set (r_gs s). g_ok fn g) \<and>
     mset (r_calls s) = sum_list (map (\<lambda>g. mset (g_called g)) (r_gs s)) \<and>
     r_success s = wrap32 (int (counts fn True (r_gs s))) \<and>
     r_failed s = wrap32 (int (counts fn False (r_gs s))) \<and>
     r_wg s = int (sum_list (map (\<lambda>g. if g_pc g = Finished then 0 else 1) (r_gs s)))"

lemma upto_snoc: "a \<le> b + 1 \<Longrightarrow> [a..b + 1] = [a..b] @ [b + 1 :: int]"
  using upto_rec2 [of a "b + 1"] by simp

lemma map_const_update:
  "j < length xs \<Longrightarrow> f y = f (xs ! j) \<Longrightarrow> map f (xs[j := y]) = map f xs"
  by (metis list_update_id map_update)

text \<open>
  Replacing goroutine \<open>j\<close> by one that has made the calls \<open>dc\<close> and counted \<open>dn\<close> more.
\<close>

lemma runner_inv_update:
  assumes inv: "runner_inv fn cs s" and j: "j < length (r_gs s)"
    and g': "g_offset g' = g_offset (r_gs s ! j)" "g_cnt g' = g_cnt (r_gs s ! j)" "g_ok fn g'"
    and called: "g_called g' = g_called (r_gs s ! j) @ dc"
    and counted: "g_counted g' = g_counted (r_gs s ! j) @ dn"
    and t: "r_gs t = (r_gs s)[j := g']" "r_calls t = r_calls s @ dc"
      "r_success t = wrap32 (r_success s + int (length (filter (\<lambda>k. fn k = None) dn)))"
      "r_failed t = wrap32 (r_failed s + int (length (filter (\<lambda>k. fn k \<noteq> None) dn)))"
      "r_wg t = r_wg s - (if g_pc g' = Finished then 1 else 0)"
    and pc: "g_pc (r_gs s ! j) \<noteq> Finished"
  shows "runner_inv fn cs t"
proof -
  have "map (\<lambda>g. (g_offset g, g_cnt g)) (r_gs t) = cs"
    using inv t(1) map_const_update [OF j, of "\<lambda>g. (g_offset g, g_cnt g)" g'] g'
    by (simp add: runner_inv_def)
  moreover have "\<forall>g \<in> set (r_gs t). g_ok fn g"
    using inv t(1) g'(3) ball_update [of "r_gs s" "g_ok fn"] by (simp add: runner_inv_def)
  moreover have "sum_list (map (\<lambda>g. mset (g_called g)) (r_gs t)) =
      sum_list (map (\<lambda>g. mset (g_called g)) (r_gs s)) + mset dc"
    unfolding t(1) using called by (intro sum_list_map_grow j) simp
  moreover have cnt: "counts fn ok (r_gs t) = counts fn ok (r_gs s) + length (filter (\<lambda>k. (fn k = None) = ok) dn)" for ok
    unfolding t(1) counts_def using counted by (intro sum_list_map_grow j) simp
  moreover have "sum_list (map (\<lambda>g. if g_pc g = Finished then 0 else 1) (r_gs t)) +
      (if g_pc g' = Finished then 1 else 0) =
      sum_list (map (\<lambda>g. if g_pc g = Finished then 0 else (1::nat)) (r_gs s))"
    using sum_list_map_update [OF j, of "\<lambda>g. if g_pc g = Finished then 0 else (1::nat)" g'] pc t(1)
    by auto
  ultimately show ?thesis
    using inv t by (auto simp: runner_inv_def)
qed

lemma runner_inv_g_ok: "runner_inv fn cs s \<Longrightarrow> j < length (r_gs s) \<Longrightarrow> g_ok fn (r_gs s ! j)"
  by (simp add: runner_inv_def)

lemma runner_inv_success: "runner_inv fn cs s \<Longrightarrow> wrap32 (r_success s) = r_success s"
  and runner_inv_failed: "runner_inv fn cs s \<Longrightarrow> wrap32 (r_failed s) = r_failed s"
  using wrap32_wrap32_add [of _ 0] by (simp_all add: runner_inv_def)

lemma runner_step_inv:
  assumes "runner_step fn s t" "runner_inv fn cs s"
  shows "runner_inv fn cs t"
  using assms(1)
proof cases
  case (call j g)
  have "g_ok fn g"
    using runner_inv_g_ok [OF assms(2)] call by simp
  then show ?thesis
    using call upto_snoc [of "g_offset g" "g_offset g + g_i g - 1"]
      runner_inv_success [OF assms(2)] runner_inv_failed [OF assms(2)]
    by (intro runner_inv_update [OF assms(2), of j "g\<lparr>g_pc := Returned (fn (g_offset g + g_i g))\<rparr>"
          "[g_offset g + g_i g]" "[]"])
      (auto simp: g_ok_def g_called_def g_counted_def)
next
  case (count_failed j g e)
  have "g_ok fn g"
    using runner_inv_g_ok [OF assms(2)] count_failed by simp
  then show ?thesis
    using count_failed upto_snoc [of "g_offset g" "g_offset g + g_i g - 1"]
      runner_inv_success [OF assms(2)]
    by (intro runner_inv_update [OF assms(2), of j "g\<lparr>g_pc := Counted\<rparr>" "[]" "[g_offset g + g_i g]"])
      (auto simp: g_ok_def g_called_def g_counted_def)
next
  case (count_success j g)
  have "g_ok fn g"
    using runner_inv_g_ok [OF assms(2)] count_success by simp
  then show ?thesis
    using count_success upto_snoc [of "g_offset g" "g_offset g + g_i g - 1"]
      runner_inv_failed [OF assms(2)]
    by (intro runner_inv_update [OF assms(2), of j "g\<lparr>g_pc := Counted\<rparr>" "[]" "[g_offset g + g_i g]"])
      (auto simp: g_ok_def g_called_def g_counted_def)
next
  case (progress j g)
  have "g_ok fn g"
    using runner_inv_g_ok [OF assms(2)] progress by simp
  then show ?thesis
    using progress runner_inv_success [OF assms(2)] runner_inv_failed [OF assms(2)]
    by (intro runner_inv_update [OF assms(2), of j "g\<lparr>g_i := g_i g + 1, g_pc := AtLoop\<rparr>" "[]" "[]"])
      (auto simp: g_ok_def g_called_def g_counted_def)
next
  case (finish j g)
  have "g_ok fn g"
    using runner_inv_g_ok [OF assms(2)] finish by simp
  then show ?thesis
    using finish runner_inv_success [OF assms(2)] runner_inv_failed [OF assms(2)]
    by (intro runner_inv_update [OF assms(2), of j "g\<lparr>g_pc := Finished\<rparr>" "[]" "[]"])
      (auto simp: g_ok_def g_called_def g_counted_def)
qed

lemma runner_start_inv: "runner_inv fn cs (runner_start cs)"
  by (auto simp: runner_inv_def runner_start_def g_ok_def g_called_def g_counted_def counts_def
      comp_def case_prod_beta wrap32_def sum_list_triv)

lemma runner_reach_inv: "runner_reach fn cs s \<Longrightarrow> runner_inv fn cs s"
  by (induction rule: runner_reach.induct) (auto intro: runner_start_inv runner_step_inv)

lemma chunk_indices_max: "[a..a + max 0 c - 1] = chunk_indices (a, c)"
  by (cases "0 \<le> c") (simp_all add: chunk_indices_def)

lemma g_ok_finished:
  assumes "g_ok fn g" "g_pc g = Finished"
  shows "g_called g = chunk_indices (g_offset g, g_cnt g)"
    and "g_counted g = chunk_indices (g_offset g, g_cnt g)"
proof -
  have "g_i g = max 0 (g_cnt g)"
    using assms by (auto simp: g_ok_def)
  then show "g_called g = chunk_indices (g_offset g, g_cnt g)"
    and "g_counted g = chunk_indices (g_offset g, g_cnt g)"
    using assms(2) chunk_indices_max [of "g_offset g" "g_cnt g"]
    by (simp_all only: g_called_def g_counted_def gpc.simps if_True if_False simp_thms)
qed

text \<open>After \<open>wg.Wait()\<close> every goroutine has made and counted exactly the calls of its chunk.\<close>

lemma runner_inv_done:
  assumes inv: "runner_inv fn cs s" and wg: "r_wg s = 0"
  shows "mset (r_calls s) = mset (concat (map chunk_indices cs))"
    and "r_success s = wrap32 (int (length (filter (\<lambda>k. fn k = None) (concat (map chunk_indices cs)))))"
    and "r_failed s = wrap32 (int (length (filter (\<lambda>k. fn k \<noteq> None) (concat (map chunk_indices cs)))))"
proof -
  have fin: "g_pc g = Finished" if "g \<in> set (r_gs s)" for g
    using inv wg that by (auto simp: runner_inv_def sum_list_eq_0_iff split: if_splits)
  have all: "g_called g = chunk_indices (g_offset g, g_cnt g)"
    "g_counted g = chunk_indices (g_offset g, g_cnt g)" if "g \<in> set (r_gs s)" for g
    using inv g_ok_finished fin [OF that] that by (auto simp: runner_inv_def)
  have cs: "cs = map (\<lambda>g. (g_offset g, g_cnt g)) (r_gs s)"
    using inv by (simp add: runner_inv_def)
  show "mset (r_calls s) = mset (concat (map chunk_indices cs))"
    using inv all by (simp add: runner_inv_def cs mset_concat_map comp_def cong: map_cong)
  have "counts fn ok (r_gs s) = length (filter (\<lambda>k. (fn k = None) = ok) (concat (map chunk_indices cs)))" for ok
    using all by (simp add: counts_def cs length_filter_concat_map comp_def cong: map_cong)
  then show "r_success s = wrap32 (int (length (filter (\<lambda>k. fn k = None) (concat (map chunk_indices cs)))))"
    and "r_failed s = wrap32 (int (length (filter (\<lambda>k. fn k \<noteq> None) (concat (map chunk_indices cs)))))"
    using inv by (simp_all add: runner_inv_def)
qed

section \<open>Progress\<close>

text \<open>
  No goroutine can get stuck and every step brings the run closer to its end, so under any
  scheduling the runner passes \<open>wg.Wait()\<close> after finitely many steps.
\<close>

definition g_rank :: "goroutine \<Rightarrow> nat" where
  "g_rank g = 3 * nat (g_cnt g - g_i g) +
     (case g_pc g of AtLoop \<Rightarrow> 2 | Returned e \<Rightarrow> 1 | Counted \<Rightarrow> 0 | Finished \<Rightarrow> 1)"

definition runner_rank :: "runner \<Rightarrow> nat" where
  "runner_rank s = sum_list (map g_rank (r_gs s))"

lemma runner_rank_update:
  assumes "j < length (r_gs s)" "r_gs t = (r_gs s)[j := g']" "g_rank g' < g_rank (r_gs s ! j)"
  shows "runner_rank t < runner_rank s"
  using sum_list_map_update [OF assms(1), of g_rank g'] assms(2,3) by (simp add: runner_rank_def)

lemma runner_step_rank:
  assumes "runner_step fn s t" "runner_inv fn cs s"
  shows "runner_rank t < runner_rank s"
  using assms(1)
proof cases
  case (progress j g)
  then have "g_i g < g_cnt g"
    using runner_inv_g_ok [OF assms(2), of j] by (simp add: g_ok_def)
  with progress show ?thesis
    by (intro runner_rank_update [of j s t "g\<lparr>g_i := g_i g + 1, g_pc := AtLoop\<rparr>"])
      (auto simp: g_rank_def)
qed (auto intro!: runner_rank_update simp: g_rank_def)

lemma runner_step_exists:
  assumes "g_pc (r_gs s ! j) \<noteq> Finished" "j < length (r_gs s)"
  shows "\<exists>t. runner_step fn s t"
proof (cases "g_pc (r_gs s ! j)")
  case AtLoop
  then show ?thesis
    using runner_step.call [OF assms(2) refl] runner_step.finish [OF assms(2) refl] by blast
next
  case (Returned e)
  then show ?thesis
    using runner_step.count_failed [OF assms(2) refl] runner_step.count_success [OF assms(2) refl]
    by (cases e) blast+
next
  case Counted
  then show ?thesis
    using runner_step.progress [OF assms(2) refl] by blast
next
  case Finished
  then show ?thesis
    using assms by simp
qed

lemma runner_not_stuck:
  assumes "runner_inv fn cs s" "r_wg s \<noteq> 0"
  shows "\<exists>t. runner_step fn s t"
proof -
  have "\<exists>g \<in> set (r_gs s). g_pc g \<noteq> Finished"
    using assms by (auto simp: runner_inv_def sum_list_eq_0_iff split: if_splits)
  then obtain j where "j < length (r_gs s)" "g_pc (r_gs s ! j) \<noteq> Finished"
    by (auto simp: in_set_conv_nth)
  then show ?thesis
    using runner_step_exists by blast
qed

lemma runner_completes:
  "runner_reach fn cs s \<Longrightarrow> \<exists>t. runner_reach fn cs t \<and> r_wg t = 0"
proof (induction "runner_rank s" arbitrary: s rule: less_induct)
  case less
  have inv: "runner_inv fn cs s"
    using less.prems by (rule runner_reach_inv)
  show ?case
  proof (cases "r_wg s = 0")
    case False
    then obtain t where "runner_step fn s t"
      using runner_not_stuck [OF inv] by blast
    then show ?thesis
      using less runner_step_rank [OF _ inv] runner_reach.step by blast
  qed (use less.prems in blast)
qed

section \<open>The contract of the runner\<close>

lemma each_once:
  assumes "mset calls = mset [0..n - 1 :: int]"
  shows "distinct calls \<and> set calls = {0..<n}"
proof -
  have "set [0..n - 1] = {0..<n}"
    by auto
  then show ?thesis
    using mset_eq_imp_distinct_iff [OF assms] mset_eq_setD [OF assms] by simp
qed

lemma g_called_prefix:
  assumes "g_ok fn g"
  shows "mset (g_called g) \<subseteq># mset (chunk_indices (g_offset g, g_cnt g))"
proof (cases "g_cnt g \<le> 0")
  case True
  then have "g_called g = []"
    using assms by (cases "g_pc g") (auto simp: g_ok_def g_called_def)
  then show ?thesis
    by simp
next
  case False
  then have "g_offset g + g_i g - (if g_pc g = AtLoop \<or> g_pc g = Finished then 1 else 0) \<le> g_offset g + g_cnt g - 1"
    using assms by (cases "g_pc g") (auto simp: g_ok_def)
  then show ?thesis
    unfolding g_called_def chunk_indices_def by (simp only: prod.case upto_prefix_mset)
qed

text \<open>A run in progress has called no index twice and none out of range.\<close>

lemma runner_calls_so_far:
  assumes "small_args n q m" "runner_plan n q m = Inr cs" "runner_reach fn cs s"
  shows "distinct (r_calls s) \<and> set (r_calls s) \<subseteq> {0..<n}"
proof -
  have inv: "runner_inv fn cs s"
    using runner_reach_inv [OF assms(3)] .
  have "mset (g_called g) \<subseteq># mset (chunk_indices (g_offset g, g_cnt g))" if "g \<in> set (r_gs s)" for g
    using inv that by (intro g_called_prefix [of fn]) (simp add: runner_inv_def)
  then have "(\<Sum>g\<leftarrow>r_gs s. mset (g_called g)) \<subseteq># (\<Sum>g\<leftarrow>r_gs s. mset (chunk_indices (g_offset g, g_cnt g)))"
    by (rule sum_list_mset_mono)
  also have "\<dots> = mset (concat (map chunk_indices (map (\<lambda>g. (g_offset g, g_cnt g)) (r_gs s))))"
    by (simp add: mset_concat_map comp_def)
  also have "\<dots> = mset [0..n - 1]"
    using inv runner_plan_partition [OF assms(1)] assms(2) by (simp add: runner_inv_def)
  finally have "mset (r_calls s) \<subseteq># mset [0..n - 1]"
    using inv by (simp add: runner_inv_def)
  then show ?thesis
    using distinct_subset_mset [of "r_calls s" "[0..n - 1]"] by auto
qed

locale task_pool =
  fixes pool :: "int \<Rightarrow> (int \<Rightarrow> error option) \<Rightarrow> (int \<times> int) go \<Rightarrow> int list \<Rightarrow> bool"
  assumes pool_returns: "0 < n \<Longrightarrow> n < 2 ^ 31 \<Longrightarrow> \<exists>r calls. pool n fn r calls"
    and pool_result: "0 < n \<Longrightarrow> n < 2 ^ 31 \<Longrightarrow> pool n fn r calls \<Longrightarrow>
      mset calls = mset [0..n - 1] \<and>
      r = Inr (int (length (filter (\<lambda>k. fn k = None) [0..n - 1])),
               int (length (filter (\<lambda>k. fn k \<noteq> None) [0..n - 1])))"
begin

lemma pool_counts:
  assumes "0 < n" "n < 2 ^ 31" "pool n fn r calls"
  shows "\<exists>success failed. r = Inr (success, failed) \<and> success + failed = n \<and>
    (failed = 0 \<longleftrightarrow> (\<forall>k. 0 \<le> k \<and> k < n \<longrightarrow> fn k = None))"
proof -
  have "length (filter (\<lambda>k. fn k = None) [0..n - 1]) + length (filter (\<lambda>k. fn k \<noteq> None) [0..n - 1]) = nat n"
    using sum_length_filter_compl [of "\<lambda>k. fn k = None" "[0..n - 1]"] by simp
  then show ?thesis
    using pool_result [OF assms] assms(1) by (auto simp: filter_empty_conv)
qed

lemma pool_each_once:
  assumes "0 < n" "n < 2 ^ 31" "pool n fn r calls"
  shows "distinct calls \<and> set calls = {0..<n}"
  using pool_result [OF assms] each_once by blast

end

lemma length_filter_upto: "length (filter P [0..n - 1]) \<le> nat n"
  using length_filter_le [of P "[0..n - 1]"] by simp

lemma MultiRoutineRunner_pool:
  assumes "small_args n q m" "MultiRoutineRunner n q m fn r calls"
  shows "mset calls = mset [0..n - 1] \<and>
      r = Inr (int (length (filter (\<lambda>k. fn k = None) [0..n - 1])),
               int (length (filter (\<lambda>k. fn k \<noteq> None) [0..n - 1])))"
proof -
  obtain cs where cs: "runner_plan n q m = Inr cs" "concat (map chunk_indices cs) = [0..n - 1]"
    using runner_plan_partition [OF assms(1)] by blast
  then obtain s where s: "runner_reach fn cs s" "r_wg s = 0" "r = Inr (r_success s, r_failed s)"
    "calls = r_calls s"
    using assms(2) by (auto elim: MultiRoutineRunner.cases)
  have "wrap32 (int (length (filter P [0..n - 1]))) = int (length (filter P [0..n - 1]))" for P
    using length_filter_upto [of P n] assms(1) by (intro wrap32_id) (auto simp: small_args_def)
  then show ?thesis
    using runner_inv_done [OF runner_reach_inv [OF s(1)] s(2)] s cs by simp
qed

lemma MultiRoutineRunner_returns:
  assumes "small_args n q m"
  shows "\<exists>r calls. MultiRoutineRunner n q m fn r calls"
  using runner_plan_partition [OF assms] runner_completes [OF runner_reach.init]
    MultiRoutineRunner.returns by meson

lemma runner_plan_zero:
  assumes "0 < q" "q < 2 ^ 31" "0 < m"
  shows "runner_plan 0 q m = Inl IntegerDivideByZero"
proof -
  have "wrap64 (wrap64 (0 + q) - 1) = q - 1"
    using assms by (simp add: wrap64_id)
  then have "routinesCount 0 q m = Inr 0"
    using assms go_div_nonneg [of "q - 1" q] by (simp add: routinesCount_def div_pos_pos_trivial)
  then show ?thesis
    by (simp add: runner_plan_def)
qed

text \<open>The runner as \<open>cluster.StartAgents\<close> and \<open>connectionsList.ConnectAll\<close> call it.\<close>

interpretation start_pool: task_pool "\<lambda>n. MultiRoutineRunner n 1 1000"
  by unfold_locales
    (rule MultiRoutineRunner_returns MultiRoutineRunner_pool [where q = 1 and m = 1000],
      simp add: small_args_def, assumption?)+

interpretation connect_pool: task_pool "\<lambda>n. MultiRoutineRunner n 5 50"
  by unfold_locales
    (rule MultiRoutineRunner_returns MultiRoutineRunner_pool [where q = 5 and m = 50],
      simp add: small_args_def, assumption?)+

section \<open>Properties\<close>

text \<open>
  C5. The runner executes \<open>fn\<close> exactly \<open>itemsCount\<close> times: under every interleaving of its
  goroutines each index \<open>0..itemsCount-1\<close> is passed to \<open>fn\<close> exactly once, the returned counters
  are the numbers of calls that succeeded and that failed, and they add up to \<open>itemsCount\<close>.
\<close>

theorem runner_calls_each_index_once:
  assumes "small_args n q m" "MultiRoutineRunner n q m fn r calls"
  shows "distinct calls \<and> set calls = {0..<n} \<and>
    (\<exists>success failed. r = Inr (success, failed) \<and> success + failed = n \<and>
      success = int (length (filter (\<lambda>k. fn k = None) [0..n - 1])))"
proof -
  have "mset calls = mset [0..n - 1]"
    and r: "r = Inr (int (length (filter (\<lambda>k. fn k = None) [0..n - 1])),
               int (length (filter (\<lambda>k. fn k \<noteq> None) [0..n - 1])))"
    using MultiRoutineRunner_pool [OF assms] by simp_all
  then have "distinct calls" "set calls = {0..<n}"
    using each_once by blast+
  moreover have "length (filter (\<lambda>k. fn k = None) [0..n - 1]) +
      length (filter (\<lambda>k. fn k \<noteq> None) [0..n - 1]) = nat n"
    using sum_length_filter_compl [of "\<lambda>k. fn k = None" "[0..n - 1]"] by simp
  ultimately show ?thesis
    using r assms(1) by (auto simp: small_args_def)
qed

theorem runner_calls_each_index_once_witness:
  "\<exists>calls failed. MultiRoutineRunner 7 2 3 (\<lambda>k. if k = 4 then Some ''refused'' else None)
     (Inr (6, failed)) calls \<and> distinct calls \<and> set calls = {0..<7} \<and> failed = 1"
proof -
  let ?fn = "\<lambda>k::int. if k = 4 then Some ''refused'' else None"
  have small: "small_args 7 2 3"
    by (simp add: small_args_def)
  obtain r calls where run: "MultiRoutineRunner 7 2 3 ?fn r calls"
    using MultiRoutineRunner_returns [OF small] by blast
  have "length (filter (\<lambda>k. ?fn k = None) [0..7 - 1]) = 6"
    by code_simp
  then show ?thesis
    using runner_calls_each_index_once [OF small run] run by auto
qed

text \<open>
  C32. The runner returns: from the start of its goroutines every reachable state that has not yet
  passed \<open>wg.Wait()\<close> has a next step and every step decreases a rank, so no schedule runs forever
  and none gets stuck; a plan with at most \<open>maxRoutines\<close> goroutines exists.
\<close>

theorem runner_terminates:
  assumes "small_args n q m"
  shows "\<exists>cs. runner_plan n q m = Inr cs \<and> int (length cs) \<le> m \<and>
    (\<forall>s. runner_reach fn cs s \<longrightarrow>
       (r_wg s \<noteq> 0 \<longrightarrow> (\<exists>t. runner_step fn s t)) \<and>
       (\<forall>t. runner_step fn s t \<longrightarrow> runner_rank t < runner_rank s) \<and>
       (\<exists>t. runner_reach fn cs t \<and> r_wg t = 0))"
proof -
  obtain cs where "runner_plan n q m = Inr cs" "int (length cs) \<le> m"
    using runner_plan_partition [OF assms] by blast
  then show ?thesis
    using runner_not_stuck runner_step_rank runner_completes runner_reach_inv by blast
qed

theorem runner_terminates_witness:
  "\<exists>cs. runner_plan 7 2 3 = Inr cs \<and> int (length cs) \<le> 3 \<and>
    (\<exists>t. runner_reach (\<lambda>_. None) cs t \<and> r_wg t = 0)"
proof -
  have "small_args 7 2 3"
    by (simp add: small_args_def)
  then show ?thesis
    using runner_terminates [of 7 2 3 "\<lambda>_. None"] runner_reach.init by blast
qed

text \<open>
  With no items the runner does not return: \<open>routinesCount\<close> is 0 and the division that computes
  \<open>cntPerRoutine\<close> panics, whatever the other (positive) arguments are.
\<close>

theorem runner_zero_items_panics:
  assumes "0 < q" "q < 2 ^ 31" "0 < m" "MultiRoutineRunner 0 q m fn r calls"
  shows "r = Inl IntegerDivideByZero \<and> calls = []"
  using assms(4) runner_plan_zero [OF assms(1-3)] by (auto elim: MultiRoutineRunner.cases)

theorem runner_zero_items_panics_witness:
  "\<exists>r calls. MultiRoutineRunner 0 5 50 (\<lambda>_. None) r calls \<and> r = Inl IntegerDivideByZero \<and> calls = []"
proof -
  have "runner_plan 0 5 50 = Inl IntegerDivideByZero"
    by code_simp
  then obtain r calls where run: "MultiRoutineRunner 0 5 50 (\<lambda>_. None) r calls"
    using MultiRoutineRunner.panics by blast
  then have "r = Inl IntegerDivideByZero \<and> calls = []"
    by (intro runner_zero_items_panics [of 5 50]) simp_all
  with run show ?thesis
    by blast
qed

end
