(* ===== verification/Binary.thy ===== *)
theory Binary
  imports Prelude
begin

text \<open>
  What the program uses of Go's \<open>encoding/binary\<close> and \<open>io\<close> packages: big-endian integers, fixed-size
  structs, and \<open>binary.Read\<close>, which reads exactly the size of its target with \<open>io.ReadFull\<close>.

  A byte source is the list of the bytes it still holds, after which it is at its end. The locale
  \<open>fixed_codec\<close> is the contract of an encoding of constant width; the theories that define such
  structs interpret it (\<open>packet\<close>, \<open>header\<close>, \<open>syncMsg\<close>).
\<close>

type_synonym byte = "8 word"

datatype io_error = EOF | ErrUnexpectedEOF | ErrClosed | ErrOther string

section \<open>Big-endian integers\<close>

definition be_bytes :: "nat \<Rightarrow> nat \<Rightarrow> byte list" where
  "be_bytes n x = map (\<lambda>i. word_of_nat (x div 256 ^ i)) (rev [0..<n])"

definition be_nat :: "byte list \<Rightarrow> nat" where
  "be_nat bs = foldl (\<lambda>a b. a * 256 + unat b) 0 bs"

lemma length_be_bytes [simp]: "length (be_bytes n x) = n"
  by (simp add: be_bytes_def)

lemma be_bytes_Suc: "be_bytes (Suc n) x = word_of_nat (x div 256 ^ n) # be_bytes n x"
  by (simp add: be_bytes_def)

lemma foldl_be:
  "foldl (\<lambda>a b. a * 256 + unat (b :: byte)) a bs =
     a * 256 ^ length bs + foldl (\<lambda>a b. a * 256 + unat b) 0 bs"
proof (induction bs arbitrary: a)
  case Nil
  then show ?case by simp
next
  case (Cons b bs)
  show ?case
    using Cons.IH [of "a * 256 + unat b"] Cons.IH [of "unat b"] by (simp add: distrib_right)
qed

lemma be_nat_Cons: "be_nat (b # bs) = unat b * 256 ^ length bs + be_nat bs"
  using foldl_be [of "unat b" bs] by (simp add: be_nat_def)

lemma be_nat_be_bytes: "be_nat (be_bytes n x) = x mod 256 ^ n"
proof (induction n)
  case 0
  then show ?case by (simp add: be_bytes_def be_nat_def)
next
  case (Suc n)
  have "unat (word_of_nat (x div 256 ^ n) :: byte) = x div 256 ^ n mod 256"
    by (simp add: unsigned_of_nat take_bit_eq_mod)
  then show ?case
    using mod_mult2_eq [of x "256 ^ n" 256] by (simp add: be_bytes_Suc be_nat_Cons Suc mult.commute)
qed

definition put_uint64 :: "64 word \<Rightarrow> byte list" where
  "put_uint64 w = be_bytes 8 (unat w)"

definition get_uint64 :: "byte list \<Rightarrow> 64 word" where
  "get_uint64 bs = word_of_nat (be_nat bs)"

definition put_uint32 :: "32 word \<Rightarrow> byte list" where
  "put_uint32 w = be_bytes 4 (unat w)"

definition get_uint32 :: "byte list \<Rightarrow> 32 word" where
  "get_uint32 bs = word_of_nat (be_nat bs)"

lemma length_put [simp]: "length (put_uint64 w) = 8" "length (put_uint32 v) = 4"
  by (simp_all add: put_uint64_def put_uint32_def)

lemma get_put_uint64 [simp]: "get_uint64 (put_uint64 w) = w"
proof -
  have "unat w < 2 ^ 64"
    using unsigned_less [of w, where ?'a = nat] by simp
  then have "unat w mod 256 ^ 8 = unat w"
    by simp
  then show ?thesis
    by (simp add: get_uint64_def put_uint64_def be_nat_be_bytes)
qed

lemma get_put_uint32 [simp]: "get_uint32 (put_uint32 w) = w"
proof -
  have "unat w < 2 ^ 32"
    using unsigned_less [of w, where ?'a = nat] by simp
  then have "unat w mod 256 ^ 4 = unat w"
    by simp
  then show ?thesis
    by (simp add: get_uint32_def put_uint32_def be_nat_be_bytes)
qed

text \<open>\<open>PutUint64\<close> writes \<open>byte(v >> 56)\<close> first: the bytes are the shifted value, truncated.\<close>

lemma put_uint64_bytes:
  "i < 8 \<Longrightarrow> put_uint64 w ! i = ucast (drop_bit (8 * (7 - i)) w)"
proof -
  assume i: "i < 8"
  have "(256::nat) ^ (7 - i) = 2 ^ (8 * (7 - i))"
    by (simp add: power_mult)
  then have "unat w div 256 ^ (7 - i) = unat (drop_bit (8 * (7 - i)) w)"
    using unsigned_less [of w, where ?'a = nat]
    by (simp add: unsigned_drop_bit_eq take_bit_nat_eq_self) (simp add: drop_bit_eq_div)
  then show ?thesis
    using i by (simp add: put_uint64_def be_bytes_def rev_nth)
qed

section \<open>Reading structs\<close>

definition read_full :: "nat \<Rightarrow> byte list \<Rightarrow> (io_error + byte list) \<times> byte list" where
  "read_full n src =
     (if n = 0 then (Inr [], src)
      else if src = [] then (Inl EOF, [])
      else if length src < n then (Inl ErrUnexpectedEOF, [])
      else (Inr (take n src), drop n src))"

definition binary_read :: "nat \<Rightarrow> (byte list \<Rightarrow> 'a) \<Rightarrow> byte list \<Rightarrow> (io_error + 'a) \<times> byte list" where
  "binary_read n dec src =
     (case read_full n src of (Inl e, src') \<Rightarrow> (Inl e, src') | (Inr bs, src') \<Rightarrow> (Inr (dec bs), src'))"

locale fixed_codec =
  fixes width :: nat
    and enc :: "'a \<Rightarrow> byte list"
    and dec :: "byte list \<Rightarrow> 'a"
    and wf :: "'a \<Rightarrow> bool"
  assumes width_pos: "0 < width"
    and enc_width: "wf x \<Longrightarrow> length (enc x) = width"
    and dec_enc: "wf x \<Longrightarrow> dec (enc x) = x"
begin

lemma read_back:
  assumes "wf x"
  shows "binary_read width dec (enc x @ rest) = (Inr x, rest)"
proof -
  have "take width (enc x @ rest) = enc x" "drop width (enc x @ rest) = rest" "enc x \<noteq> []"
    using enc_width [OF assms] width_pos by auto
  then show ?thesis
    using enc_width [OF assms] width_pos dec_enc [OF assms]
    by (simp add: binary_read_def read_full_def)
qed

lemma read_short:
  "length src < width \<Longrightarrow>
     binary_read width dec src = (Inl (if src = [] then EOF else ErrUnexpectedEOF), [])"
  using width_pos by (auto simp: binary_read_def read_full_def)

lemma read_ok: "width \<le> length src \<Longrightarrow> binary_read width dec src = (Inr (dec (take width src)), drop width src)"
  using width_pos by (auto simp: binary_read_def read_full_def)

lemma enc_inj: "wf x \<Longrightarrow> wf y \<Longrightarrow> enc x @ r = enc y @ s \<Longrightarrow> x = y \<and> r = s"
  using read_back [of x r] read_back [of y s] by (metis Pair_inject sum.inject(2))

end

end
