(* ===== verification/Strconv.thy ===== *)
theory Strconv
  imports Prelude
begin

text \<open>
  What the program uses of \<open>strconv\<close> and \<open>fmt\<close> on integers: \<open>Atoi\<close> with its error dropped (as
  \<open>connection_helper.go\<close> and \<open>transport.go\<close> call it) and the verb \<open>%d\<close>. Reading back a printed
  integer gives the integer, which is why the port an agent listens on is the port its peers find
  in its address.
\<close>

text \<open>A byte, or a code point, in a range.\<close>

abbreviation between :: "nat \<Rightarrow> nat \<Rightarrow> nat \<Rightarrow> bool" where
  "between lo hi n \<equiv> lo \<le> n \<and> n \<le> hi"

section \<open>strconv.Atoi\<close>

definition is_digit :: "char \<Rightarrow> bool" where
  "is_digit c \<longleftrightarrow> of_char c \<ge> (48::nat) \<and> of_char c \<le> (57::nat)"

definition digits_value :: "string \<Rightarrow> int" where
  "digits_value s = foldl (\<lambda>a c. a * 10 + (of_char c - 48)) 0 s"

definition parse_unsigned :: "string \<Rightarrow> int option" where
  "parse_unsigned s = (if s \<noteq> [] \<and> list_all is_digit s then Some (digits_value s) else None)"

text \<open>A syntax error gives 0, a value out of range the nearest bound (the error is dropped).\<close>

definition Atoi :: "string \<Rightarrow> int" where
  "Atoi s =
     (let (neg, rest) = (case s of [] \<Rightarrow> (False, [])
        | c # cs \<Rightarrow> if c = CHR ''-'' then (True, cs) else if c = CHR ''+'' then (False, cs) else (False, s))
      in case parse_unsigned rest of None \<Rightarrow> 0
         | Some n \<Rightarrow> if neg then max (- (2 ^ 63)) (- n) else min (2 ^ 63 - 1) n)"

lemma Atoi_range: "int64_range (Atoi s)"
proof -
  have nonneg: "0 \<le> n" if "parse_unsigned r = Some n" for r n
  proof -
    have "0 \<le> foldl (\<lambda>a c. a * 10 + (of_char c - 48)) a xs" if "list_all is_digit xs" "0 \<le> a" for a :: int and xs
      using that
    proof (induction xs arbitrary: a)
      case (Cons c xs)
      have "(48::int) \<le> of_char c"
        using Cons.prems by (simp add: is_digit_def) (metis of_nat_le_iff of_nat_numeral of_nat_of_char)
      then show ?case
        using Cons by simp
    qed simp
    then show ?thesis
      using that by (auto simp: parse_unsigned_def digits_value_def split: if_splits)
  qed
  then show ?thesis
    by (auto simp: Atoi_def int64_range_def Let_def max_def min_def split: list.splits option.splits
        dest!: nonneg)
qed

section \<open>The verb %d\<close>

fun digits_of :: "nat \<Rightarrow> string" where
  "digits_of n = (if n < 10 then [char_of (48 + n)] else digits_of (n div 10) @ [char_of (48 + n mod 10)])"

declare digits_of.simps [simp del]

definition show_int :: "int \<Rightarrow> string" where
  "show_int i = (if i < 0 then CHR ''-'' # digits_of (nat (- i)) else digits_of (nat i))"

lemma of_char_digit:
  assumes "d < 10"
  shows "of_char (char_of (48 + d :: nat)) = (48 + int d :: int)"
proof -
  have "of_char (char_of (48 + d :: nat)) = (48 + d :: nat)"
    using assms by simp
  then have "int (of_char (char_of (48 + d :: nat))) = 48 + int d"
    by simp
  then show ?thesis
    by (simp only: of_nat_of_char)
qed

lemma digits_of_digits: "digits_of n \<noteq> [] \<and> list_all is_digit (digits_of n)"
proof (induction n rule: digits_of.induct)
  case (1 n)
  then show ?case
    by (subst (1 2) digits_of.simps) (auto simp: is_digit_def [of "char_of _"])
qed

lemma digits_value_of: "digits_value (digits_of n) = int n"
proof (induction n rule: digits_of.induct)
  case (1 n)
  show ?case
  proof (cases "n < 10")
    case True
    then show ?thesis
      by (subst digits_of.simps) (simp add: digits_value_def of_char_digit)
  next
    case False
    then have "digits_value (digits_of n) = digits_value (digits_of (n div 10)) * 10 + int (n mod 10)"
      by (subst digits_of.simps) (simp add: digits_value_def of_char_digit)
    then show ?thesis
      using 1 False by (simp add: zdiv_int zmod_int)
  qed
qed

lemma parse_digits_of: "parse_unsigned (digits_of n) = Some (int n)"
  using digits_of_digits [of n] digits_value_of [of n] by (simp add: parse_unsigned_def)

lemma is_digit_no_sign: "is_digit c \<Longrightarrow> c \<noteq> CHR ''-'' \<and> c \<noteq> CHR ''+''"
  by (auto simp: is_digit_def)

text \<open>The same digits computed on \<open>int\<close>, for evaluation.\<close>

function int_digits :: "int \<Rightarrow> string" where
  "int_digits i = (if i < 10 then [char_of (48 + i)] else int_digits (i div 10) @ [char_of (48 + i mod 10)])"
  by pat_completeness auto
termination
  by (relation "measure nat") auto

declare int_digits.simps [simp del]

lemma char_of_int: "0 \<le> i \<Longrightarrow> char_of (i :: int) = (char_of (nat i) :: char)"
  by (metis char_of_nat int_nat_eq)

lemma int_digits_of: "int_digits (int n) = digits_of n"
proof (induction n rule: digits_of.induct)
  case (1 n)
  have "int n div 10 = int (n div 10)" "int n mod 10 = int (n mod 10)"
    by (simp_all add: zdiv_int zmod_int)
  then show ?case
    using 1 by (simp add: digits_of.simps [of n] int_digits.simps [of "int n"] char_of_int nat_add_distrib)
qed

lemma show_int_code [code]: "show_int i = (if i < 0 then CHR ''-'' # int_digits (- i) else int_digits i)"
  using int_digits_of [of "nat (- i)"] int_digits_of [of "nat i"] by (auto simp: show_int_def)

text \<open>
  Printing an \<open>int\<close> with \<open>%d\<close> and parsing it with \<open>Atoi\<close> gives it back, for every value of
  Go's \<open>int\<close>.
\<close>

theorem Atoi_show_int:
  assumes "int64_range i"
  shows "Atoi (show_int i) = i"
proof (cases "i < 0")
  case True
  then show ?thesis
    using assms by (simp add: Atoi_def show_int_def parse_digits_of int64_range_def)
next
  case False
  obtain c cs where c: "digits_of (nat i) = c # cs" "is_digit c"
    using digits_of_digits [of "nat i"] by (cases "digits_of (nat i)") auto
  then show ?thesis
    using False assms is_digit_no_sign [OF c(2)] parse_digits_of [of "nat i"]
    by (simp add: Atoi_def show_int_def int64_range_def)
qed

theorem Atoi_show_int_witness: "int64_range (- 10000) \<and> Atoi (show_int (- 10000)) = - 10000"
proof -
  have "int64_range (- 10000)"
    by (simp add: int64_range_def)
  then show ?thesis
    using Atoi_show_int by blast
qed

end
