(* ===== verification/ConnectionHelper.thy ===== *)
theory ConnectionHelper
  imports Strconv
begin

text \<open>
  \<open>agent/connection_helper.go\<close>: the table of wait groups that makes \<open>GossipAgent.Connect\<close> wait
  until both ends of a connection have been notified.

  A \<open>*sync.WaitGroup\<close> is an address into the list of counters \<open>wg_heap\<close>, so that a waiter keeps
  its pointer when the table entry is deleted or replaced. The multiaddress type belongs to a
  library: its \<open>ValueForProtocol(P_TCP)\<close> is the parameter \<open>tcp\<close> (\<open>None\<close> is the error, which the
  code drops and which comes with the empty string).
\<close>

section \<open>Keys\<close>

definition tcp_port :: "('a \<Rightarrow> string option) \<Rightarrow> 'a \<Rightarrow> int" where
  "tcp_port tcp addr = Atoi (case tcp addr of None \<Rightarrow> '''' | Some v \<Rightarrow> v)"

definition getKey :: "('a \<Rightarrow> string option) \<Rightarrow> 'a \<Rightarrow> 'a \<Rightarrow> int" where
  "getKey tcp laddr raddr =
     (let lport = tcp_port tcp laddr; rport = tcp_port tcp raddr
      in if lport < rport then wrap64 (lport + wrap64 (rport * 2 ^ 32))
         else wrap64 (rport + wrap64 (lport * 2 ^ 32)))"

lemma getKey_sym: "getKey tcp laddr raddr = getKey tcp raddr laddr"
  by (cases "tcp_port tcp laddr" "tcp_port tcp raddr" rule: linorder_cases)
    (simp_all add: getKey_def Let_def)

definition port_range :: "int \<Rightarrow> bool" where
  "port_range p \<longleftrightarrow> 0 \<le> p \<and> p < 2 ^ 16"

lemma getKey_ports:
  assumes "port_range (tcp_port tcp l)" "port_range (tcp_port tcp r)"
  shows "getKey tcp l r =
    min (tcp_port tcp l) (tcp_port tcp r) + max (tcp_port tcp l) (tcp_port tcp r) * 2 ^ 32"
proof -
  have "wrap64 (p * 2 ^ 32) = p * 2 ^ 32" "wrap64 (q + p * 2 ^ 32) = q + p * 2 ^ 32"
    if "port_range p" "port_range q" for p q
    using that by (simp_all add: port_range_def wrap64_id)
  then show ?thesis
    using assms by (auto simp: getKey_def Let_def)
qed

lemma getKey_inj:
  assumes "port_range (tcp_port tcp l)" "port_range (tcp_port tcp r)"
    and "port_range (tcp_port tcp l')" "port_range (tcp_port tcp r')"
    and "getKey tcp l r = getKey tcp l' r'"
  shows "{tcp_port tcp l, tcp_port tcp r} = {tcp_port tcp l', tcp_port tcp r'}"
proof -
  have split: "a = c \<and> b = d"
    if "a + b * 2 ^ 32 = c + d * 2 ^ 32" "0 \<le> a" "a < 2 ^ 16" "0 \<le> c" "c < 2 ^ 16" for a b c d :: int
  proof -
    have "a = (a + b * 2 ^ 32) mod 2 ^ 32"
      using that(2,3) by simp
    moreover have "c = (c + d * 2 ^ 32) mod 2 ^ 32"
      using that(4,5) by simp
    ultimately have "a = c"
      using that(1) by metis
    then show ?thesis
      using that(1) by simp
  qed
  have "min (tcp_port tcp l) (tcp_port tcp r) = min (tcp_port tcp l') (tcp_port tcp r') \<and>
    max (tcp_port tcp l) (tcp_port tcp r) = max (tcp_port tcp l') (tcp_port tcp r')"
    using assms getKey_ports [OF assms(1,2)] getKey_ports [OF assms(3,4)]
    by (intro split) (auto simp: port_range_def)
  then show ?thesis
    by (auto simp: min_def max_def split: if_splits)
qed

section \<open>The table\<close>

datatype conn_error = AlreadyExists | DoesNotExist

record connection_helper =
  wgs :: "int \<rightharpoonup> nat"
  wg_heap :: "int list"

definition newAgentConnectionHelper :: connection_helper where
  "newAgentConnectionHelper = \<lparr>wgs = Map.empty, wg_heap = []\<rparr>"

text \<open>
  \<open>Add\<close> looks the key up under the read lock and inserts under the write lock; the lock is free in
  between. The two critical sections are two definitions.
\<close>

definition Add_check :: "int \<Rightarrow> connection_helper \<Rightarrow> conn_error option" where
  "Add_check key s = (if wgs s key \<noteq> None then Some AlreadyExists else None)"

definition Add_insert :: "int \<Rightarrow> connection_helper \<Rightarrow> connection_helper" where
  "Add_insert key s =
     s\<lparr>wg_heap := wg_heap s @ [2], wgs := (wgs s)(key \<mapsto> length (wg_heap s))\<rparr>"

definition Add :: "('a \<Rightarrow> string option) \<Rightarrow> 'a \<Rightarrow> 'a \<Rightarrow> connection_helper \<Rightarrow>
    conn_error option \<times> connection_helper" where
  "Add tcp laddr raddr s =
     (let key = getKey tcp laddr raddr
      in case Add_check key s of Some e \<Rightarrow> (Some e, s) | None \<Rightarrow> (None, Add_insert key s))"

definition getWaitGroup :: "('a \<Rightarrow> string option) \<Rightarrow> 'a \<Rightarrow> 'a \<Rightarrow> connection_helper \<Rightarrow> conn_error + nat" where
  "getWaitGroup tcp laddr raddr s =
     (case wgs s (getKey tcp laddr raddr) of None \<Rightarrow> Inl DoesNotExist | Some wg \<Rightarrow> Inr wg)"

text \<open>\<open>wg.Wait()\<close> blocks while the counter is positive.\<close>

datatype wait_result = WaitError conn_error | Blocked | Released

definition Wait :: "('a \<Rightarrow> string option) \<Rightarrow> 'a \<Rightarrow> 'a \<Rightarrow> connection_helper \<Rightarrow> wait_result" where
  "Wait tcp laddr raddr s =
     (case getWaitGroup tcp laddr raddr s of Inl e \<Rightarrow> WaitError e
      | Inr wg \<Rightarrow> if wg_heap s ! wg > 0 then Blocked else Released)"

text \<open>\<open>WaitWithTimeout\<close> also leaves its \<open>select\<close> when the timer has fired.\<close>

definition WaitWithTimeout ::
  "('a \<Rightarrow> string option) \<Rightarrow> 'a \<Rightarrow> 'a \<Rightarrow> bool \<Rightarrow> connection_helper \<Rightarrow> wait_result" where
  "WaitWithTimeout tcp laddr raddr fired s =
     (case getWaitGroup tcp laddr raddr s of Inl e \<Rightarrow> WaitError e
      | Inr wg \<Rightarrow> if wg_heap s ! wg > 0 \<and> \<not> fired then Blocked else Released)"

definition Delete :: "('a \<Rightarrow> string option) \<Rightarrow> 'a \<Rightarrow> 'a \<Rightarrow> connection_helper \<Rightarrow> connection_helper" where
  "Delete tcp laddr raddr s = s\<lparr>wgs := (wgs s)(getKey tcp laddr raddr := None)\<rparr>"

text \<open>\<open>wg.Done()\<close> is \<open>wg.Add(-1)\<close>, which panics when the counter becomes negative.\<close>

definition wg_Done :: "nat \<Rightarrow> int list \<Rightarrow> int list go" where
  "wg_Done wg h = (if h ! wg - 1 < 0 then Inl NegativeWaitGroup else Inr (h[wg := h ! wg - 1]))"

definition Connected :: "('a \<Rightarrow> string option) \<Rightarrow> 'a \<Rightarrow> 'a \<Rightarrow> connection_helper \<Rightarrow>
    (conn_error option \<times> connection_helper) go" where
  "Connected tcp laddr raddr s =
     (case getWaitGroup tcp laddr raddr s of Inl e \<Rightarrow> Inr (Some e, s)
      | Inr wg \<Rightarrow> go_bind (wg_Done wg (wg_heap s)) (\<lambda>h. Inr (None, s\<lparr>wg_heap := h\<rparr>)))"


section \<open>Connect calls and notifications\<close>

text \<open>
  Any number of \<open>GossipAgent.Connect\<close> calls (numbered by \<open>t\<close>, call \<open>t\<close> between the addresses
  \<open>addr ! t\<close>) and the notifications \<open>ConnectedF\<close> that the library delivers
  while a connection is being established. A call runs lines 186 to 204 of \<open>agent.go\<close>: the
  split of the remote address (which may fail), the two halves of \<open>Add\<close>, \<open>Host.Connect\<close> (which may fail), the lookup of \<open>Wait\<close>, the wait itself, and
  the deferred \<open>Delete\<close>. \<open>Connect\<close> drops the error of \<open>Wait\<close>, so it also returns success when the lookup finds no
  wait group (\<open>wait_missing\<close>); \<open>ConnectedF\<close> drops the error of \<open>Connected\<close> (\<open>notify_unknown\<close>).

  A notification comes from one end of the connection that \<open>Host.Connect\<close> of call \<open>t\<close> establishes, so
  not before that call was made (lines 198 to 199); the end that dialled sees the addresses of the call in
  their order, the listening end sees them exchanged. \<open>reported t\<close> is the set of the ends that have
  called \<open>ConnectedF\<close>; it is not program state. The library notifies each end of a connection
  once, so an end reports only while it is not in that set.
\<close>

datatype conn_end = DialerEnd | ListenerEnd

fun end_addrs :: "conn_end \<Rightarrow> 'a \<times> 'a \<Rightarrow> 'a \<times> 'a" where
  "end_addrs DialerEnd (laddr, raddr) = (laddr, raddr)"
| "end_addrs ListenerEnd (laddr, raddr) = (raddr, laddr)"

datatype connect_pc = Ready | Checked | Added | HostConnected | Waiting nat | Failed | Succeeded

record connect_sys =
  helper :: connection_helper
  c_pc :: "nat \<Rightarrow> connect_pc"
  reported :: "nat \<Rightarrow> conn_end set"

text \<open>The connection of the call may exist: its \<open>Host.Connect\<close> has been reached.\<close>

definition host_called :: "connect_pc \<Rightarrow> bool" where
  "host_called pc \<longleftrightarrow> pc \<noteq> Ready \<and> pc \<noteq> Checked"

definition connect_init :: connect_sys where
  "connect_init = \<lparr>helper = newAgentConnectionHelper, c_pc = (\<lambda>_. Ready), reported = (\<lambda>_. {})\<rparr>"

definition call_key :: "('a \<Rightarrow> string option) \<Rightarrow> ('a \<times> 'a) list \<Rightarrow> nat \<Rightarrow> int" where
  "call_key tcp addr t = getKey tcp (fst (addr ! t)) (snd (addr ! t))"

definition keys_distinct :: "('a \<Rightarrow> string option) \<Rightarrow> ('a \<times> 'a) list \<Rightarrow> bool" where
  "keys_distinct tcp addr \<longleftrightarrow> inj_on (call_key tcp addr) {..<length addr}"

inductive connect_step :: "('a \<Rightarrow> string option) \<Rightarrow> ('a \<times> 'a) list \<Rightarrow> connect_sys \<Rightarrow> connect_sys \<Rightarrow> bool"
  for tcp addr where
  check: "t < length addr \<Longrightarrow> c_pc s t = Ready \<Longrightarrow> Add_check (call_key tcp addr t) (helper s) = None \<Longrightarrow>
    connect_step tcp addr s (s\<lparr>c_pc := (c_pc s)(t := Checked)\<rparr>)"
| check_fails: "t < length addr \<Longrightarrow> c_pc s t = Ready \<Longrightarrow> Add_check (call_key tcp addr t) (helper s) = Some e \<Longrightarrow>
    connect_step tcp addr s (s\<lparr>c_pc := (c_pc s)(t := Failed)\<rparr>)"
| addr_fails: "t < length addr \<Longrightarrow> c_pc s t = Ready \<Longrightarrow>
    connect_step tcp addr s (s\<lparr>c_pc := (c_pc s)(t := Failed)\<rparr>)"
| insert: "t < length addr \<Longrightarrow> c_pc s t = Checked \<Longrightarrow>
    connect_step tcp addr s (s\<lparr>helper := Add_insert (call_key tcp addr t) (helper s),
                               c_pc := (c_pc s)(t := Added)\<rparr>)"
| host_ok: "t < length addr \<Longrightarrow> c_pc s t = Added \<Longrightarrow>
    connect_step tcp addr s (s\<lparr>c_pc := (c_pc s)(t := HostConnected)\<rparr>)"
| host_fails: "t < length addr \<Longrightarrow> c_pc s t = Added \<Longrightarrow>
    connect_step tcp addr s (s\<lparr>helper := Delete tcp (fst (addr ! t)) (snd (addr ! t)) (helper s),
                               c_pc := (c_pc s)(t := Failed)\<rparr>)"
| wait_lookup: "t < length addr \<Longrightarrow> c_pc s t = HostConnected \<Longrightarrow>
    getWaitGroup tcp (fst (addr ! t)) (snd (addr ! t)) (helper s) = Inr wg \<Longrightarrow>
    connect_step tcp addr s (s\<lparr>c_pc := (c_pc s)(t := Waiting wg)\<rparr>)"
| wait_missing: "t < length addr \<Longrightarrow> c_pc s t = HostConnected \<Longrightarrow>
    getWaitGroup tcp (fst (addr ! t)) (snd (addr ! t)) (helper s) = Inl e \<Longrightarrow>
    connect_step tcp addr s (s\<lparr>helper := Delete tcp (fst (addr ! t)) (snd (addr ! t)) (helper s),
                               c_pc := (c_pc s)(t := Succeeded)\<rparr>)"
| wait_done: "t < length addr \<Longrightarrow> c_pc s t = Waiting wg \<Longrightarrow> wg_heap (helper s) ! wg \<le> 0 \<Longrightarrow>
    connect_step tcp addr s (s\<lparr>helper := Delete tcp (fst (addr ! t)) (snd (addr ! t)) (helper s),
                               c_pc := (c_pc s)(t := Succeeded)\<rparr>)"
| notify: "t < length addr \<Longrightarrow> host_called (c_pc s t) \<Longrightarrow> e \<notin> reported s t \<Longrightarrow>
    end_addrs e (addr ! t) = (l, r) \<Longrightarrow> Connected tcp l r (helper s) = Inr (None, h) \<Longrightarrow>
    connect_step tcp addr s (s\<lparr>helper := h, reported := (reported s)(t := insert e (reported s t))\<rparr>)"
| notify_unknown: "t < length addr \<Longrightarrow> host_called (c_pc s t) \<Longrightarrow> e \<notin> reported s t \<Longrightarrow>
    end_addrs e (addr ! t) = (l, r) \<Longrightarrow> Connected tcp l r (helper s) = Inr (Some err, h) \<Longrightarrow>
    connect_step tcp addr s (s\<lparr>helper := h, reported := (reported s)(t := insert e (reported s t))\<rparr>)"

inductive connect_reach :: "('a \<Rightarrow> string option) \<Rightarrow> ('a \<times> 'a) list \<Rightarrow> connect_sys \<Rightarrow> bool"
  for tcp addr where
  init: "connect_reach tcp addr connect_init"
| step: "connect_reach tcp addr s \<Longrightarrow> connect_step tcp addr s s' \<Longrightarrow> connect_reach tcp addr s'"

text \<open>The table entry of a call, as its program counter determines it.\<close>

definition call_ok :: "('a \<Rightarrow> string option) \<Rightarrow> ('a \<times> 'a) list \<Rightarrow> connect_sys \<Rightarrow> nat \<Rightarrow> bool" where
  "call_ok tcp addr s t \<longleftrightarrow>
     (let entry = wgs (helper s) (call_key tcp addr t);
          counts = (\<lambda>wg. wg < length (wg_heap (helper s)) \<and>
            wg_heap (helper s) ! wg = 2 - int (card (reported s t)))
      in case c_pc s t of
           Ready \<Rightarrow> entry = None \<and> reported s t = {}
         | Checked \<Rightarrow> entry = None \<and> reported s t = {}
         | Added \<Rightarrow> (\<exists>wg. entry = Some wg \<and> counts wg)
         | HostConnected \<Rightarrow> (\<exists>wg. entry = Some wg \<and> counts wg)
         | Waiting wg \<Rightarrow> entry = Some wg \<and> counts wg
         | Failed \<Rightarrow> entry = None
         | Succeeded \<Rightarrow> entry = None \<and> reported s t = {DialerEnd, ListenerEnd})"

lemma both_ends: "card (E :: conn_end set) = 2 \<longleftrightarrow> E = {DialerEnd, ListenerEnd}" "card E \<le> 2" "finite E"
proof -
  have U: "(UNIV :: conn_end set) = {DialerEnd, ListenerEnd}"
    using conn_end.exhaust by auto
  then show "finite E"
    by (metis finite.emptyI finite_insert finite_subset subset_UNIV)
  show "card E \<le> 2"
    using card_mono [OF _ subset_UNIV [of E, unfolded U]] by simp
  show "card E = 2 \<longleftrightarrow> E = {DialerEnd, ListenerEnd}"
    using card_subset_eq [OF _ subset_UNIV [of E, unfolded U]] by auto
qed

lemma new_end: "e \<notin> E \<Longrightarrow> card (insert (e :: conn_end) E) = Suc (card E)"
  by (simp add: both_ends(3))

lemma missing_end: "e \<notin> E \<Longrightarrow> card (E :: conn_end set) < 2"
  using both_ends(2) [of "insert e E"] by (simp add: new_end)

lemma end_addrs_key: "end_addrs e (addr ! t) = (l, r) \<Longrightarrow> getKey tcp l r = call_key tcp addr t"
  using getKey_sym by (cases e; cases "addr ! t") (auto simp: call_key_def)

definition connect_inv :: "('a \<Rightarrow> string option) \<Rightarrow> ('a \<times> 'a) list \<Rightarrow> connect_sys \<Rightarrow> bool" where
  "connect_inv tcp addr s \<longleftrightarrow> (\<forall>t < length addr. call_ok tcp addr s t) \<and>
     (\<forall>k l wg. wgs (helper s) k = Some wg \<longrightarrow> wgs (helper s) l = Some wg \<longrightarrow> k = l)"

lemma Delete_call:
  "Delete tcp (fst (addr ! t)) (snd (addr ! t)) h = h\<lparr>wgs := (wgs h)(call_key tcp addr t := None)\<rparr>"
  by (simp add: Delete_def call_key_def)

lemma getWaitGroup_call:
  "getWaitGroup tcp (fst (addr ! t)) (snd (addr ! t)) h =
     (case wgs h (call_key tcp addr t) of None \<Rightarrow> Inl DoesNotExist | Some wg \<Rightarrow> Inr wg)"
  by (simp add: getWaitGroup_def call_key_def)

lemma call_ok_frame:
  assumes "call_ok tcp addr s u" "c_pc s' u = c_pc s u" "reported s' u = reported s u"
    and "wgs (helper s') (call_key tcp addr u) = wgs (helper s) (call_key tcp addr u)"
    and "\<And>wg. wgs (helper s) (call_key tcp addr u) = Some wg \<Longrightarrow> wg < length (wg_heap (helper s)) \<Longrightarrow>
      wg < length (wg_heap (helper s')) \<and> wg_heap (helper s') ! wg = wg_heap (helper s) ! wg"
  shows "call_ok tcp addr s' u"
  using assms by (auto simp: call_ok_def Let_def split: connect_pc.splits)

lemma connect_inv_call_ok: "connect_inv tcp addr s \<Longrightarrow> t < length addr \<Longrightarrow> call_ok tcp addr s t"
  by (simp add: connect_inv_def)

lemma connect_inv_pointers:
  "connect_inv tcp addr s \<Longrightarrow> wgs (helper s) k = Some wg \<Longrightarrow> wgs (helper s) l = Some wg \<Longrightarrow> k = l"
  by (simp add: connect_inv_def)

lemma connect_inv_entry_bound:
  assumes "connect_inv tcp addr s" "t < length addr" "wgs (helper s) (call_key tcp addr t) = Some wg"
  shows "wg < length (wg_heap (helper s))"
  using connect_inv_call_ok [OF assms(1,2)] assms(3)
  by (auto simp: call_ok_def Let_def split: connect_pc.splits)

text \<open>A step of call \<open>t\<close> leaves the table entries and the counters of the other calls alone.\<close>

lemma connect_inv_step_at:
  assumes inv: "connect_inv tcp addr s" and inj: "keys_distinct tcp addr" and tl: "t < length addr"
    and t: "call_ok tcp addr s' t"
    and pc: "\<And>u. u \<noteq> t \<Longrightarrow> c_pc s' u = c_pc s u \<and> reported s' u = reported s u"
    and tab: "\<And>k. k \<noteq> call_key tcp addr t \<Longrightarrow> wgs (helper s') k = wgs (helper s) k"
    and heap: "\<And>k wg. wgs (helper s) k = Some wg \<Longrightarrow> k \<noteq> call_key tcp addr t \<Longrightarrow>
      wg < length (wg_heap (helper s)) \<Longrightarrow>
      wg < length (wg_heap (helper s')) \<and> wg_heap (helper s') ! wg = wg_heap (helper s) ! wg"
    and ptr: "\<forall>k l wg. wgs (helper s') k = Some wg \<longrightarrow> wgs (helper s') l = Some wg \<longrightarrow> k = l"
  shows "connect_inv tcp addr s'"
proof -
  have "call_ok tcp addr s' u" if u: "u < length addr" for u
  proof (cases "u = t")
    case False
    then have "call_key tcp addr u \<noteq> call_key tcp addr t"
      using inj u tl by (auto simp: keys_distinct_def dest: inj_onD)
    then show ?thesis
      using connect_inv_call_ok [OF inv u] pc [OF False] tab heap
      by (intro call_ok_frame [of tcp addr s u s']) simp_all
  qed (use t in simp)
  then show ?thesis
    using ptr by (simp add: connect_inv_def)
qed

lemma connect_inv_pc:
  assumes "connect_inv tcp addr s" "keys_distinct tcp addr" "t < length addr"
    and "call_ok tcp addr (s\<lparr>c_pc := (c_pc s)(t := pc)\<rparr>) t"
  shows "connect_inv tcp addr (s\<lparr>c_pc := (c_pc s)(t := pc)\<rparr>)"
  using connect_inv_pointers [OF assms(1)] by (intro connect_inv_step_at [OF assms]) auto

lemma connect_inv_delete:
  assumes "connect_inv tcp addr s" "keys_distinct tcp addr" "t < length addr"
    and "call_ok tcp addr (s\<lparr>helper := Delete tcp (fst (addr ! t)) (snd (addr ! t)) (helper s),
      c_pc := (c_pc s)(t := pc)\<rparr>) t"
  shows "connect_inv tcp addr (s\<lparr>helper := Delete tcp (fst (addr ! t)) (snd (addr ! t)) (helper s),
      c_pc := (c_pc s)(t := pc)\<rparr>)"
  using connect_inv_pointers [OF assms(1)]
  by (intro connect_inv_step_at [OF assms]) (auto simp: Delete_call split: if_splits)

lemma connect_inv_insert:
  assumes inv: "connect_inv tcp addr s" and inj: "keys_distinct tcp addr" and t: "t < length addr"
    and pc: "c_pc s t = Checked"
    and bound: "\<And>k wg. wgs (helper s) k = Some wg \<Longrightarrow> wg < length (wg_heap (helper s))"
  shows "connect_inv tcp addr (s\<lparr>helper := Add_insert (call_key tcp addr t) (helper s),
      c_pc := (c_pc s)(t := Added)\<rparr>)" (is "connect_inv tcp addr ?s")
proof (rule connect_inv_step_at [OF inv inj t])
  show "call_ok tcp addr ?s t"
    using connect_inv_call_ok [OF inv t] pc by (simp add: call_ok_def Let_def Add_insert_def)
  show "\<forall>k l wg. wgs (helper ?s) k = Some wg \<longrightarrow> wgs (helper ?s) l = Some wg \<longrightarrow> k = l"
    using connect_inv_pointers [OF inv] by (auto simp: Add_insert_def dest: bound)
qed (auto simp: Add_insert_def nth_append)

lemma connect_inv_notify:
  assumes inv: "connect_inv tcp addr s" and inj: "keys_distinct tcp addr" and t: "t < length addr"
    and pc: "host_called (c_pc s t)" and e: "e \<notin> reported s t" and lr: "end_addrs e (addr ! t) = (l, r)"
    and c: "Connected tcp l r (helper s) = Inr (None, h)"
  shows "connect_inv tcp addr (s\<lparr>helper := h, reported := (reported s)(t := insert e (reported s t))\<rparr>)"
    (is "connect_inv tcp addr ?s")
proof -
  note key = end_addrs_key [OF lr]
  obtain wg where wg: "wgs (helper s) (call_key tcp addr t) = Some wg"
    "h = (helper s)\<lparr>wg_heap := (wg_heap (helper s))[wg := wg_heap (helper s) ! wg - 1]\<rparr>"
    using c by (auto simp: Connected_def getWaitGroup_def wg_Done_def key split: option.splits if_splits)
  have other: "wg \<noteq> wg'" if "wgs (helper s) k = Some wg'" "k \<noteq> call_key tcp addr t" for k wg'
    using that wg(1) connect_inv_pointers [OF inv] by blast
  show ?thesis
  proof (rule connect_inv_step_at [OF inv inj t])
    show "call_ok tcp addr ?s t"
      using connect_inv_call_ok [OF inv t] wg pc new_end [OF e]
      by (auto simp: call_ok_def Let_def host_called_def split: connect_pc.splits)
    show "\<forall>k l wg. wgs (helper ?s) k = Some wg \<longrightarrow> wgs (helper ?s) l = Some wg \<longrightarrow> k = l"
      using connect_inv_pointers [OF inv] wg(2) by simp
  qed (use wg(2) in \<open>auto simp: nth_list_update_neq [OF other]\<close>)
qed

lemma connect_inv_unknown:
  assumes inv: "connect_inv tcp addr s" and inj: "keys_distinct tcp addr" and t: "t < length addr"
    and pc: "host_called (c_pc s t)" and e: "e \<notin> reported s t" and lr: "end_addrs e (addr ! t) = (l, r)"
    and c: "Connected tcp l r (helper s) = Inr (Some err, h)"
  shows "connect_inv tcp addr (s\<lparr>helper := h, reported := (reported s)(t := insert e (reported s t))\<rparr>)"
    (is "connect_inv tcp addr ?s")
proof -
  have h: "h = helper s" "wgs (helper s) (call_key tcp addr t) = None"
    using c by (auto simp: Connected_def getWaitGroup_def wg_Done_def end_addrs_key [OF lr] split: option.splits if_splits)
  show ?thesis
  proof (rule connect_inv_step_at [OF inv inj t])
    show "call_ok tcp addr ?s t"
      using connect_inv_call_ok [OF inv t] h pc e conn_end.exhaust [of e]
      by (auto simp: call_ok_def Let_def host_called_def split: connect_pc.splits)
    show "\<forall>k l wg. wgs (helper ?s) k = Some wg \<longrightarrow> wgs (helper ?s) l = Some wg \<longrightarrow> k = l"
      using connect_inv_pointers [OF inv] h by simp
  qed (use h in auto)
qed

text \<open>Every entry of the table belongs to one of the calls.\<close>

definition table_ok :: "('a \<Rightarrow> string option) \<Rightarrow> ('a \<times> 'a) list \<Rightarrow> connect_sys \<Rightarrow> bool" where
  "table_ok tcp addr s \<longleftrightarrow> dom (wgs (helper s)) \<subseteq> call_key tcp addr ` {..<length addr}"

lemma connect_step_table: "connect_step tcp addr s s' \<Longrightarrow> table_ok tcp addr s \<Longrightarrow> table_ok tcp addr s'"
  by (erule connect_step.cases)
    (auto simp: table_ok_def Add_insert_def Delete_call Connected_def split: sum.splits if_splits)

lemma connect_step_inv:
  assumes step: "connect_step tcp addr s s'" and inj: "keys_distinct tcp addr"
    and inv: "connect_inv tcp addr s" and tab: "table_ok tcp addr s"
  shows "connect_inv tcp addr s'"
  using step
proof cases
  case (insert t)
  have "wg < length (wg_heap (helper s))" if "wgs (helper s) k = Some wg" for k wg
    using connect_inv_entry_bound [OF inv] tab that by (force simp: table_ok_def)
  then show ?thesis
    using insert connect_inv_insert [OF inv inj] by simp
next
  case (notify t e l r h)
  then show ?thesis
    using connect_inv_notify [OF inv inj] by simp
next
  case (host_fails t)
  then show ?thesis
    using connect_inv_delete [OF inv inj, of t Failed] by (simp add: call_ok_def Let_def Delete_call)
next
  case (wait_done t wg)
  then show ?thesis
    using connect_inv_delete [OF inv inj, of t Succeeded] connect_inv_call_ok [OF inv, of t]
      both_ends(1,2) [of "reported s t"]
    by (simp add: call_ok_def Let_def Delete_call)
next
  case (check t)
  then show ?thesis
    using connect_inv_call_ok [OF inv, of t] connect_inv_pc [OF inv inj, of t Checked]
    by (simp add: call_ok_def Let_def)
next
  case (check_fails t e)
  then show ?thesis
    using connect_inv_call_ok [OF inv, of t] connect_inv_pc [OF inv inj, of t Failed]
    by (simp add: call_ok_def Let_def)
next
  case (addr_fails t)
  then show ?thesis
    using connect_inv_call_ok [OF inv, of t] connect_inv_pc [OF inv inj, of t Failed]
    by (simp add: call_ok_def Let_def)
next
  case (host_ok t)
  then show ?thesis
    using connect_inv_call_ok [OF inv, of t] connect_inv_pc [OF inv inj, of t HostConnected]
    by (simp add: call_ok_def Let_def)
next
  case (wait_lookup t wg)
  then show ?thesis
    using connect_inv_call_ok [OF inv, of t] connect_inv_pc [OF inv inj, of t "Waiting wg"]
    by (auto simp: call_ok_def Let_def getWaitGroup_call split: option.splits)
next
  case (wait_missing t e)
  then show ?thesis
    using connect_inv_call_ok [OF inv, of t] by (auto simp: call_ok_def Let_def getWaitGroup_call)
next
  case (notify_unknown t e l r err h)
  then show ?thesis
    using connect_inv_unknown [OF inv inj] by simp
qed

lemma connect_init_inv: "connect_inv tcp addr connect_init" "table_ok tcp addr connect_init"
  by (simp_all add: connect_inv_def table_ok_def call_ok_def connect_init_def newAgentConnectionHelper_def)

lemma connect_reach_inv:
  assumes "keys_distinct tcp addr"
  shows "connect_reach tcp addr s \<Longrightarrow> connect_inv tcp addr s \<and> table_ok tcp addr s"
  by (induction rule: connect_reach.induct)
    (use connect_init_inv connect_step_inv [OF _ assms] connect_step_table in blast)+

section \<open>Properties\<close>

text \<open>
  For TCP ports the key of a connection identifies the unordered pair of its ports: the two
  ends compute the same key, and two connections share a key only if they join the same two ports.
\<close>

theorem getKey_unordered_pair:
  assumes "port_range (tcp_port tcp l)" "port_range (tcp_port tcp r)"
    and "port_range (tcp_port tcp l')" "port_range (tcp_port tcp r')"
  shows "getKey tcp l r = getKey tcp l' r' \<longleftrightarrow>
    {tcp_port tcp l, tcp_port tcp r} = {tcp_port tcp l', tcp_port tcp r'}"
proof
  assume "getKey tcp l r = getKey tcp l' r'"
  then show "{tcp_port tcp l, tcp_port tcp r} = {tcp_port tcp l', tcp_port tcp r'}"
    by (rule getKey_inj [OF assms])
next
  assume "{tcp_port tcp l, tcp_port tcp r} = {tcp_port tcp l', tcp_port tcp r'}"
  then show "getKey tcp l r = getKey tcp l' r'"
    using assms by (auto simp: getKey_ports doubleton_eq_iff min.commute max.commute)
qed

theorem getKey_unordered_pair_witness:
  "getKey (Some :: string \<Rightarrow> string option) ''10000'' ''10001'' = getKey Some ''10001'' ''10000'' \<and>
   getKey (Some :: string \<Rightarrow> string option) ''10000'' ''10001'' \<noteq> getKey Some ''10000'' ''10002''"
proof -
  have p: "tcp_port (Some :: string \<Rightarrow> string option) ''10000'' = 10000"
    "tcp_port (Some :: string \<Rightarrow> string option) ''10001'' = 10001"
    "tcp_port (Some :: string \<Rightarrow> string option) ''10002'' = 10002"
    by code_simp+
  then have r: "port_range (tcp_port (Some :: string \<Rightarrow> string option) ''10000'')"
    "port_range (tcp_port (Some :: string \<Rightarrow> string option) ''10001'')"
    "port_range (tcp_port (Some :: string \<Rightarrow> string option) ''10002'')"
    by (simp_all add: port_range_def)
  show ?thesis
    using getKey_unordered_pair [OF r(1,2) r(2,1)] getKey_unordered_pair [OF r(1,2) r(1,3)]
    by (simp add: p doubleton_eq_iff insert_commute)
qed

text \<open>
  C8. \<open>Connect\<close> does not return success before both ends are connected: for calls between different
  pairs of ports, under every interleaving with each other and with the notifications, when a call has
  succeeded both the dialling and the listening end of its connection have reported it; a call that
  begins finds no entry under its key, so that \<open>Add\<close> does not refuse it; a call that is about to wait always finds its wait group (the error that \<open>Connect\<close> drops cannot occur); the report
  of an end that has not reported yet never drives a counter negative; and a waiting call is released exactly when both ends have
  reported, so one end alone never releases it.
\<close>

theorem connect_waits_for_both_ends:
  assumes "keys_distinct tcp addr" "connect_reach tcp addr s" "t < length addr"
  shows "(c_pc s t = Succeeded \<longrightarrow> reported s t = {DialerEnd, ListenerEnd}) \<and>
    (c_pc s t = Ready \<longrightarrow> Add_check (call_key tcp addr t) (helper s) = None) \<and>
    (c_pc s t = HostConnected \<longrightarrow>
       (\<exists>wg. getWaitGroup tcp (fst (addr ! t)) (snd (addr ! t)) (helper s) = Inr wg)) \<and>
    (DialerEnd \<notin> reported s t \<longrightarrow> (\<exists>r. Connected tcp (fst (addr ! t)) (snd (addr ! t)) (helper s) = Inr r)) \<and>
    (ListenerEnd \<notin> reported s t \<longrightarrow> (\<exists>r. Connected tcp (snd (addr ! t)) (fst (addr ! t)) (helper s) = Inr r)) \<and>
    (\<forall>wg. c_pc s t = Waiting wg \<longrightarrow>
       getWaitGroup tcp (fst (addr ! t)) (snd (addr ! t)) (helper s) = Inr wg \<and>
       (wg_heap (helper s) ! wg \<le> 0 \<longleftrightarrow> reported s t = {DialerEnd, ListenerEnd}))"
proof -
  have ok: "call_ok tcp addr s t"
    using connect_reach_inv [OF assms(1,2)] assms(3) by (simp add: connect_inv_def)
  note two = both_ends(1,2) [of "reported s t"]
  have "\<exists>r'. Connected tcp l r (helper s) = Inr r'"
    if "end_addrs e (addr ! t) = (l, r)" "e \<notin> reported s t" for e l r
    using ok that(2) missing_end [OF that(2)]
    by (auto simp: call_ok_def Let_def Connected_def getWaitGroup_def wg_Done_def end_addrs_key [OF that(1)]
        split: connect_pc.splits)
  from this [of DialerEnd "fst (addr ! t)" "snd (addr ! t)"] this [of ListenerEnd "snd (addr ! t)" "fst (addr ! t)"]
  have "DialerEnd \<notin> reported s t \<longrightarrow> (\<exists>r. Connected tcp (fst (addr ! t)) (snd (addr ! t)) (helper s) = Inr r)"
    "ListenerEnd \<notin> reported s t \<longrightarrow> (\<exists>r. Connected tcp (snd (addr ! t)) (fst (addr ! t)) (helper s) = Inr r)"
    by (cases "addr ! t"; simp)+
  then show ?thesis
    using ok two by (auto simp: call_ok_def Let_def getWaitGroup_call Add_check_def split: connect_pc.splits)
qed

text \<open>A run in which one call, between the ports 10 and 20, succeeds: first the listening end reports, then the dialling one.\<close>

definition ex_addr :: "(string \<times> string) list" where
  "ex_addr = [(''10'', ''20'')]"

definition ex_state :: "connect_pc \<Rightarrow> conn_end set \<Rightarrow> connect_sys" where
  "ex_state pc E = \<lparr>helper = \<lparr>wgs = [getKey Some ''10'' ''20'' \<mapsto> 0], wg_heap = [2 - int (card E)]\<rparr>,
     c_pc = (\<lambda>_. Ready)(0 := pc), reported = (\<lambda>_. {})(0 := E)\<rparr>"

lemma ex_key: "call_key Some ex_addr 0 = getKey Some ''10'' ''20''" "length ex_addr = 1"
    "ex_addr ! 0 = (''10'', ''20'')"
  by (simp_all add: call_key_def ex_addr_def)

lemma ex_keys_distinct: "keys_distinct Some ex_addr"
  by (simp add: keys_distinct_def ex_addr_def inj_on_def)

lemma ex_reach_added: "connect_reach Some ex_addr (ex_state Added {})"
proof -
  let ?s = "connect_init\<lparr>c_pc := (c_pc connect_init)(0 := Checked)\<rparr>"
  have "connect_step Some ex_addr connect_init ?s"
    by (rule connect_step.check)
      (simp_all add: ex_key connect_init_def newAgentConnectionHelper_def Add_check_def)
  moreover have "connect_step Some ex_addr ?s (?s\<lparr>helper := Add_insert (call_key Some ex_addr 0) (helper ?s),
      c_pc := (c_pc ?s)(0 := Added)\<rparr>)"
    by (rule connect_step.insert) (simp_all add: ex_key)
  moreover have "(\<lambda>_::nat. {}::conn_end set)(0 := {}) = (\<lambda>_. {})"
    by auto
  ultimately show ?thesis
    using connect_reach.step [OF connect_reach.step [OF connect_reach.init]]
    by (simp add: ex_state_def ex_key connect_init_def newAgentConnectionHelper_def Add_insert_def)
qed

lemma ex_notify:
  assumes "host_called pc" "e \<notin> E" "connect_reach Some ex_addr (ex_state pc E)"
  shows "connect_reach Some ex_addr (ex_state pc (insert e E))"
proof -
  let ?h = "\<lparr>wgs = [getKey Some ''10'' ''20'' \<mapsto> 0], wg_heap = [2 - int (card (insert e E))]\<rparr>"
  have "connect_step Some ex_addr (ex_state pc E) ((ex_state pc E)\<lparr>helper := ?h,
      reported := (reported (ex_state pc E))(0 := insert e (reported (ex_state pc E) 0))\<rparr>)"
    using assms(1,2) missing_end [OF assms(2)] new_end [OF assms(2)] getKey_sym [of Some "''20''" "''10''"]
    by (intro connect_step.notify [of 0 _ _ e "fst (end_addrs e (ex_addr ! 0))" "snd (end_addrs e (ex_addr ! 0))"]; cases e)
      (auto simp: ex_key ex_state_def Connected_def getWaitGroup_def wg_Done_def)
  then show ?thesis
    using connect_reach.step [OF assms(3)] by (simp add: ex_state_def)
qed

lemma ex_reach_waiting: "connect_reach Some ex_addr (ex_state (Waiting 0) {DialerEnd, ListenerEnd})"
proof -
  have l: "connect_reach Some ex_addr (ex_state Added {ListenerEnd})"
    using ex_notify [OF _ _ ex_reach_added] by (simp add: host_called_def)
  have "connect_step Some ex_addr (ex_state Added {ListenerEnd})
      ((ex_state Added {ListenerEnd})\<lparr>c_pc := (c_pc (ex_state Added {ListenerEnd}))(0 := HostConnected)\<rparr>)"
    by (rule connect_step.host_ok) (simp_all add: ex_key ex_state_def)
  then have "connect_reach Some ex_addr (ex_state HostConnected {ListenerEnd})"
    using connect_reach.step [OF l] by (simp add: ex_state_def)
  moreover have "connect_step Some ex_addr (ex_state HostConnected {ListenerEnd})
      ((ex_state HostConnected {ListenerEnd})\<lparr>c_pc := (c_pc (ex_state HostConnected {ListenerEnd}))(0 := Waiting 0)\<rparr>)"
    by (rule connect_step.wait_lookup) (simp_all add: ex_key ex_state_def getWaitGroup_def)
  ultimately have "connect_reach Some ex_addr (ex_state (Waiting 0) {ListenerEnd})"
    using connect_reach.step by (fastforce simp: ex_state_def)
  then show ?thesis
    using ex_notify [of "Waiting 0" DialerEnd "{ListenerEnd}"] by (simp add: host_called_def)
qed

theorem connect_waits_for_both_ends_witness:
  "\<exists>s. keys_distinct Some ex_addr \<and> connect_reach Some ex_addr s \<and> c_pc s 0 = Succeeded \<and>
     reported s 0 = {DialerEnd, ListenerEnd}"
proof -
  let ?w = "ex_state (Waiting 0) {DialerEnd, ListenerEnd}"
  let ?s = "?w\<lparr>helper := Delete Some (fst (ex_addr ! 0)) (snd (ex_addr ! 0)) (helper ?w),
    c_pc := (c_pc ?w)(0 := Succeeded)\<rparr>"
  have "connect_step Some ex_addr ?w ?s"
    by (rule connect_step.wait_done [of 0 _ _ 0]) (simp_all add: ex_key ex_state_def)
  then have r: "connect_reach Some ex_addr ?s"
    by (rule connect_reach.step [OF ex_reach_waiting])
  have "c_pc ?s 0 = Succeeded"
    by simp
  then have "reported ?s 0 = {DialerEnd, ListenerEnd}"
    using connect_waits_for_both_ends [OF ex_keys_distinct r, of 0] by (simp add: ex_key)
  with r \<open>c_pc ?s 0 = Succeeded\<close> ex_keys_distinct show ?thesis
    by blast
qed

text \<open>
  C37. The check and the insertion of \<open>Add\<close> are two critical sections, so two calls for the same key
  can both be told that the connection did not exist: there is an interleaving after which both have
  passed \<open>Add\<close>, and the table holds only the wait group of the second one.
\<close>

theorem add_is_not_atomic:
  "\<exists>s. connect_reach tcp [(a, b), (b, a)] s \<and> c_pc s 0 = Added \<and> c_pc s 1 = Added \<and>
     wg_heap (helper s) = [2, 2] \<and> wgs (helper s) = [getKey tcp a b \<mapsto> 1]"
proof -
  let ?addr = "[(a, b), (b, a)]"
  let ?s1 = "connect_init\<lparr>c_pc := (c_pc connect_init)(0 := Checked)\<rparr>"
  let ?s2 = "?s1\<lparr>c_pc := (c_pc ?s1)(1 := Checked)\<rparr>"
  let ?s3 = "?s2\<lparr>helper := Add_insert (call_key tcp ?addr 0) (helper ?s2), c_pc := (c_pc ?s2)(0 := Added)\<rparr>"
  let ?s4 = "?s3\<lparr>helper := Add_insert (call_key tcp ?addr 1) (helper ?s3), c_pc := (c_pc ?s3)(1 := Added)\<rparr>"
  have 1: "connect_step tcp ?addr connect_init ?s1"
    by (rule connect_step.check) (simp_all add: connect_init_def newAgentConnectionHelper_def Add_check_def)
  have 2: "connect_step tcp ?addr ?s1 ?s2"
    by (rule connect_step.check) (simp_all add: connect_init_def newAgentConnectionHelper_def Add_check_def)
  have 3: "connect_step tcp ?addr ?s2 ?s3"
    by (rule connect_step.insert) simp_all
  have 4: "connect_step tcp ?addr ?s3 ?s4"
    by (rule connect_step.insert) simp_all
  have "connect_reach tcp ?addr ?s4"
    by (rule connect_reach.step [OF connect_reach.step [OF connect_reach.step [OF connect_reach.step
      [OF connect_reach.init 1] 2] 3] 4])
  then show ?thesis
    by (intro exI [of _ ?s4])
      (simp add: Add_insert_def connect_init_def newAgentConnectionHelper_def call_key_def getKey_sym [of tcp b a])
qed

text \<open>
  C34. The protocol of one table entry, branch by branch. After \<open>Add\<close> on a free key a second \<open>Add\<close>
  (from either end) is refused without a change, \<open>Wait\<close> blocks until \<open>Connected\<close> has been called
  twice, with its addresses in any order, and is then released; a third \<open>Connected\<close> panics; after
  \<open>Delete\<close> the key is free again and \<open>Connected\<close> reports that the connection does not exist.
\<close>

theorem connection_entry_protocol:
  assumes "wgs s (getKey tcp l r) = None"
  shows "\<exists>s1 s2 s3. Add tcp l r s = (None, s1) \<and> Add tcp r l s1 = (Some AlreadyExists, s1) \<and>
    Wait tcp l r s1 = Blocked \<and>
    Connected tcp l r s1 = Inr (None, s2) \<and> Wait tcp l r s2 = Blocked \<and>
    Connected tcp r l s2 = Inr (None, s3) \<and> Wait tcp l r s3 = Released \<and>
    Connected tcp l r s3 = Inl NegativeWaitGroup \<and>
    wgs (Delete tcp r l s3) = wgs s \<and> Connected tcp l r (Delete tcp l r s3) = Inr (Some DoesNotExist, Delete tcp l r s3)"
proof -
  let ?k = "getKey tcp l r"
  define s1 where "s1 = s\<lparr>wg_heap := wg_heap s @ [2], wgs := (wgs s)(?k \<mapsto> length (wg_heap s))\<rparr>"
  define s2 where "s2 = s1\<lparr>wg_heap := wg_heap s @ [1]\<rparr>"
  define s3 where "s3 = s1\<lparr>wg_heap := wg_heap s @ [0]\<rparr>"
  note defs = Add_def Add_check_def Add_insert_def Wait_def getWaitGroup_def Connected_def wg_Done_def
    Delete_def s1_def s2_def s3_def getKey_sym [of tcp r l] Let_def
  have "wgs (Delete tcp r l s3) = wgs s"
    using assms by (auto simp: defs)
  moreover have "Connected tcp l r s1 = Inr (None, s2)" "Connected tcp r l s2 = Inr (None, s3)"
    "Connected tcp l r s3 = Inl NegativeWaitGroup"
    by (simp_all add: defs)
  ultimately show ?thesis
    using assms by (intro exI [of _ s1] exI [of _ s2] exI [of _ s3]) (simp add: defs)
qed

theorem connection_entry_protocol_witness:
  "\<exists>s1. Add Some ''10'' ''20'' newAgentConnectionHelper = (None, s1) \<and>
     Add Some ''20'' ''10'' s1 = (Some AlreadyExists, s1) \<and> Wait Some ''10'' ''20'' s1 = Blocked"
  using connection_entry_protocol [of newAgentConnectionHelper Some "''10''" "''20''"]
  by (auto simp: newAgentConnectionHelper_def)

end
