(* ===== verification/Agent.thy ===== *)
theory Agent
  imports Strconv Binary
begin

text \<open>
  \<open>agent/agent.go\<close>: the benchmark agent. The wire format of its messages (\<open>createMessage\<close>,
  \<open>readMessage\<close>), its configuration, and its handlers \<open>Listen\<close>, \<open>SendMessage\<close>, the receive loop,
  \<open>Disconnect\<close> and \<open>Stop\<close>. (\<open>Connect\<close> is in the theory \<open>ConnectionHelper\<close>, with the table it
  synchronises on.)

  libp2p, the pubsub library, the uuid library and the random generator are parameters: the record
  \<open>libp2p\<close> holds the results of the library calls. A library host or topic is an opaque number, nil
  is \<open>None\<close>. What the logger writes is returned as a list of entries whose optional fields are the
  fields of the JSON line.
\<close>

section \<open>Messages\<close>

record packet =
  MessageID :: "byte list"
  IsUseful :: bool

text \<open>\<open>uuid.UUID\<close> is an array of 16 bytes.\<close>

definition packet_wf :: "packet \<Rightarrow> bool" where
  "packet_wf p \<longleftrightarrow> length (MessageID p) = 16"

definition encode_packet :: "packet \<Rightarrow> byte list" where
  "encode_packet p = MessageID p @ [if IsUseful p then 1 else 0]"

definition decode_packet :: "byte list \<Rightarrow> packet" where
  "decode_packet bs = \<lparr>MessageID = take 16 bs, IsUseful = (bs ! 16 \<noteq> 0)\<rparr>"

interpretation packet_codec: fixed_codec 17 encode_packet decode_packet packet_wf
  by unfold_locales (auto simp: encode_packet_def decode_packet_def packet_wf_def nth_append)

datatype message_error = SizeLessThan int | ReadError io_error

text \<open>\<open>rand.Read\<close> fills the rest of the message; \<open>rnd k\<close> is its \<open>k\<close>-th byte.\<close>

definition createMessage :: "(nat \<Rightarrow> byte) \<Rightarrow> packet \<Rightarrow> int \<Rightarrow> message_error + byte list" where
  "createMessage rnd data sz =
     (let buf = encode_packet data
      in if sz < int (length buf) then Inl (SizeLessThan (int (length buf)))
         else let filler = map rnd [0..<nat (sz - int (length buf))] in Inr (buf @ filler))"

text \<open>On an error the target is left as it was.\<close>

definition readMessage :: "byte list \<Rightarrow> packet \<Rightarrow> message_error option \<times> packet" where
  "readMessage b data =
     (case fst (binary_read 17 decode_packet b) of
        Inl e \<Rightarrow> (Some (ReadError e), data) | Inr d \<Rightarrow> (None, d))"

lemma length_encode_packet: "packet_wf p \<Longrightarrow> length (encode_packet p) = 17"
  by (rule packet_codec.enc_width)

section \<open>Configuration\<close>

record GossipConfig =
  Transport :: "nat option"
  GossipSubD :: int
  GossipSubDlo :: int
  GossipSubDhi :: int
  GossipSubMcacheLen :: int
  GossipSubMcacheGossip :: int
  GossipSubSeenTTL :: int
  GossipSubFanoutTTL :: int
  GossipSubHeartbeatInterval :: int
  PubsubQueueSize :: int

definition SetDefaults :: "GossipConfig \<Rightarrow> GossipConfig" where
  "SetDefaults c = c\<lparr>GossipSubD := 8, GossipSubDlo := 6, GossipSubDhi := 12, GossipSubMcacheLen := 6,
     GossipSubMcacheGossip := 3, GossipSubSeenTTL := 550, GossipSubFanoutTTL := 60000000000,
     GossipSubHeartbeatInterval := 700 * 1000000, PubsubQueueSize := 600\<rparr>"

text \<open>The parameters of the pubsub library that the agent may set; the record is open for the rest.\<close>

record gossip_params =
  gp_D :: int
  gp_Dlo :: int
  gp_Dhi :: int
  gp_HistoryLength :: int
  gp_HistoryGossip :: int
  gp_FanoutTTL :: int
  gp_HeartbeatInterval :: int

definition getPubsubGossipParams :: "GossipConfig \<Rightarrow> gossip_params \<Rightarrow> gossip_params" where
  "getPubsubGossipParams config gParams =
     gParams\<lparr>gp_Dlo := GossipSubDlo config, gp_D := GossipSubD config,
       gp_HeartbeatInterval := GossipSubHeartbeatInterval config,
       gp_HistoryLength := GossipSubMcacheLen config,
       gp_HistoryGossip := GossipSubMcacheGossip config\<rparr>"

section \<open>The agent\<close>

record GossipAgent =
  City :: string
  Port :: int
  Validator :: bool
  Host :: "nat option"
  Config :: GossipConfig
  Topic :: "nat option"

datatype AgentConfig = GossipConfigPtr GossipConfig | OtherConfig

definition NewAgent :: "int \<Rightarrow> string \<Rightarrow> bool \<Rightarrow> AgentConfig \<Rightarrow> GossipAgent go" where
  "NewAgent port city isValidator config =
     (case config of
        GossipConfigPtr v \<Rightarrow> Inr \<lparr>City = city, Port = port, Validator = isValidator, Host = None,
          Config = v, Topic = None\<rparr>
      | OtherConfig \<Rightarrow> Inl (Explicit ''I don't know that Agent Config''))"

record libp2p =
  lib_NewMultiaddr :: "string \<Rightarrow> error + string"
  lib_New :: "string \<Rightarrow> nat option \<Rightarrow> error + nat"
  lib_DefaultParams :: gossip_params
  lib_NewGossipSub :: "nat \<Rightarrow> int \<Rightarrow> gossip_params \<Rightarrow> error option"
  lib_Join :: "nat \<Rightarrow> string \<Rightarrow> error + nat"
  lib_Subscribe :: "nat \<Rightarrow> error option"
  lib_Publish :: "nat \<Rightarrow> byte list \<Rightarrow> error option"
  lib_Close :: "nat \<Rightarrow> error option"
  lib_ID :: "nat \<Rightarrow> string"
  lib_uuid_String :: "byte list \<Rightarrow> string"

record entry =
  z_msg :: string
  z_time :: int
  z_peer :: "string option"
  z_direction :: "string option"
  z_msgID :: "string option"
  z_aggregateStats :: "bool option"
  z_from :: "string option"
  z_isValidator :: "bool option"
  z_topic :: "string option"

definition plain_entry :: "string \<Rightarrow> int \<Rightarrow> entry" where
  "plain_entry msg t = \<lparr>z_msg = msg, z_time = t, z_peer = None, z_direction = None, z_msgID = None,
     z_aggregateStats = None, z_from = None, z_isValidator = None, z_topic = None\<rparr>"

definition topicName :: string where
  "topicName = ''Topic''"

definition Listen :: "libp2p \<Rightarrow> int \<Rightarrow> string \<Rightarrow> int \<Rightarrow> GossipAgent \<Rightarrow>
    error option \<times> GossipAgent \<times> entry list" where
  "Listen lib t ipString port a =
     (case lib_NewMultiaddr lib (''/ip4/'' @ ipString @ ''/tcp/'' @ show_int port) of
        Inl e \<Rightarrow> (Some e, a, [])
      | Inr listenAddr \<Rightarrow>
     (case lib_New lib listenAddr (Transport (Config a)) of
        Inl e \<Rightarrow> (Some (''failed to create libp2p stack: '' @ e), a, [])
      | Inr host \<Rightarrow>
     (case lib_NewGossipSub lib host (PubsubQueueSize (Config a))
             (getPubsubGossipParams (Config a) (lib_DefaultParams lib)) of
        Some e \<Rightarrow> (Some e, a, [])
      | None \<Rightarrow>
     (case lib_Join lib host topicName of
        Inl e \<Rightarrow> (Some e, a, [])
      | Inr topic \<Rightarrow>
     (case lib_Subscribe lib topic of
        Some e \<Rightarrow> (Some e, a, [])
      | None \<Rightarrow> (None, a\<lparr>Host := Some host, Topic := Some topic\<rparr>,
          [(plain_entry ''agent successfully subscribed'' t)\<lparr>z_topic := Some topicName\<rparr>]))))))"

text \<open>
  One iteration of the loop that \<open>Listen\<close> starts: the result of \<open>sub.Next\<close> is an error or a message
  (its data and the peer it was received from). After a decoding error the loop goes on and logs.
\<close>

definition receive_message :: "libp2p \<Rightarrow> int \<Rightarrow> nat \<Rightarrow> GossipAgent \<Rightarrow> error + byte list \<times> string \<Rightarrow> entry list" where
  "receive_message lib t host a raw =
     (case raw of Inl e \<Rightarrow> []
      | Inr (rawData, receivedFrom) \<Rightarrow>
          let (err, data) = readMessage rawData \<lparr>MessageID = replicate 16 0, IsUseful = False\<rparr>
          in [(plain_entry ''message received'' t)\<lparr>z_peer := Some (lib_ID lib host),
                z_direction := Some ''received'', z_msgID := Some (lib_uuid_String lib (MessageID data)),
                z_aggregateStats := Some (IsUseful data), z_from := Some receivedFrom,
                z_isValidator := Some (Validator a)\<rparr>])"

text \<open>\<open>uuid\<close> is what \<open>uuid.New\<close> returned.\<close>

definition SendMessage :: "libp2p \<Rightarrow> (nat \<Rightarrow> byte) \<Rightarrow> byte list \<Rightarrow> int \<Rightarrow> int \<Rightarrow> bool \<Rightarrow> GossipAgent \<Rightarrow>
    ((message_error + error option) \<times> entry list) go" where
  "SendMessage lib rnd uuid t sz isUseful a =
     (let data = \<lparr>MessageID = uuid, IsUseful = isUseful\<rparr>
      in case createMessage rnd data sz of
           Inl e \<Rightarrow> Inr (Inl e, [])
         | Inr msg \<Rightarrow>
             go_bind (deref (Host a)) (\<lambda>host.
             go_bind (deref (Topic a)) (\<lambda>topic.
               Inr (Inr (lib_Publish lib topic msg),
                 [(plain_entry ''message sent'' t)\<lparr>z_peer := Some (lib_ID lib host),
                    z_direction := Some ''sent'', z_aggregateStats := Some isUseful,
                    z_msgID := Some (lib_uuid_String lib (MessageID data))\<rparr>]))))"

text \<open>
  \<open>Disconnect\<close> closes the first connection of the host whose remote address equals the remote
  agent's address; \<open>conns\<close> lists the remote addresses and the results of closing.
\<close>

fun Disconnect :: "('addr \<times> error option) list \<Rightarrow> 'addr \<Rightarrow> error option" where
  "Disconnect [] remoteAddr = Some ''could not disconnect''"
| "Disconnect ((addr, closeResult) # conns) remoteAddr =
     (if addr = remoteAddr then closeResult else Disconnect conns remoteAddr)"

definition Stop :: "libp2p \<Rightarrow> GossipAgent \<Rightarrow> error option go" where
  "Stop lib a = go_bind (deref (Host a)) (\<lambda>host. Inr (lib_Close lib host))"

definition NumPeers :: "(nat \<Rightarrow> int) \<Rightarrow> GossipAgent \<Rightarrow> int go" where
  "NumPeers peerCount a = go_bind (deref (Host a)) (\<lambda>host. Inr (peerCount host - 1))"

text \<open>\<open>Addr\<close> rebuilds the address from its components and appends the peer id.\<close>

definition agent_Addr :: "(string \<Rightarrow> error + string) \<Rightarrow> (nat \<Rightarrow> string) \<Rightarrow> (nat \<Rightarrow> string) \<Rightarrow> (nat \<Rightarrow> string) \<Rightarrow>
    GossipAgent \<Rightarrow> string option go" where
  "agent_Addr newMultiaddr ip tcp pid a =
     go_bind (deref (Host a)) (\<lambda>host.
       Inr (case newMultiaddr (''/ip4/'' @ ip host @ ''/tcp/'' @ tcp host @ ''/p2p/'' @ pid host) of
              Inl e \<Rightarrow> None | Inr listenAddr \<Rightarrow> Some listenAddr))"

abbreviation GetCity :: "GossipAgent \<Rightarrow> string" where "GetCity a \<equiv> City a"

abbreviation GetPort :: "GossipAgent \<Rightarrow> int" where "GetPort a \<equiv> Port a"

abbreviation IsValidator :: "GossipAgent \<Rightarrow> bool" where "IsValidator a \<equiv> Validator a"

section \<open>Properties\<close>

text \<open>
  C35. Messages round trip: for a size of at least 17 bytes \<open>createMessage\<close> gives a message of
  exactly that size from which \<open>readMessage\<close> recovers the packet, whatever the filler; for a smaller
  size it fails with the minimum.
\<close>

theorem message_roundtrip:
  assumes "packet_wf data"
  shows "if sz < 17 then createMessage rnd data sz = Inl (SizeLessThan 17)
    else \<exists>msg. createMessage rnd data sz = Inr msg \<and> int (length msg) = sz \<and>
      readMessage msg old = (None, data)"
proof -
  have "readMessage (encode_packet data @ filler) old = (None, data)" for filler
    using packet_codec.read_back [OF assms] by (simp add: readMessage_def)
  then show ?thesis
    using length_encode_packet [OF assms] by (auto simp: createMessage_def Let_def)
qed

theorem message_roundtrip_witness:
  "\<exists>msg. createMessage (\<lambda>_. 7) \<lparr>MessageID = replicate 16 171, IsUseful = True\<rparr> 1024 = Inr msg \<and>
     length msg = 1024 \<and>
     readMessage msg \<lparr>MessageID = [], IsUseful = False\<rparr> = (None, \<lparr>MessageID = replicate 16 171, IsUseful = True\<rparr>)"
  using message_roundtrip [of "\<lparr>MessageID = replicate 16 171, IsUseful = True\<rparr>" 1024 "\<lambda>_. 7"
      "\<lparr>MessageID = [], IsUseful = False\<rparr>"]
  by (auto simp: packet_wf_def)

text \<open>
  What the sender logs is what every receiver logs: a message that \<open>SendMessage\<close> hands to the
  library is logged once by the sender, and an agent that receives its bytes logs it with the same
  message id and the same \<open>aggregateStats\<close> flag, marked with its own validator flag.
\<close>

theorem sent_and_received_agree:
  assumes "length uuid = 16" "17 \<le> sz" "Host a = Some h" "Topic a = Some topic"
  shows "\<exists>msg sent. SendMessage lib rnd uuid t sz isUseful a = Inr (Inr (lib_Publish lib topic msg), [sent]) \<and>
    z_direction sent = Some ''sent'' \<and> z_aggregateStats sent = Some isUseful \<and>
    (\<forall>t' h' b from. \<exists>rec. receive_message lib t' h' b (Inr (msg, from)) = [rec] \<and>
       z_direction rec = Some ''received'' \<and> z_msgID rec = z_msgID sent \<and>
       z_aggregateStats rec = Some isUseful \<and> z_isValidator rec = Some (Validator b))"
proof -
  let ?data = "\<lparr>MessageID = uuid, IsUseful = isUseful\<rparr>"
  let ?filler = "map rnd [0..<nat (sz - 17)]"
  have wf: "packet_wf ?data"
    using assms(1) by (simp add: packet_wf_def)
  then have "createMessage rnd ?data sz = Inr (encode_packet ?data @ ?filler)"
    using assms(2) length_encode_packet [OF wf] by (simp add: createMessage_def Let_def)
  moreover have "readMessage (encode_packet ?data @ ?filler) old = (None, ?data)" for old
    using packet_codec.read_back [OF wf] by (simp add: readMessage_def)
  ultimately show ?thesis
    using assms(3,4)
    by (intro exI [of _ "encode_packet ?data @ ?filler"])
      (simp add: SendMessage_def receive_message_def plain_entry_def)
qed

definition ex_lib :: libp2p where
  "ex_lib = \<lparr>lib_NewMultiaddr = Inr, lib_New = (\<lambda>_ _. Inr 1),
     lib_DefaultParams = \<lparr>gp_D = 6, gp_Dlo = 5, gp_Dhi = 12, gp_HistoryLength = 5, gp_HistoryGossip = 3,
       gp_FanoutTTL = 60000000000, gp_HeartbeatInterval = 1000000000\<rparr>,
     lib_NewGossipSub = (\<lambda>_ _ _. None), lib_Join = (\<lambda>_ _. Inr 2), lib_Subscribe = (\<lambda>_. None),
     lib_Publish = (\<lambda>_ _. None), lib_Close = (\<lambda>_. None), lib_ID = (\<lambda>_. ''Qm''),
     lib_uuid_String = (\<lambda>bs. map (\<lambda>b. char_of (unat b)) bs)\<rparr>"

definition ex_agent :: GossipAgent where
  "ex_agent = \<lparr>City = ''Novi Sad'', Port = 0, Validator = True, Host = Some 1,
     Config = SetDefaults \<lparr>Transport = None, GossipSubD = 0, GossipSubDlo = 0, GossipSubDhi = 0,
       GossipSubMcacheLen = 0, GossipSubMcacheGossip = 0, GossipSubSeenTTL = 0, GossipSubFanoutTTL = 0,
       GossipSubHeartbeatInterval = 0, PubsubQueueSize = 0\<rparr>, Topic = Some 2\<rparr>"

theorem sent_and_received_agree_witness:
  "\<exists>msg sent. SendMessage ex_lib (\<lambda>_. 0) (replicate 16 9) 5 17 True ex_agent =
      Inr (Inr (lib_Publish ex_lib 2 msg), [sent]) \<and>
    (\<exists>rec. receive_message ex_lib 6 1 ex_agent (Inr (msg, ''Qm'')) = [rec] \<and> z_msgID rec = z_msgID sent)"
proof -
  have "Host ex_agent = Some 1" "Topic ex_agent = Some 2"
    by (simp_all add: ex_agent_def)
  then show ?thesis
    using sent_and_received_agree [of "replicate 16 9" 17 ex_agent 1 2 ex_lib "\<lambda>_. 0" 5 True] by fastforce
qed

text \<open>
  \<open>Listen\<close> sets the agent's host and topic only when every library call succeeded: on each of
  its five error returns the agent is unchanged and nothing is logged. So after a failed \<open>Listen\<close> on
  a new agent, \<open>Stop\<close> reads the nil host and panics.
\<close>

theorem listen_error_leaves_agent_unstartable:
  assumes "NewAgent p city v config = Inr a" "Listen lib t ip port a = (Some e, a', log)"
  shows "a' = a \<and> log = [] \<and> Stop lib a' = Inl NilDereference"
proof -
  have "Host a = None"
    using assms(1) by (auto simp: NewAgent_def split: AgentConfig.splits)
  moreover have "a' = a" "log = []"
    using assms(2) by (auto simp: Listen_def split: sum.splits option.splits)
  ultimately show ?thesis
    by (simp add: Stop_def)
qed

theorem listen_error_leaves_agent_unstartable_witness:
  "\<exists>a a' log. NewAgent 0 ''Novi Sad'' True (GossipConfigPtr (Config ex_agent)) = Inr a \<and>
     Listen (ex_lib\<lparr>lib_New := \<lambda>_ _. Inl ''address in use''\<rparr>) 0 ''127.0.0.1'' 10000 a =
       (Some ''failed to create libp2p stack: address in use'', a', log) \<and>
     Stop (ex_lib\<lparr>lib_New := \<lambda>_ _. Inl ''address in use''\<rparr>) a' = Inl NilDereference"
proof -
  let ?lib = "ex_lib\<lparr>lib_New := \<lambda>_ _. Inl ''address in use''\<rparr>"
  obtain a where a: "NewAgent 0 ''Novi Sad'' True (GossipConfigPtr (Config ex_agent)) = Inr a"
    by (simp add: NewAgent_def)
  moreover have l: "Listen ?lib 0 ''127.0.0.1'' 10000 a = (Some ''failed to create libp2p stack: address in use'', a, [])"
    by (simp add: Listen_def ex_lib_def)
  moreover have "Stop ?lib a = Inl NilDereference"
    using listen_error_leaves_agent_unstartable [OF a l] by blast
  ultimately show ?thesis
    by blast
qed

end
