(* ===== verification/Connections.thy ===== *)
theory Connections
  imports Agent Runner
begin

text \<open>
  \<open>cluster/connections_list.go\<close>: the list of connection pairs and \<open>ConnectAll\<close>, which hands every
  pair to the runner. Also the graph vocabulary in which the topologies are specified: an edge is the
  unordered pair of the ports of its agents, \<open>deg\<close> counts the entries at a port, \<open>simple_conns\<close> is
  "no self-connection and no pair twice", \<open>connected_on\<close> is connectivity of the peers.
\<close>

type_synonym connectionsList = "(GossipAgent \<times> GossipAgent) list"

definition connections_Add :: "GossipAgent \<Rightarrow> GossipAgent \<Rightarrow> connectionsList \<Rightarrow> connectionsList" where
  "connections_Add src dest cl = cl @ [(src, dest)]"

text \<open>\<open>connect\<close> is the outcome of \<open>src.Connect(dest)\<close> on a pair; the runner gets 5 items per routine
  and 50 routines at most.\<close>

abbreviation itemsPerRoutine :: int where "itemsPerRoutine \<equiv> 5"

abbreviation maxRoutines :: int where "maxRoutines \<equiv> 50"

definition ConnectAll ::
  "(GossipAgent \<times> GossipAgent \<Rightarrow> error option) \<Rightarrow> connectionsList \<Rightarrow> (int \<times> int) go \<Rightarrow> int list \<Rightarrow> bool" where
  "ConnectAll connect cl result calls \<longleftrightarrow>
     MultiRoutineRunner (int (length cl)) itemsPerRoutine maxRoutines (\<lambda>index. connect (cl ! nat index)) result calls"

section \<open>Connection lists as graphs\<close>

definition edge :: "GossipAgent \<times> GossipAgent \<Rightarrow> int set" where
  "edge c = {Port (fst c), Port (snd c)}"

definition joined :: "connectionsList \<Rightarrow> int \<Rightarrow> int \<Rightarrow> bool" where
  "joined cl p q \<longleftrightarrow> {p, q} \<in> edge ` set cl"

definition deg :: "connectionsList \<Rightarrow> int \<Rightarrow> nat" where
  "deg cl p = length (filter (\<lambda>c. p \<in> edge c) cl)"

definition simple_conns :: "GossipAgent list \<Rightarrow> connectionsList \<Rightarrow> bool" where
  "simple_conns peers cl \<longleftrightarrow> distinct (map edge cl) \<and>
     (\<forall>c \<in> set cl. fst c \<in> set peers \<and> snd c \<in> set peers \<and> Port (fst c) \<noteq> Port (snd c))"

definition link :: "connectionsList \<Rightarrow> (int \<times> int) set" where
  "link cl = {(p, q). joined cl p q}"

definition connected_on :: "int set \<Rightarrow> connectionsList \<Rightarrow> bool" where
  "connected_on P cl \<longleftrightarrow> (\<forall>p \<in> P. \<forall>q \<in> P. (p, q) \<in> (link cl)\<^sup>*)"

lemma joined_sym: "joined cl p q \<longleftrightarrow> joined cl q p"
  by (simp add: joined_def insert_commute)

lemma joined_append [simp]: "joined (xs @ ys) p q \<longleftrightarrow> joined xs p q \<or> joined ys p q"
  by (auto simp: joined_def)

lemma joined_single [simp]: "joined [(a, b)] p q \<longleftrightarrow> {p, q} = {Port a, Port b}"
  by (auto simp: joined_def edge_def)

lemma deg_append [simp]: "deg (xs @ ys) p = deg xs p + deg ys p"
  by (simp add: deg_def)

lemma deg_single [simp]: "deg [(a, b)] p = (if p = Port a \<or> p = Port b then 1 else 0)"
  by (simp add: deg_def edge_def)

lemma deg_Nil [simp]: "deg [] p = 0"
  by (simp add: deg_def)

lemma joined_Nil [simp]: "\<not> joined [] p q"
  by (simp add: joined_def)

lemma simple_conns_Nil [simp]: "simple_conns peers []"
  by (simp add: simple_conns_def)

lemma simple_conns_snoc:
  "simple_conns peers (cl @ [(a, b)]) \<longleftrightarrow> simple_conns peers cl \<and> a \<in> set peers \<and> b \<in> set peers \<and>
     Port a \<noteq> Port b \<and> \<not> joined cl (Port a) (Port b)"
  by (auto simp: simple_conns_def joined_def edge_def)

lemma simple_conns_joined:
  assumes "simple_conns peers cl" "joined cl p q"
  shows "p \<noteq> q \<and> p \<in> Port ` set peers \<and> q \<in> Port ` set peers"
proof -
  obtain c where c: "c \<in> set cl" "{p, q} = {Port (fst c), Port (snd c)}"
    using assms(2) by (auto simp: joined_def edge_def)
  then have "Port (fst c) \<noteq> Port (snd c)" "fst c \<in> set peers" "snd c \<in> set peers"
    using assms(1) by (auto simp: simple_conns_def)
  then show ?thesis
    using c(2) by (auto simp: doubleton_eq_iff)
qed

text \<open>In a simple list a port has at most as many connections as there are other peers.\<close>

lemma deg_le_peers:
  assumes "simple_conns peers cl"
  shows "deg cl p \<le> length peers"
proof -
  let ?es = "filter (\<lambda>e. p \<in> e) (map edge cl)"
  have "distinct ?es"
    using assms by (simp add: simple_conns_def)
  then have "card (set ?es) = length ?es"
    by (rule distinct_card)
  then have "deg cl p = card (set ?es)"
    by (simp add: deg_def filter_map comp_def)
  moreover have "set ?es \<subseteq> (\<lambda>q. {p, q}) ` Port ` set peers"
    using assms by (force simp: simple_conns_def edge_def)
  then have "card (set ?es) \<le> card ((\<lambda>q. {p, q}) ` Port ` set peers)"
    by (intro card_mono) auto
  moreover have "card ((\<lambda>q. {p, q}) ` Port ` set peers) \<le> length peers"
    by (meson card_image_le card_length finite_imageI finite_set order_trans)
  ultimately show ?thesis
    by simp
qed

lemma link_mono: "set xs \<subseteq> set ys \<Longrightarrow> link xs \<subseteq> link ys"
  by (auto simp: link_def joined_def)

lemma connected_on_mono: "connected_on P xs \<Longrightarrow> set xs \<subseteq> set ys \<Longrightarrow> connected_on P ys"
  unfolding connected_on_def using rtrancl_mono [OF link_mono] by blast

lemma link_sym: "sym (link cl)"
  by (auto simp: link_def joined_sym intro: symI)

lemma connected_on_star:
  assumes "\<And>p. p \<in> P \<Longrightarrow> (c, p) \<in> (link cl)\<^sup>*"
  shows "connected_on P cl"
proof -
  have "(p, c) \<in> (link cl)\<^sup>*" if "p \<in> P" for p
    using assms [OF that] sym_rtrancl [OF link_sym] by (meson symD)
  then show ?thesis
    using assms by (auto simp: connected_on_def intro: rtrancl_trans)
qed

text \<open>A list that joins each peer to the next one connects the peers.\<close>

lemma connected_on_path:
  assumes "\<And>i. Suc i < length ps \<Longrightarrow> joined cl (Port (ps ! i)) (Port (ps ! Suc i))"
  shows "connected_on (Port ` set ps) cl"
proof (cases "ps = []")
  case False
  have "(Port (ps ! 0), Port (ps ! i)) \<in> (link cl)\<^sup>*" if "i < length ps" for i
    using that
  proof (induction i)
    case (Suc i)
    then show ?case
      using assms [of i] by (auto simp: link_def intro: rtrancl_into_rtrancl)
  qed simp
  then show ?thesis
    by (intro connected_on_star) (auto simp: in_set_conv_nth)
qed (simp add: connected_on_def)

end
