(* ===== verification/RandomTopology.thy ===== *)
theory RandomTopology
  imports Connections
begin

text \<open>
  \<open>cluster/random_topology.go\<close>: \<open>RandomTopology.populate\<close>, which draws the connection list, and the
  bookkeeping record \<open>rndToplogyPeer\<close> it keeps per peer.

  Go's \<open>uint\<close> counters are \<^typ>\<open>64 word\<close>. \<open>peerMap\<close> is a map from port to record: the code holds
  pointers to records, each stored under its own port only, so an update through a pointer is an
  update of the map entry. \<open>rand.Intn(n)\<close> in the \<open>k\<close>-th call is \<open>r k mod n\<close> for an arbitrary function
  \<open>r\<close>: every sequence of draws is covered. The random loop is a \<open>go_while\<close>, so that not terminating
  is a possible outcome that has to be excluded by proof.

  The definitions follow the order of the source; the proofs are in the theory \<open>RandomTopologyProofs\<close>.
\<close>

section \<open>rndToplogyPeer\<close>

record rndToplogyPeer =
  connCount :: "64 word"
  portID :: int
  peer_agent :: GossipAgent
  possibleConns :: "int list"

text \<open>\<open>make([]int, 0, len(agents)-1)\<close> panics for an empty \<open>agents\<close>.\<close>

definition newRndTopologyPeer :: "int \<Rightarrow> GossipAgent \<Rightarrow> GossipAgent list \<Rightarrow> rndToplogyPeer go" where
  "newRndTopologyPeer port ag agents =
     (if agents = [] then Inl (InvalidArgument ''makeslice: cap out of range'')
      else Inr \<lparr>connCount = 0, portID = port, peer_agent = ag,
        possibleConns = map GetPort (filter (\<lambda>a. GetPort a \<noteq> port) agents)\<rparr>)"

definition IncConnCount :: "rndToplogyPeer \<Rightarrow> rndToplogyPeer go" where
  "IncConnCount tp = Inr (tp\<lparr>connCount := connCount tp + 1\<rparr>)"

definition RemoveIndex :: "nat \<Rightarrow> rndToplogyPeer \<Rightarrow> rndToplogyPeer go" where
  "RemoveIndex index tp =
     (if index < length (possibleConns tp)
      then Inr (tp\<lparr>possibleConns := swap_remove index (possibleConns tp)\<rparr>)
      else Inl IndexOutOfRange)"

function RemovePortId_from :: "nat \<Rightarrow> int \<Rightarrow> rndToplogyPeer \<Rightarrow> rndToplogyPeer go" where
  "RemovePortId_from i port tp =
     (if i < length (possibleConns tp)
      then if possibleConns tp ! i = port then RemoveIndex i tp else RemovePortId_from (Suc i) port tp
      else Inr tp)"
  by pat_completeness auto
termination
  by (relation "measure (\<lambda>(i, port, tp). length (possibleConns tp) - i)") auto

declare RemovePortId_from.simps [simp del]

definition RemovePortId :: "int \<Rightarrow> rndToplogyPeer \<Rightarrow> rndToplogyPeer go" where
  "RemovePortId port tp = RemovePortId_from 0 port tp"

text \<open>The result is the popped port (-1 when there is none), the record, and the number of draws so far.\<close>

definition PopRandomPortID :: "(nat \<Rightarrow> nat) \<Rightarrow> nat \<Rightarrow> rndToplogyPeer \<Rightarrow> (int \<times> rndToplogyPeer \<times> nat) go" where
  "PopRandomPortID r k tp =
     (if possibleConns tp = [] then Inr (-1, tp, k)
      else let index = r k mod length (possibleConns tp); val = possibleConns tp ! index
           in go_bind (RemoveIndex index tp) (\<lambda>tp'. Inr (val, tp', Suc k)))"

definition CanBeUsed :: "64 word \<Rightarrow> rndToplogyPeer \<Rightarrow> bool" where
  "CanBeUsed mx tp \<longleftrightarrow> length (possibleConns tp) > 0 \<and> connCount tp < mx"

section \<open>populate\<close>

record RandomTopology =
  MaxPeers :: "64 word"
  Count :: "64 word"
  CreateRing :: bool

record rt_state =
  rt_count :: "64 word"
  possiblePeers :: "GossipAgent list"
  peerMap :: "int \<rightharpoonup> rndToplogyPeer"
  connections :: connectionsList
  rt_rnd :: nat

text \<open>A method call through the pointer stored under \<open>port\<close>.\<close>

definition on_peer :: "int \<Rightarrow> (rndToplogyPeer \<Rightarrow> rndToplogyPeer go) \<Rightarrow> (int \<rightharpoonup> rndToplogyPeer) \<Rightarrow>
    (int \<rightharpoonup> rndToplogyPeer) go" where
  "on_peer port f pm = go_bind (deref (pm port)) (\<lambda>tp. go_bind (f tp) (\<lambda>tp'. Inr (pm(port \<mapsto> tp'))))"

primrec init_peerMap :: "GossipAgent list \<Rightarrow> GossipAgent list \<Rightarrow> (int \<rightharpoonup> rndToplogyPeer) \<Rightarrow>
    (int \<rightharpoonup> rndToplogyPeer) go" where
  "init_peerMap peers [] pm = Inr pm"
| "init_peerMap peers (a # as) pm =
     (case newRndTopologyPeer (GetPort a) a peers of Inl p \<Rightarrow> Inl p
      | Inr tp \<Rightarrow> init_peerMap peers as (pm(GetPort a \<mapsto> tp)))"

definition ring_step :: "nat \<Rightarrow> rt_state \<Rightarrow> rt_state go" where
  "ring_step i s =
     go_bind (slice_at (possiblePeers s) i) (\<lambda>src.
     go_bind (slice_at (possiblePeers s) ((i + 1) mod length (possiblePeers s))) (\<lambda>dst.
     go_bind (on_peer (GetPort src) (RemovePortId (GetPort dst)) (peerMap s)) (\<lambda>pm1.
     go_bind (on_peer (GetPort src) IncConnCount pm1) (\<lambda>pm2.
     go_bind (on_peer (GetPort dst) (RemovePortId (GetPort src)) pm2) (\<lambda>pm3.
     go_bind (on_peer (GetPort dst) IncConnCount pm3) (\<lambda>pm4.
       Inr (s\<lparr>peerMap := pm4, connections := connections_Add src dst (connections s),
              rt_count := rt_count s - 1\<rparr>)))))))"

function ring_loop :: "int \<Rightarrow> nat \<Rightarrow> rt_state \<Rightarrow> rt_state go" where
  "ring_loop stop i s =
     (if int i < stop \<and> rt_count s > 0
      then case ring_step i s of Inl p \<Rightarrow> Inl p | Inr s' \<Rightarrow> ring_loop stop (Suc i) s'
      else Inr s)"
  by pat_completeness auto
termination
  by (relation "measure (\<lambda>(stop, i, s). nat (stop - int i))") auto

declare ring_loop.simps [simp del]

definition make_ring :: "rt_state \<Rightarrow> rt_state go" where
  "make_ring s =
     (let stop = int (length (possiblePeers s)); stop = (if stop \<le> 2 then stop - 1 else stop)
      in ring_loop stop 0 s)"

text \<open>The in-place compaction of \<open>possiblePeers\<close> (lines 96 to 107).\<close>

function compact_loop :: "64 word \<Rightarrow> nat \<Rightarrow> nat \<Rightarrow> nat \<Rightarrow> GossipAgent list \<Rightarrow> (int \<rightharpoonup> rndToplogyPeer) \<Rightarrow>
    (GossipAgent list \<times> (int \<rightharpoonup> rndToplogyPeer)) go" where
  "compact_loop mx oldLength i newLength pp pm =
     (if i < oldLength
      then case slice_at pp i of Inl p \<Rightarrow> Inl p
        | Inr agentCont \<Rightarrow>
            (case deref (pm (GetPort agentCont)) of Inl p \<Rightarrow> Inl p
             | Inr peer \<Rightarrow>
                 if CanBeUsed mx peer
                 then compact_loop mx oldLength (Suc i) (Suc newLength) (pp[newLength := agentCont]) pm
                 else compact_loop mx oldLength (Suc i) newLength pp (pm(GetPort agentCont := None)))
      else Inr (take newLength pp, pm))"
  by pat_completeness auto
termination
  by (relation "measure (\<lambda>(mx, oldLength, i, newLength, pp, pm). oldLength - i)") auto

declare compact_loop.simps [simp del]

text \<open>One iteration of the random loop (lines 63 to 109), entered with a positive count and peers left.\<close>

definition populate_step :: "RandomTopology \<Rightarrow> (nat \<Rightarrow> nat) \<Rightarrow> rt_state \<Rightarrow> rt_state go" where
  "populate_step t r s =
     (let srcPeerIndex = r (rt_rnd s) mod length (possiblePeers s)
      in go_bind (slice_at (possiblePeers s) srcPeerIndex) (\<lambda>srcAgentCont.
         let srcPortID = GetPort srcAgentCont
         in go_bind (deref (peerMap s srcPortID)) (\<lambda>srcPeer.
            go_bind (PopRandomPortID r (Suc (rt_rnd s)) srcPeer) (\<lambda>(dstPortID, srcPeer, k).
              let s1 = s\<lparr>peerMap := (peerMap s)(srcPortID \<mapsto> srcPeer), rt_rnd := k\<rparr>
              in if (case peerMap s1 dstPortID of None \<Rightarrow> True | Some dstPeer \<Rightarrow> \<not> CanBeUsed (MaxPeers t) dstPeer)
                 then if \<not> CanBeUsed (MaxPeers t) srcPeer
                      then Inr (s1\<lparr>peerMap := (peerMap s1)(srcPortID := None),
                                   possiblePeers := swap_remove srcPeerIndex (possiblePeers s1)\<rparr>)
                      else Inr s1
                 else go_bind (on_peer dstPortID (RemovePortId srcPortID) (peerMap s1)) (\<lambda>pm1.
                      go_bind (on_peer srcPortID IncConnCount pm1) (\<lambda>pm2.
                      go_bind (on_peer dstPortID IncConnCount pm2) (\<lambda>pm3.
                      go_bind (deref (pm3 srcPortID)) (\<lambda>srcPeer.
                      go_bind (deref (pm3 dstPortID)) (\<lambda>dstPeer.
                        let s2 = s1\<lparr>peerMap := pm3, rt_count := rt_count s1 - 1,
                                    connections := connections_Add (peer_agent srcPeer) (peer_agent dstPeer) (connections s1)\<rparr>
                        in if \<not> CanBeUsed (MaxPeers t) srcPeer \<or> \<not> CanBeUsed (MaxPeers t) dstPeer
                           then go_bind (compact_loop (MaxPeers t) (length (possiblePeers s2)) 0 0
                                           (possiblePeers s2) (peerMap s2))
                                  (\<lambda>(pp, pm). Inr (s2\<lparr>possiblePeers := pp, peerMap := pm\<rparr>))
                           else Inr s2)))))))))"

definition populate_guard :: "rt_state \<Rightarrow> bool" where
  "populate_guard s \<longleftrightarrow> rt_count s > 0 \<and> length (possiblePeers s) > 0"

definition populate_loop :: "RandomTopology \<Rightarrow> (nat \<Rightarrow> nat) \<Rightarrow> rt_state \<Rightarrow> rt_state go option" where
  "populate_loop t r s = go_while populate_guard (populate_step t r) s"

definition populate :: "RandomTopology \<Rightarrow> (nat \<Rightarrow> nat) \<Rightarrow> nat \<Rightarrow> connectionsList \<Rightarrow> GossipAgent list \<Rightarrow>
    rt_state go option" where
  "populate t r k conns peers =
     (case init_peerMap peers peers Map.empty of Inl p \<Rightarrow> Some (Inl p)
      | Inr pm \<Rightarrow>
          let s = \<lparr>rt_count = Count t, possiblePeers = peers, peerMap = pm, connections = conns, rt_rnd = k\<rparr>
          in case (if CreateRing t then make_ring s else Inr s) of
               Inl p \<Rightarrow> Some (Inl p) | Inr s' \<Rightarrow> populate_loop t r s')"

end
