(* ===== verification/RandomTopologyProofs.thy ===== *)
theory RandomTopologyProofs
  imports RandomTopology
begin

text \<open>
  Correctness of \<open>RandomTopology.populate\<close>: for peers with distinct ports and every sequence of random
  draws it returns (no panic, no endless loop); the list it builds is a simple graph on the peers,
  within the degree bound and the connection count, saturated when the count is not used up, and
  connected when the ring is created.

  The proof follows the code: the effect of each \<open>rndToplogyPeer\<close> operation, then two relations
  between states that cover every path of the code (\<open>links\<close>, a pair is connected, and \<open>shrinks\<close>,
  candidates are dropped), the invariants under the two relations, and the loop.
\<close>

section \<open>Operations on one peer record\<close>

text \<open>\<open>tp'\<close> is \<open>tp\<close> with fewer candidates.\<close>

definition narrowed :: "rndToplogyPeer \<Rightarrow> rndToplogyPeer \<Rightarrow> int set \<Rightarrow> bool" where
  "narrowed tp tp' A \<longleftrightarrow> (\<exists>cs. tp' = tp\<lparr>possibleConns := cs\<rparr> \<and> distinct cs \<and> set cs = set (possibleConns tp) - A)"

lemma narrowedD:
  assumes "narrowed tp tp' A"
  shows "connCount tp' = connCount tp" "portID tp' = portID tp" "peer_agent tp' = peer_agent tp"
    "set (possibleConns tp') = set (possibleConns tp) - A" "distinct (possibleConns tp')"
  using assms unfolding narrowed_def by (elim exE conjE, simp)+

lemma narrowed_refl: "distinct (possibleConns tp) \<Longrightarrow> set (possibleConns tp) \<inter> A = {} \<Longrightarrow> narrowed tp tp A"
  unfolding narrowed_def by (intro exI [of _ "possibleConns tp"]) auto

lemma RemoveIndex_narrowed:
  assumes "i < length (possibleConns tp)" "distinct (possibleConns tp)"
  shows "\<exists>tp'. RemoveIndex i tp = Inr tp' \<and> narrowed tp tp' {possibleConns tp ! i}"
  using assms swap_remove_facts(2) [of i "possibleConns tp" id] swap_remove_facts(3) [of i "possibleConns tp"]
  by (auto simp: RemoveIndex_def narrowed_def)

lemma RemovePortId_from_narrowed:
  assumes "distinct (possibleConns tp)" "q \<notin> set (take i (possibleConns tp))"
  shows "\<exists>tp'. RemovePortId_from i q tp = Inr tp' \<and> narrowed tp tp' {q}"
  using assms
proof (induction i q tp rule: RemovePortId_from.induct)
  case (1 i q tp)
  show ?case
  proof (cases "i < length (possibleConns tp)")
    case True
    then show ?thesis
      using 1 RemoveIndex_narrowed [of i tp]
      by (cases "possibleConns tp ! i = q")
        (auto simp: RemovePortId_from.simps [of i q tp] take_Suc_conv_app_nth)
  next
    case False
    then show ?thesis
      using 1 by (auto simp: RemovePortId_from.simps [of i q tp] intro!: narrowed_refl)
  qed
qed

lemma RemovePortId_narrowed:
  "distinct (possibleConns tp) \<Longrightarrow> \<exists>tp'. RemovePortId q tp = Inr tp' \<and> narrowed tp tp' {q}"
  by (simp add: RemovePortId_def RemovePortId_from_narrowed)

lemma PopRandomPortID_narrowed:
  assumes "possibleConns tp \<noteq> []" "distinct (possibleConns tp)"
  shows "\<exists>q tp'. PopRandomPortID r k tp = Inr (q, tp', Suc k) \<and> q \<in> set (possibleConns tp) \<and> narrowed tp tp' {q}"
  using RemoveIndex_narrowed [of "r k mod length (possibleConns tp)" tp] assms
  by (fastforce simp: PopRandomPortID_def Let_def)

lemma CanBeUsed_iff: "CanBeUsed mx tp \<longleftrightarrow> possibleConns tp \<noteq> [] \<and> connCount tp < mx"
  by (simp add: CanBeUsed_def)

section \<open>The compaction loop\<close>

abbreviation usable :: "64 word \<Rightarrow> (int \<rightharpoonup> rndToplogyPeer) \<Rightarrow> int \<Rightarrow> bool" where
  "usable mx pm p \<equiv> (\<exists>tp. pm p = Some tp \<and> CanBeUsed mx tp)"

lemma compact_loop_filters:
  assumes "length pp = n" "m \<le> i" "i \<le> n" "distinct (map Port (drop i pp))"
    "\<forall>a \<in> set (drop i pp). pm (Port a) \<noteq> None"
  shows "\<exists>pm'. compact_loop mx n i m pp pm =
      Inr (take m pp @ filter (\<lambda>a. usable mx pm (Port a)) (drop i pp), pm') \<and>
      (\<forall>p. pm' p = (if p \<in> Port ` set (drop i pp) \<and> \<not> usable mx pm p then None else pm p))"
  using assms
proof (induction mx n i m pp pm rule: compact_loop.induct)
  case (1 mx n i m pp pm)
  show ?case
  proof (cases "i < n")
    case True
    let ?a = "pp ! i"
    have d: "drop i pp = ?a # drop (Suc i) pp"
      using True "1.prems" by (simp add: Cons_nth_drop_Suc)
    obtain tp where tp: "pm (Port ?a) = Some tp"
      using "1.prems"(5) by (auto simp: d)
    show ?thesis
    proof (cases "CanBeUsed mx tp")
      case use: True
      have "\<exists>pm'. compact_loop mx n (Suc i) (Suc m) (pp[m := ?a]) pm =
          Inr (take (Suc m) (pp[m := ?a]) @ filter (\<lambda>a. usable mx pm (Port a)) (drop (Suc i) (pp[m := ?a])), pm') \<and>
          (\<forall>p. pm' p = (if p \<in> Port ` set (drop (Suc i) (pp[m := ?a])) \<and> \<not> usable mx pm p then None else pm p))"
        using "1.prems" True use tp by (intro "1.IH"(1)) (auto simp: d)
      then obtain pm' where pm': "compact_loop mx n (Suc i) (Suc m) (pp[m := ?a]) pm =
          Inr (take m pp @ ?a # filter (\<lambda>a. usable mx pm (Port a)) (drop (Suc i) pp), pm')"
        "\<forall>p. pm' p = (if p \<in> Port ` set (drop (Suc i) pp) \<and> \<not> usable mx pm p then None else pm p)"
        using "1.prems" True by (auto simp: take_Suc_conv_app_nth)
      have "\<forall>p. pm' p = (if p \<in> Port ` set (drop i pp) \<and> \<not> usable mx pm p then None else pm p)"
        using pm'(2) use tp by (auto simp: d)
      then show ?thesis
        using pm'(1) True use tp "1.prems"
        by (auto simp: compact_loop.simps [of mx n i m pp pm] d)
    next
      case use: False
      let ?pm = "pm(Port ?a := None)"
      have ne: "Port a \<noteq> Port ?a" if "a \<in> set (drop (Suc i) pp)" for a
        using "1.prems"(4) imageI [OF that, of Port] by (auto simp: d)
      then have eq: "filter (\<lambda>a. usable mx ?pm (Port a)) (drop (Suc i) pp) =
          filter (\<lambda>a. usable mx pm (Port a)) (drop (Suc i) pp)"
        by (intro filter_cong) auto
      have "\<exists>pm'. compact_loop mx n (Suc i) m pp ?pm =
          Inr (take m pp @ filter (\<lambda>a. usable mx ?pm (Port a)) (drop (Suc i) pp), pm') \<and>
          (\<forall>p. pm' p = (if p \<in> Port ` set (drop (Suc i) pp) \<and> \<not> usable mx ?pm p then None else ?pm p))"
        using "1.prems" True use tp ne by (intro "1.IH"(2)) (auto simp: d)
      then obtain pm' where pm': "compact_loop mx n (Suc i) m pp ?pm =
          Inr (take m pp @ filter (\<lambda>a. usable mx pm (Port a)) (drop (Suc i) pp), pm')"
        "\<forall>p. pm' p = (if p \<in> Port ` set (drop (Suc i) pp) \<and> \<not> usable mx ?pm p then None else ?pm p)"
        unfolding eq by blast
      have "\<forall>p. pm' p = (if p \<in> Port ` set (drop i pp) \<and> \<not> usable mx pm p then None else pm p)"
        using pm'(2) use tp by (auto simp: d)
      then show ?thesis
        using pm'(1) True use tp "1.prems"
        by (auto simp: compact_loop.simps [of mx n i m pp pm] d)
    qed
  next
    case False
    then show ?thesis
      using "1.prems" by (intro exI [of _ pm]) (simp add: compact_loop.simps [of mx n n m pp pm])
  qed
qed

section \<open>Invariants of the population state\<close>

definition peer_ok :: "GossipAgent list \<Rightarrow> connectionsList \<Rightarrow> int \<Rightarrow> rndToplogyPeer \<Rightarrow> bool" where
  "peer_ok peers cl p tp \<longleftrightarrow> peer_agent tp \<in> set peers \<and> Port (peer_agent tp) = p \<and>
     distinct (possibleConns tp) \<and> set (possibleConns tp) \<subseteq> Port ` set peers - {p} \<and>
     (\<forall>q \<in> set (possibleConns tp). \<not> joined cl p q) \<and> unat (connCount tp) = deg cl p"

definition core_inv :: "GossipAgent list \<Rightarrow> rt_state \<Rightarrow> bool" where
  "core_inv peers s \<longleftrightarrow> distinct (map Port (possiblePeers s)) \<and> set (possiblePeers s) \<subseteq> set peers \<and>
     dom (peerMap s) = Port ` set (possiblePeers s) \<and>
     (\<forall>p tp. peerMap s p = Some tp \<longrightarrow> peer_ok peers (connections s) p tp) \<and>
     simple_conns peers (connections s)"

text \<open>The candidates still recorded for a port: none when its record is gone.\<close>

definition candidates :: "(int \<rightharpoonup> rndToplogyPeer) \<Rightarrow> int \<Rightarrow> int set" where
  "candidates pm p = (case pm p of None \<Rightarrow> {} | Some tp \<Rightarrow> set (possibleConns tp))"

text \<open>Two unconnected peers are candidates of each other, unless one of them has reached the maximum.\<close>

definition sat_inv :: "GossipAgent list \<Rightarrow> nat \<Rightarrow> rt_state \<Rightarrow> bool" where
  "sat_inv peers mx s \<longleftrightarrow>
     (\<forall>p \<in> Port ` set peers. \<forall>q \<in> Port ` set peers. p \<noteq> q \<longrightarrow> \<not> joined (connections s) p q \<longrightarrow>
        \<not> (q \<in> candidates (peerMap s) p \<and> p \<in> candidates (peerMap s) q) \<longrightarrow>
        mx \<le> deg (connections s) p \<or> mx \<le> deg (connections s) q)"

text \<open>The recorded peers are all below the maximum, or all at or above it (after a ring that already
  uses up \<open>MaxPeers\<close>).\<close>

definition uniform_inv :: "nat \<Rightarrow> rt_state \<Rightarrow> bool" where
  "uniform_inv mx s \<longleftrightarrow> (\<forall>p \<in> dom (peerMap s). deg (connections s) p < mx) \<or>
     (\<forall>p \<in> dom (peerMap s). mx \<le> deg (connections s) p)"

definition count_inv :: "RandomTopology \<Rightarrow> rt_state \<Rightarrow> bool" where
  "count_inv t s \<longleftrightarrow> unat (rt_count s) + length (connections s) = unat (Count t)"

lemma core_inv_lookup:
  assumes "core_inv peers s" "a \<in> set (possiblePeers s)"
  obtains tp where "peerMap s (Port a) = Some tp" "peer_ok peers (connections s) (Port a) tp"
  using assms by (auto simp: core_inv_def dom_def image_iff) blast

lemma core_inv_peer: "core_inv peers s \<Longrightarrow> peerMap s p = Some tp \<Longrightarrow> peer_ok peers (connections s) p tp"
  by (simp add: core_inv_def)

lemma peer_ok_narrowed: "peer_ok peers cl p tp \<Longrightarrow> narrowed tp tp' A \<Longrightarrow> peer_ok peers cl p tp'"
  by (auto simp: peer_ok_def dest: narrowedD)

subsection \<open>Dropping candidates\<close>

definition shrinks :: "rt_state \<Rightarrow> rt_state \<Rightarrow> bool" where
  "shrinks s s' \<longleftrightarrow> connections s' = connections s \<and> rt_count s' = rt_count s \<and>
     distinct (map Port (possiblePeers s')) \<and> set (possiblePeers s') \<subseteq> set (possiblePeers s) \<and>
     dom (peerMap s') = Port ` set (possiblePeers s') \<and>
     (\<forall>p tp'. peerMap s' p = Some tp' \<longrightarrow> (\<exists>tp A. peerMap s p = Some tp \<and> narrowed tp tp' A))"

lemma shrinks_dom: "shrinks s s' \<Longrightarrow> dom (peerMap s') \<subseteq> dom (peerMap s)"
  by (fastforce simp: shrinks_def)

lemma shrinks_candidates: "shrinks s s' \<Longrightarrow> candidates (peerMap s') p \<subseteq> candidates (peerMap s) p"
  by (fastforce simp: shrinks_def candidates_def dest: narrowedD split: option.splits)

lemma shrinks_core: "core_inv peers s \<Longrightarrow> shrinks s s' \<Longrightarrow> core_inv peers s'"
  unfolding core_inv_def shrinks_def using peer_ok_narrowed by (simp, blast)

lemma shrinks_count: "shrinks s s' \<Longrightarrow> count_inv t s \<Longrightarrow> count_inv t s'"
  by (simp add: shrinks_def count_inv_def)

lemma shrinks_uniform: "shrinks s s' \<Longrightarrow> uniform_inv mx s \<Longrightarrow> uniform_inv mx s'"
  using shrinks_dom [of s s'] unfolding shrinks_def uniform_inv_def by (metis subsetD)

text \<open>A pair may be dropped from the candidates once one of the two is at the maximum or once the pair
  was not mutual any more.\<close>

lemma shrinks_sat:
  assumes "shrinks s s'" "sat_inv peers mx s"
    and "\<And>p q. q \<in> candidates (peerMap s) p \<Longrightarrow> p \<in> candidates (peerMap s) q \<Longrightarrow>
      q \<notin> candidates (peerMap s') p \<Longrightarrow> mx \<le> deg (connections s) p \<or> mx \<le> deg (connections s) q"
  shows "sat_inv peers mx s'"
  using assms(1,2) unfolding sat_inv_def shrinks_def by (metis assms(3))

subsection \<open>Connecting a pair\<close>

definition linked_peer :: "rndToplogyPeer \<Rightarrow> int \<Rightarrow> rndToplogyPeer \<Rightarrow> bool" where
  "linked_peer tp q tp' \<longleftrightarrow> (\<exists>u. narrowed tp u {q} \<and> tp' = u\<lparr>connCount := connCount tp + 1\<rparr>)"

definition links :: "rt_state \<Rightarrow> rt_state \<Rightarrow> int \<Rightarrow> int \<Rightarrow> bool" where
  "links s s' p q \<longleftrightarrow> p \<noteq> q \<and> rt_count s \<noteq> 0 \<and> \<not> joined (connections s) p q \<and>
     rt_count s' = rt_count s - 1 \<and> possiblePeers s' = possiblePeers s \<and>
     (\<exists>tp tq tp' tq'. peerMap s p = Some tp \<and> peerMap s q = Some tq \<and>
        linked_peer tp q tp' \<and> linked_peer tq p tq' \<and> peerMap s' = (peerMap s)(p \<mapsto> tp', q \<mapsto> tq') \<and>
        connections s' = connections s @ [(peer_agent tp, peer_agent tq)])"

lemma linked_peerD:
  assumes "linked_peer tp q tp'"
  shows "connCount tp' = connCount tp + 1" "peer_agent tp' = peer_agent tp"
    "set (possibleConns tp') = set (possibleConns tp) - {q}" "distinct (possibleConns tp')"
  using assms unfolding linked_peer_def by (auto dest: narrowedD)

lemma links_core:
  assumes core: "core_inv peers s" and l: "links s s' p q" and small: "length peers < 2 ^ 63"
  shows "core_inv peers s'"
proof -
  from l obtain tp tq tp' tq' where *: "p \<noteq> q" "\<not> joined (connections s) p q" "peerMap s p = Some tp"
    "peerMap s q = Some tq" "linked_peer tp q tp'" "linked_peer tq p tq'"
    "peerMap s' = (peerMap s)(p \<mapsto> tp', q \<mapsto> tq')" "possiblePeers s' = possiblePeers s"
    "connections s' = connections s @ [(peer_agent tp, peer_agent tq)]"
    by (auto simp: links_def)
  have p: "peer_ok peers (connections s) p tp" and q: "peer_ok peers (connections s) q tq"
    using core * core_inv_peer by blast+
  then have ports: "Port (peer_agent tp) = p" "Port (peer_agent tq) = q"
    by (simp_all add: peer_ok_def)
  have simple: "simple_conns peers (connections s')"
    using core p q * by (simp add: simple_conns_snoc core_inv_def peer_ok_def)
  have grow: "unat (c + 1 :: 64 word) = deg (connections s) x + 1" if "unat c = deg (connections s) x" for c x
  proof -
    have "deg (connections s) x < 2 ^ 63"
      using deg_le_peers [of peers "connections s" x] small core by (simp add: core_inv_def)
    then show ?thesis
      using that by (simp add: unat_word_ariths)
  qed
  have "peer_ok peers (connections s') p tp'" "peer_ok peers (connections s') q tq'"
    using p q *(1,9) linked_peerD [OF *(5)] linked_peerD [OF *(6)] ports
    by (auto simp: peer_ok_def grow doubleton_eq_iff)
  moreover have "peer_ok peers (connections s') x u" if "peerMap s x = Some u" "x \<noteq> p" "x \<noteq> q" for x u
    using core_inv_peer [OF core that(1)] that(2,3) *(9) ports
    by (auto simp: peer_ok_def doubleton_eq_iff)
  ultimately have "\<forall>x u. peerMap s' x = Some u \<longrightarrow> peer_ok peers (connections s') x u"
    using * by auto
  moreover have "dom (peerMap s') = Port ` set (possiblePeers s')"
    using core * by (auto simp: core_inv_def)
  ultimately show ?thesis
    using core simple *(8) by (simp add: core_inv_def)
qed

lemma links_connections:
  assumes "core_inv peers s" "links s s' p q"
  obtains a b where "connections s' = connections s @ [(a, b)]" "Port a = p" "Port b = q"
  using assms core_inv_peer [OF assms(1)] unfolding links_def peer_ok_def by blast

lemma links_deg:
  assumes "core_inv peers s" "links s s' p q"
  shows "deg (connections s') x = deg (connections s) x + (if x = p \<or> x = q then 1 else 0)"
  using assms by (elim links_connections) auto

lemma links_dom: "links s s' p q \<Longrightarrow> dom (peerMap s') = dom (peerMap s)"
  by (auto simp: links_def split: if_splits)

lemma links_candidates:
  assumes "links s s' p q"
  shows "candidates (peerMap s') x =
    candidates (peerMap s) x - (if x = p then {q} else if x = q then {p} else {})"
  using assms unfolding links_def by (auto simp: candidates_def dest: linked_peerD(3))

lemma links_count:
  assumes "core_inv peers s" "links s s' p q" "count_inv t s"
  shows "count_inv t s'"
proof -
  have "unat (rt_count s - 1) = unat (rt_count s) - 1" "0 < unat (rt_count s)"
    using assms(2) by (auto simp: links_def unat_minus_one unat_gt_0)
  then show ?thesis
    using assms by (elim links_connections) (auto simp: links_def count_inv_def)
qed

lemma links_sat:
  assumes "core_inv peers s" "links s s' p q" "sat_inv peers mx s"
  shows "sat_inv peers mx s'"
proof -
  obtain a b where cl: "connections s' = connections s @ [(a, b)]" "Port a = p" "Port b = q"
    using links_connections [OF assms(1,2)] .
  show ?thesis
    unfolding sat_inv_def
  proof (intro ballI impI)
    fix x y
    assume *: "x \<in> Port ` set peers" "y \<in> Port ` set peers" "x \<noteq> y" "\<not> joined (connections s') x y"
      "\<not> (y \<in> candidates (peerMap s') x \<and> x \<in> candidates (peerMap s') y)"
    then have new: "{x, y} \<noteq> {p, q}" and old: "\<not> joined (connections s) x y"
      using cl by auto
    have "\<not> (y \<in> candidates (peerMap s) x \<and> x \<in> candidates (peerMap s) y)"
      using *(5) new by (auto simp: links_candidates [OF assms(2)] split: if_splits)
    then have "mx \<le> deg (connections s) x \<or> mx \<le> deg (connections s) y"
      using assms(3) *(1,2,3) old unfolding sat_inv_def by blast
    then show "mx \<le> deg (connections s') x \<or> mx \<le> deg (connections s') y"
      using cl(1) by auto
  qed
qed

subsection \<open>The termination measure\<close>

definition rank :: "rt_state \<Rightarrow> nat" where
  "rank s = (\<Sum>p \<in> dom (peerMap s). Suc (card (candidates (peerMap s) p)))"

lemma finite_candidates [simp]: "finite (candidates pm p)"
  by (simp add: candidates_def split: option.split)

lemma rank_mono:
  assumes "finite (dom (peerMap s))" "dom (peerMap s') \<subseteq> dom (peerMap s)"
    "\<And>p. candidates (peerMap s') p \<subseteq> candidates (peerMap s) p"
  shows "rank s' \<le> rank s"
proof -
  have "rank s' \<le> (\<Sum>p \<in> dom (peerMap s'). Suc (card (candidates (peerMap s) p)))"
    unfolding rank_def by (intro sum_mono) (simp add: assms(3) card_mono)
  also have "\<dots> \<le> rank s"
    unfolding rank_def using assms(1,2) by (intro sum_mono2) auto
  finally show ?thesis .
qed

lemma rank_less:
  assumes fin: "finite (dom (peerMap s))" and sub: "dom (peerMap s') \<subseteq> dom (peerMap s)"
    and cand: "\<And>p. candidates (peerMap s') p \<subseteq> candidates (peerMap s) p"
    and p: "p \<in> dom (peerMap s)" "p \<notin> dom (peerMap s') \<or> candidates (peerMap s') p \<noteq> candidates (peerMap s) p"
  shows "rank s' < rank s"
proof -
  let ?w = "\<lambda>x. if x \<in> dom (peerMap s') then Suc (card (candidates (peerMap s') x)) else 0"
  have "rank s' = (\<Sum>x \<in> dom (peerMap s). ?w x)"
    unfolding rank_def using fin sub by (subst sum.inter_restrict [symmetric]) (auto simp: Int_absorb1)
  also have "\<dots> < rank s"
    unfolding rank_def
  proof (rule sum_strict_mono_ex1 [OF fin])
    show "\<forall>x \<in> dom (peerMap s). ?w x \<le> Suc (card (candidates (peerMap s) x))"
      by (simp add: cand card_mono)
    have "?w p < Suc (card (candidates (peerMap s) p))"
      using p(2) cand [of p] by (auto intro: psubset_card_mono)
    then show "\<exists>x \<in> dom (peerMap s). ?w x < Suc (card (candidates (peerMap s) x))"
      using p(1) by blast
  qed
  finally show ?thesis .
qed

lemma core_inv_finite: "core_inv peers s \<Longrightarrow> finite (dom (peerMap s))"
  by (simp add: core_inv_def)

lemma shrinks_rank: "core_inv peers s \<Longrightarrow> shrinks s s' \<Longrightarrow> rank s' \<le> rank s"
  by (intro rank_mono core_inv_finite shrinks_dom shrinks_candidates)

lemma links_rank:
  assumes "core_inv peers s" "links s s' p q" "q \<in> candidates (peerMap s) p"
  shows "rank s' < rank s"
proof (rule rank_less)
  show "p \<in> dom (peerMap s)"
    using assms(2) by (auto simp: links_def)
  show "p \<notin> dom (peerMap s') \<or> candidates (peerMap s') p \<noteq> candidates (peerMap s) p"
    using assms(3) by (auto simp: links_candidates [OF assms(2)])
qed (use assms in \<open>auto simp: links_dom links_candidates core_inv_finite\<close>)

section \<open>One iteration of the random loop\<close>

lemma PopRandomPortID_total:
  assumes "distinct (possibleConns tp)"
  obtains d tp' k' where "PopRandomPortID r k tp = Inr (d, tp', k')" "narrowed tp tp' {d}"
    "d \<in> set (possibleConns tp) \<or> possibleConns tp = [] \<and> d = -1"
proof (cases "possibleConns tp = []")
  case True
  then show ?thesis
    using that [of "-1" tp k] by (simp add: PopRandomPortID_def narrowed_refl)
next
  case False
  then show ?thesis
    using PopRandomPortID_narrowed [OF False assms] that by blast
qed

text \<open>An iteration that connects nothing: the drawn candidate is dropped, and the source too when it is of
  no more use.\<close>

definition popped :: "64 word \<Rightarrow> rt_state \<Rightarrow> rt_state \<Rightarrow> bool" where
  "popped mx s s' \<longleftrightarrow> (\<exists>i d tp tp'. i < length (possiblePeers s) \<and>
     peerMap s (Port (possiblePeers s ! i)) = Some tp \<and> narrowed tp tp' {d} \<and> \<not> usable mx (peerMap s) d \<and>
     rt_count s' = rt_count s \<and> connections s' = connections s \<and>
     (if CanBeUsed mx tp' then d \<in> set (possibleConns tp) \<and> possiblePeers s' = possiblePeers s \<and>
        peerMap s' = (peerMap s)(Port (possiblePeers s ! i) \<mapsto> tp')
      else possiblePeers s' = swap_remove i (possiblePeers s) \<and>
        peerMap s' = (peerMap s)(Port (possiblePeers s ! i) := None)))"

definition compacted :: "64 word \<Rightarrow> rt_state \<Rightarrow> rt_state \<Rightarrow> bool" where
  "compacted mx s s' \<longleftrightarrow> (\<exists>pm. s' = s\<lparr>possiblePeers := filter (\<lambda>a. usable mx (peerMap s) (Port a)) (possiblePeers s),
     peerMap := pm\<rparr> \<and>
     (\<forall>p. pm p = (if p \<in> Port ` set (possiblePeers s) \<and> \<not> usable mx (peerMap s) p then None else peerMap s p)))"

lemma usable_deg:
  assumes "core_inv peers s" "peerMap s p = Some tp"
  shows "CanBeUsed mx tp \<longleftrightarrow> candidates (peerMap s) p \<noteq> {} \<and> deg (connections s) p < unat mx"
  using core_inv_peer [OF assms] assms(2)
  by (simp add: CanBeUsed_iff candidates_def peer_ok_def word_less_nat_alt)

lemma core_inv_swap_remove:
  assumes "core_inv peers s" "i < length (possiblePeers s)"
  shows "Port ` set (swap_remove i (possiblePeers s)) = dom (peerMap s) - {Port (possiblePeers s ! i)}"
    and "distinct (map Port (swap_remove i (possiblePeers s)))"
    and "set (swap_remove i (possiblePeers s)) \<subseteq> set (possiblePeers s)"
proof -
  have d: "distinct (map Port (possiblePeers s))" and "dom (peerMap s) = Port ` set (possiblePeers s)"
    using assms(1) by (simp_all add: core_inv_def)
  moreover have inj: "inj_on Port (set (possiblePeers s))"
    using d by (simp add: distinct_map)
  moreover have "set (swap_remove i (possiblePeers s)) = set (possiblePeers s) - {possiblePeers s ! i}"
    using d assms(2) by (intro swap_remove_facts) (auto simp: distinct_map)
  ultimately show "Port ` set (swap_remove i (possiblePeers s)) = dom (peerMap s) - {Port (possiblePeers s ! i)}"
    "set (swap_remove i (possiblePeers s)) \<subseteq> set (possiblePeers s)"
    using assms(2) by (auto simp: inj_on_image_set_diff)
  show "distinct (map Port (swap_remove i (possiblePeers s)))"
    using d assms(2) by (intro swap_remove_facts)
qed

lemma popped_facts:
  assumes core: "core_inv peers s" and pop: "popped mx s s'"
  shows popped_shrinks: "shrinks s s'" and popped_rank: "rank s' < rank s"
    and popped_sat: "sat_inv peers (unat mx) s \<Longrightarrow> sat_inv peers (unat mx) s'"
proof -
  from pop obtain i d tp tp' where i: "i < length (possiblePeers s)"
    and tp: "peerMap s (Port (possiblePeers s ! i)) = Some tp" "narrowed tp tp' {d}" "\<not> usable mx (peerMap s) d"
    and same: "rt_count s' = rt_count s" "connections s' = connections s"
    and s': "if CanBeUsed mx tp' then d \<in> set (possibleConns tp) \<and> possiblePeers s' = possiblePeers s \<and>
        peerMap s' = (peerMap s)(Port (possiblePeers s ! i) \<mapsto> tp')
      else possiblePeers s' = swap_remove i (possiblePeers s) \<and>
        peerMap s' = (peerMap s)(Port (possiblePeers s ! i) := None)"
    unfolding popped_def by blast
  let ?p = "Port (possiblePeers s ! i)"
  have all: "\<exists>A. narrowed u u A" if "peerMap s x = Some u" for x u
    using core_inv_peer [OF core that] narrowed_refl [of u "{}"] by (auto simp: peer_ok_def)
  have doms: "dom (peerMap s) = Port ` set (possiblePeers s)" "distinct (map Port (possiblePeers s))" "?p \<in> dom (peerMap s)"
    using core tp(1) by (auto simp: core_inv_def)
  show sh: "shrinks s s'"
  proof (cases "CanBeUsed mx tp'")
    case True
    then show ?thesis
      using s' same doms tp all by (auto simp: shrinks_def)
  next
    case False
    then show ?thesis
      using s' same all core_inv_swap_remove [OF core i] by (auto simp: shrinks_def)
  qed
  show "rank s' < rank s"
  proof (rule rank_less)
    show "?p \<notin> dom (peerMap s') \<or> candidates (peerMap s') ?p \<noteq> candidates (peerMap s) ?p"
      using s' tp narrowedD(4) [OF tp(2)] by (auto simp: candidates_def split: if_splits)
  qed (use core_inv_finite [OF core] shrinks_dom [OF sh] shrinks_candidates [OF sh] doms(3) in blast)+
  assume "sat_inv peers (unat mx) s"
  then show "sat_inv peers (unat mx) s'"
  proof (rule shrinks_sat [OF sh])
    fix x y
    assume xy: "y \<in> candidates (peerMap s) x" "x \<in> candidates (peerMap s) y" "y \<notin> candidates (peerMap s') x"
    then have x: "x = ?p"
      using s' by (auto simp: candidates_def split: if_splits)
    show "unat mx \<le> deg (connections s) x \<or> unat mx \<le> deg (connections s) y"
    proof (cases "y = d")
      case True
      then show ?thesis
        using xy(2) tp(3) usable_deg [OF core, of d _ mx] by (force simp: candidates_def split: option.splits)
    next
      case False
      then have y: "y \<in> set (possibleConns tp')"
        using xy(1) x tp narrowedD(4) [OF tp(2)] by (simp add: candidates_def)
      then have "\<not> CanBeUsed mx tp'"
        using xy(3) x s' by (auto simp: candidates_def)
      then have "\<not> connCount tp < mx"
        using y narrowedD(1) [OF tp(2)] by (auto simp: CanBeUsed_iff)
      then show ?thesis
        using core_inv_peer [OF core tp(1)] x by (auto simp: peer_ok_def word_less_nat_alt)
    qed
  qed
qed

lemma compacted_facts:
  assumes core: "core_inv peers s" and c: "compacted mx s s'"
  shows compacted_shrinks: "shrinks s s'"
    and compacted_sat: "sat_inv peers (unat mx) s \<Longrightarrow> sat_inv peers (unat mx) s'"
    and compacted_uniform: "uniform_inv (unat mx) s'"
proof -
  from c obtain pm where s': "s' = s\<lparr>possiblePeers := filter (\<lambda>a. usable mx (peerMap s) (Port a)) (possiblePeers s),
     peerMap := pm\<rparr>"
    and pm: "\<And>p. pm p = (if p \<in> Port ` set (possiblePeers s) \<and> \<not> usable mx (peerMap s) p then None else peerMap s p)"
    unfolding compacted_def by blast
  have dom: "dom (peerMap s) = Port ` set (possiblePeers s)"
    using core by (simp add: core_inv_def)
  then have eq: "pm p = (if usable mx (peerMap s) p then peerMap s p else None)" for p
    using pm [of p] by (cases "peerMap s p") auto
  have all: "\<exists>A. narrowed u u A" if "peerMap s x = Some u" for x u
    using core_inv_peer [OF core that] narrowed_refl [of u "{}"] by (auto simp: peer_ok_def)
  have "distinct (map Port (possiblePeers s'))"
    using core s' by (simp add: core_inv_def distinct_map_filter)
  moreover have "dom pm = Port ` set (possiblePeers s')"
  proof -
    have "dom pm = {p \<in> dom (peerMap s). usable mx (peerMap s) p}"
      by (auto simp: eq split: if_splits)
    then show ?thesis
      unfolding dom using s' by auto
  qed
  ultimately show sh: "shrinks s s'"
    using s' all by (auto simp: shrinks_def eq split: if_splits)
  show "sat_inv peers (unat mx) s'" if "sat_inv peers (unat mx) s"
  proof (rule shrinks_sat [OF sh that])
    fix x y
    assume "y \<in> candidates (peerMap s) x" "x \<in> candidates (peerMap s) y" "y \<notin> candidates (peerMap s') x"
    then show "unat mx \<le> deg (connections s) x \<or> unat mx \<le> deg (connections s) y"
      using usable_deg [OF core, of x _ mx] s' by (auto simp: candidates_def eq split: if_splits option.splits)
  qed
  show "uniform_inv (unat mx) s'"
    using s' usable_deg [OF core, of _ _ mx] by (auto simp: uniform_inv_def eq split: if_splits)
qed

lemma compactedI:
  assumes "\<forall>p. pm p = (if p \<in> Port ` set (possiblePeers s) \<and> \<not> usable mx (peerMap s) p then None else peerMap s p)"
  shows "compacted mx s (s\<lparr>possiblePeers := filter (\<lambda>a. usable mx (peerMap s) (Port a)) (possiblePeers s), peerMap := pm\<rparr>)"
  unfolding compacted_def by (rule exI [of _ pm]) (simp only: assms simp_thms)

lemma compact_loop_compacted:
  assumes "core_inv peers s"
  obtains pp pm where "compact_loop mx (length (possiblePeers s)) 0 0 (possiblePeers s) (peerMap s) = Inr (pp, pm)"
    "compacted mx s (s\<lparr>possiblePeers := pp, peerMap := pm\<rparr>)"
proof -
  have "\<forall>a \<in> set (possiblePeers s). peerMap s (Port a) \<noteq> None"
    using assms by (auto simp: core_inv_def dom_def image_iff)
  moreover have "distinct (map Port (possiblePeers s))"
    using assms by (simp add: core_inv_def)
  ultimately obtain pm where "compact_loop mx (length (possiblePeers s)) 0 0 (possiblePeers s) (peerMap s) =
      Inr (filter (\<lambda>a. usable mx (peerMap s) (Port a)) (possiblePeers s), pm)"
    "\<forall>p. pm p = (if p \<in> Port ` set (possiblePeers s) \<and> \<not> usable mx (peerMap s) p then None else peerMap s p)"
    using compact_loop_filters [of "possiblePeers s" _ 0 0 "peerMap s" mx] by auto
  then show ?thesis
    by (rule that [OF _ compactedI])
qed

text \<open>What an iteration does: it drops a candidate, or it connects a usable peer to one of its candidates,
  with or without a compaction after it.\<close>

definition connects :: "64 word \<Rightarrow> rt_state \<Rightarrow> rt_state \<Rightarrow> bool" where
  "connects mx s s' \<longleftrightarrow> (\<exists>s1 p q. links s s1 p q \<and> q \<in> candidates (peerMap s) p \<and> usable mx (peerMap s) q \<and>
     (if usable mx (peerMap s1) p \<and> usable mx (peerMap s1) q then s' = s1 else compacted mx s1 s'))"

lemma connectsI:
  "links s s' p q \<Longrightarrow> q \<in> candidates (peerMap s) p \<Longrightarrow> usable mx (peerMap s) q \<Longrightarrow>
   usable mx (peerMap s') p \<Longrightarrow> usable mx (peerMap s') q \<Longrightarrow> connects mx s s'"
  unfolding connects_def by (intro exI [of _ s'] exI [of _ p] exI [of _ q]) simp

lemma connects_compactedI:
  "links s s1 p q \<Longrightarrow> q \<in> candidates (peerMap s) p \<Longrightarrow> usable mx (peerMap s) q \<Longrightarrow>
   \<not> (usable mx (peerMap s1) p \<and> usable mx (peerMap s1) q) \<Longrightarrow> compacted mx s1 s' \<Longrightarrow> connects mx s s'"
  unfolding connects_def by (intro exI [of _ s1] exI [of _ p] exI [of _ q]) (simp only: if_False simp_thms)

lemma on_peer_Some [simp]:
  "pm p = Some tp \<Longrightarrow> on_peer p f pm = go_bind (f tp) (\<lambda>tp'. Inr (pm(p \<mapsto> tp')))"
  by (simp add: on_peer_def)

lemma populate_step_outcome:
  assumes core: "core_inv peers s" and guard: "populate_guard s" and nonneg: "\<forall>a \<in> set peers. 0 \<le> Port a"
    and small: "length peers < 2 ^ 63"
  shows "\<exists>s'. populate_step t r s = Inr s' \<and> (popped (MaxPeers t) s s' \<or> connects (MaxPeers t) s s')"
proof -
  let ?i = "r (rt_rnd s) mod length (possiblePeers s)"
  let ?p = "Port (possiblePeers s ! ?i)"
  have i: "?i < length (possiblePeers s)"
    using guard by (simp add: populate_guard_def)
  then obtain tp where tp: "peerMap s ?p = Some tp" "peer_ok peers (connections s) ?p tp"
    using core_inv_lookup [OF core nth_mem] by blast
  then obtain d tp' k where pop: "PopRandomPortID r (Suc (rt_rnd s)) tp = Inr (d, tp', k)" "narrowed tp tp' {d}"
    "d \<in> set (possibleConns tp) \<or> possibleConns tp = [] \<and> d = -1"
    using PopRandomPortID_total [of tp r "Suc (rt_rnd s)"] unfolding peer_ok_def by blast
  have "d \<noteq> ?p"
    using pop(3) tp(2) nonneg core i by (force simp: peer_ok_def core_inv_def)
  note step = populate_step_def Let_def i tp(1) pop(1) \<open>d \<noteq> ?p\<close>
  show ?thesis
  proof (cases "usable (MaxPeers t) (peerMap s) d")
    case False
    then have "case peerMap s d of None \<Rightarrow> True | Some dstPeer \<Rightarrow> \<not> CanBeUsed (MaxPeers t) dstPeer"
      by (auto split: option.split)
    moreover have "d \<in> set (possibleConns tp)" if "CanBeUsed (MaxPeers t) tp'"
    proof -
      have "possibleConns tp' \<noteq> []"
        using that by (simp add: CanBeUsed_iff)
      then have "set (possibleConns tp) \<noteq> {}"
        using narrowedD(4) [OF pop(2)] by fastforce
      then show ?thesis
        using pop(3) by simp
    qed
    moreover define s' where "s' = (if CanBeUsed (MaxPeers t) tp' then s\<lparr>peerMap := (peerMap s)(?p \<mapsto> tp'), rt_rnd := k\<rparr>
      else s\<lparr>peerMap := (peerMap s)(?p := None), rt_rnd := k, possiblePeers := swap_remove ?i (possiblePeers s)\<rparr>)"
    ultimately have s': "populate_step t r s = Inr s'" "rt_count s' = rt_count s"
      "connections s' = connections s"
      "if CanBeUsed (MaxPeers t) tp' then d \<in> set (possibleConns tp) \<and> possiblePeers s' = possiblePeers s \<and>
         peerMap s' = (peerMap s)(?p \<mapsto> tp')
       else possiblePeers s' = swap_remove ?i (possiblePeers s) \<and> peerMap s' = (peerMap s)(?p := None)"
      by (simp_all add: step)
    have "popped (MaxPeers t) s s'"
      unfolding popped_def by (intro exI conjI) (fact i tp(1) pop(2) False s')+
    then show ?thesis
      using s'(1) by blast
  next
    case True
    then obtain tq where tq: "peerMap s d = Some tq" "CanBeUsed (MaxPeers t) tq"
      by blast
    obtain tq1 where tq1: "RemovePortId ?p tq = Inr tq1" "narrowed tq tq1 {?p}"
      using RemovePortId_narrowed core_inv_peer [OF core tq(1)] unfolding peer_ok_def by blast
    let ?tp = "tp'\<lparr>connCount := connCount tp' + 1\<rparr>" and ?tq = "tq1\<lparr>connCount := connCount tq1 + 1\<rparr>"
    let ?s = "s\<lparr>peerMap := (peerMap s)(?p \<mapsto> ?tp, d \<mapsto> ?tq), rt_rnd := k, rt_count := rt_count s - 1,
      connections := connections s @ [(peer_agent tp, peer_agent tq)]\<rparr>"
    have d: "d \<in> candidates (peerMap s) ?p" "\<not> joined (connections s) ?p d"
      using pop(3) tq(1) tp core nonneg by (force simp: candidates_def peer_ok_def core_inv_def)+
    have l: "links s ?s ?p d"
      using \<open>d \<noteq> ?p\<close> d(2) guard tp(1) tq(1) pop(2) tq1(2)
      by (auto simp: links_def populate_guard_def linked_peer_def narrowedD(1) intro!: exI)
    have run: "populate_step t r s =
      (if \<not> CanBeUsed (MaxPeers t) ?tp \<or> \<not> CanBeUsed (MaxPeers t) ?tq
       then go_bind (compact_loop (MaxPeers t) (length (possiblePeers ?s)) 0 0 (possiblePeers ?s) (peerMap ?s))
         (\<lambda>(pp, pm). Inr (?s\<lparr>possiblePeers := pp, peerMap := pm\<rparr>)) else Inr ?s)"
      using tq tq1(1) narrowedD(3) [OF pop(2)] narrowedD(3) [OF tq1(2)]
      by (simp add: step not_sym [OF \<open>d \<noteq> ?p\<close>] IncConnCount_def connections_Add_def
          fun_upd_twist [OF \<open>d \<noteq> ?p\<close>] del: go_bind_Inr_iff)
    have u: "usable (MaxPeers t) (peerMap ?s) ?p \<longleftrightarrow> CanBeUsed (MaxPeers t) ?tp"
      "usable (MaxPeers t) (peerMap ?s) d \<longleftrightarrow> CanBeUsed (MaxPeers t) ?tq"
      using \<open>d \<noteq> ?p\<close> by simp_all
    show ?thesis
    proof (cases "CanBeUsed (MaxPeers t) ?tp \<and> CanBeUsed (MaxPeers t) ?tq")
      case both: True
      then show ?thesis
        using connectsI [OF l d(1) True] u run by auto
    next
      case False
      obtain pp pm where pp: "compact_loop (MaxPeers t) (length (possiblePeers ?s)) 0 0 (possiblePeers ?s) (peerMap ?s) = Inr (pp, pm)"
        "compacted (MaxPeers t) ?s (?s\<lparr>possiblePeers := pp, peerMap := pm\<rparr>)"
        using compact_loop_compacted [OF links_core [OF core l small]] .
      then have "connects (MaxPeers t) s (?s\<lparr>possiblePeers := pp, peerMap := pm\<rparr>)"
        using False u by (intro connects_compactedI [OF l d(1) True]) blast+
      then show ?thesis
        using False pp(1) run by auto
    qed
  qed
qed

section \<open>The random loop\<close>

text \<open>What \<open>populate\<close> needs of its peers: distinct ports, none of them the sentinel -1 of
  \<open>PopRandomPortID\<close>. A Go slice has fewer than 2^63 elements.\<close>

definition peers_ok :: "GossipAgent list \<Rightarrow> bool" where
  "peers_ok peers \<longleftrightarrow> distinct (map Port peers) \<and> (\<forall>a \<in> set peers. 0 \<le> Port a) \<and> length peers < 2 ^ 63"

text \<open>The ring is laid without regard to \<open>MaxPeers\<close> and gives every peer up to two connections.\<close>

definition degree_bound :: "RandomTopology \<Rightarrow> nat" where
  "degree_bound t = max (unat (MaxPeers t)) (if CreateRing t then 2 else 0)"

definition loop_inv :: "RandomTopology \<Rightarrow> connectionsList \<Rightarrow> GossipAgent list \<Rightarrow> rt_state \<Rightarrow> bool" where
  "loop_inv t base peers s \<longleftrightarrow> peers_ok peers \<and> core_inv peers s \<and> sat_inv peers (unat (MaxPeers t)) s \<and>
     count_inv t s \<and> (rt_count s \<noteq> 0 \<longrightarrow> uniform_inv (unat (MaxPeers t)) s) \<and>
     (\<forall>p. deg (connections s) p \<le> degree_bound t) \<and> (\<exists>more. connections s = base @ more)"

lemma loop_inv_popped:
  assumes "loop_inv t base peers s" "popped (MaxPeers t) s s'"
  shows "loop_inv t base peers s'"
proof -
  have core: "core_inv peers s" and sh: "shrinks s s'"
    using assms popped_shrinks by (auto simp: loop_inv_def)
  then show ?thesis
    using assms popped_sat [OF core assms(2)] shrinks_core [OF core sh] shrinks_count [OF sh] shrinks_uniform [OF sh]
    by (simp add: loop_inv_def shrinks_def)
qed

lemma loop_inv_connects:
  assumes inv: "loop_inv t base peers s" and guard: "populate_guard s" and "connects (MaxPeers t) s s'"
  shows "loop_inv t base peers s'"
proof -
  let ?mx = "unat (MaxPeers t)"
  obtain s1 p q where l: "links s s1 p q" and q: "usable (MaxPeers t) (peerMap s) q"
    and s': "if usable (MaxPeers t) (peerMap s1) p \<and> usable (MaxPeers t) (peerMap s1) q then s' = s1
      else compacted (MaxPeers t) s1 s'"
    using assms(3) unfolding connects_def by blast
  have core: "core_inv peers s" and small: "length peers < 2 ^ 63" and "uniform_inv ?mx s"
    using inv guard by (auto simp: loop_inv_def peers_ok_def populate_guard_def)
  then have below: "\<forall>x \<in> dom (peerMap s). deg (connections s) x < ?mx"
    using q usable_deg [OF core, of q _ "MaxPeers t"] by (force simp: uniform_inv_def)
  have core1: "core_inv peers s1"
    by (rule links_core [OF core l small])
  have "p \<in> dom (peerMap s)" "q \<in> dom (peerMap s)"
    using l by (auto simp: links_def)
  then have "deg (connections s1) x \<le> degree_bound t" for x
    using inv below links_deg [OF core l, of x] by (auto simp: loop_inv_def degree_bound_def Suc_le_eq less_max_iff_disj)
  moreover have "\<exists>more. connections s1 = base @ more"
    using inv links_connections [OF core l] unfolding loop_inv_def by (metis append.assoc)
  ultimately have inv1: "loop_inv t base peers s1" if "uniform_inv ?mx s1"
    using inv that core1 links_sat [OF core l] links_count [OF core l] by (simp add: loop_inv_def)
  show ?thesis
  proof (cases "usable (MaxPeers t) (peerMap s1) p \<and> usable (MaxPeers t) (peerMap s1) q")
    case True
    then have "uniform_inv ?mx s1"
      using below usable_deg [OF core1, of _ _ "MaxPeers t"] links_deg [OF core l] links_dom [OF l]
      by (fastforce simp: uniform_inv_def)
    then show ?thesis
      using s' True inv1 by simp
  next
    case False
    then have "compacted (MaxPeers t) s1 s'"
      using s' by presburger
    note c = compacted_facts [OF core1 this]
    show ?thesis
      using inv links_sat [OF core l] links_count [OF core l] shrinks_core [OF core1 c(1)] shrinks_count [OF c(1)] c
        \<open>\<And>x. deg (connections s1) x \<le> degree_bound t\<close> \<open>\<exists>more. connections s1 = base @ more\<close>
      by (simp add: loop_inv_def shrinks_def)
  qed
qed

lemma connects_rank:
  assumes core: "core_inv peers s" and small: "length peers < 2 ^ 63" and "connects mx s s'"
  shows "rank s' < rank s"
proof -
  obtain s1 p q where l: "links s s1 p q" "q \<in> candidates (peerMap s) p" and s': "s' = s1 \<or> compacted mx s1 s'"
    using assms(3) unfolding connects_def by metis
  have "rank s1 < rank s"
    by (rule links_rank [OF core l])
  moreover have "rank s' \<le> rank s1"
    using s' links_core [OF core l(1) small] compacted_shrinks shrinks_rank by blast
  ultimately show ?thesis
    by simp
qed

interpretation populate: ranked_loop populate_guard "populate_step t r" "loop_inv t base peers" rank
  for t r base peers
proof
  fix s
  assume inv: "loop_inv t base peers s" and guard: "populate_guard s"
  then have core: "core_inv peers s" and small: "length peers < 2 ^ 63"
    by (simp_all add: loop_inv_def peers_ok_def)
  have out: "\<exists>s'. populate_step t r s = Inr s' \<and> (popped (MaxPeers t) s s' \<or> connects (MaxPeers t) s s')"
    using inv by (intro populate_step_outcome [OF core guard _ small]) (simp add: loop_inv_def peers_ok_def)
  then show "\<exists>s'. populate_step t r s = Inr s'"
    by blast
  fix s'
  assume "populate_step t r s = Inr s'"
  with out have "popped (MaxPeers t) s s' \<or> connects (MaxPeers t) s s'"
    by simp
  then show "loop_inv t base peers s'" "rank s' < rank s"
    using loop_inv_popped [OF inv] loop_inv_connects [OF inv guard] popped_rank [OF core] connects_rank [OF core small]
    by blast+
qed

section \<open>Initialisation and the ring\<close>

lemma init_peerMap_result:
  assumes "peers \<noteq> []"
  shows "\<exists>pm'. init_peerMap peers as pm = Inr pm' \<and>
    (\<forall>p. pm' p = (if p \<in> Port ` set as then Some \<lparr>connCount = 0, portID = p, peer_agent = last (filter (\<lambda>a. Port a = p) as),
        possibleConns = map Port (filter (\<lambda>a. Port a \<noteq> p) peers)\<rparr> else pm p))"
proof (induction as arbitrary: pm)
  case (Cons a as)
  let ?tp = "\<lparr>connCount = 0, portID = Port a, peer_agent = a,
        possibleConns = map Port (filter (\<lambda>b. Port b \<noteq> Port a) peers)\<rparr>"
  obtain pm' where run: "init_peerMap peers as (pm(Port a \<mapsto> ?tp)) = Inr pm'" and
    "\<And>p. pm' p = (if p \<in> Port ` set as then Some \<lparr>connCount = 0, portID = p, peer_agent = last (filter (\<lambda>a. Port a = p) as),
        possibleConns = map Port (filter (\<lambda>a. Port a \<noteq> p) peers)\<rparr> else (pm(Port a \<mapsto> ?tp)) p)"
    using Cons.IH by blast
  note at = this(2)
  have "filter (\<lambda>a. Port a = p) as = [] \<longleftrightarrow> p \<notin> Port ` set as" for p
    by (auto simp: filter_empty_conv)
  then have "pm' p = (if p \<in> Port ` set (a # as) then Some \<lparr>connCount = 0, portID = p,
      peer_agent = last (filter (\<lambda>a. Port a = p) (a # as)),
      possibleConns = map Port (filter (\<lambda>a. Port a \<noteq> p) peers)\<rparr> else pm p)" for p
    by (simp add: at)
  then show ?case
    using run assms by (simp add: newRndTopologyPeer_def)
qed simp

definition start_state :: "RandomTopology \<Rightarrow> nat \<Rightarrow> GossipAgent list \<Rightarrow> (int \<rightharpoonup> rndToplogyPeer) \<Rightarrow> rt_state" where
  "start_state t k peers pm = \<lparr>rt_count = Count t, possiblePeers = peers, peerMap = pm, connections = [], rt_rnd = k\<rparr>"

lemma start_state_inv:
  assumes "peers_ok peers"
  obtains pm where "init_peerMap peers peers Map.empty = Inr pm" "core_inv peers (start_state t k peers pm)"
    "sat_inv peers mx (start_state t k peers pm)" "count_inv t (start_state t k peers pm)"
    "uniform_inv mx (start_state t k peers pm)"
proof -
  obtain pm where pm: "init_peerMap peers peers Map.empty = Inr pm" and
    "\<And>p. pm p = (if p \<in> Port ` set peers then Some \<lparr>connCount = 0, portID = p, peer_agent = last (filter (\<lambda>a. Port a = p) peers),
        possibleConns = map Port (filter (\<lambda>a. Port a \<noteq> p) peers)\<rparr> else None)"
    using init_peerMap_result [of peers peers Map.empty] by (cases "peers = []") auto
  note at = this(2)
  have d: "distinct (map Port peers)"
    using assms by (simp add: peers_ok_def)
  have "peer_ok peers [] p tp" if "pm p = Some tp" for p tp
  proof -
    have "filter (\<lambda>a. Port a = p) peers \<noteq> []"
      using that at [of p] by (auto simp: filter_empty_conv split: if_splits)
    then have "last (filter (\<lambda>a. Port a = p) peers) \<in> set (filter (\<lambda>a. Port a = p) peers)"
      by (rule last_in_set)
    then show ?thesis
      using that at [of p] d by (auto simp: peer_ok_def distinct_map_filter split: if_splits)
  qed
  then have "core_inv peers (start_state t k peers pm)"
    using d at by (auto simp: core_inv_def start_state_def split: if_splits)
  moreover have "sat_inv peers mx (start_state t k peers pm)"
    by (auto simp: sat_inv_def start_state_def candidates_def at)
  moreover have "count_inv t (start_state t k peers pm)" "uniform_inv mx (start_state t k peers pm)"
    by (auto simp: count_inv_def uniform_inv_def start_state_def)
  ultimately show ?thesis
    using that [OF pm] by blast
qed

text \<open>The connections of the ring, in the order the code adds them.\<close>

definition ring_conns :: "GossipAgent list \<Rightarrow> nat \<Rightarrow> connectionsList" where
  "ring_conns peers m = map (\<lambda>i. (peers ! i, peers ! (Suc i mod length peers))) [0..<m]"

definition ring_stop :: "nat \<Rightarrow> nat" where
  "ring_stop n = (if n \<le> 2 then n - 1 else n)"

lemma ring_conns_Suc:
  "ring_conns peers (Suc m) = ring_conns peers m @ [(peers ! m, peers ! (Suc m mod length peers))]"
  by (simp add: ring_conns_def)

lemma ring_next: "i < n \<Longrightarrow> Suc i mod n = (if Suc i = n then 0 else Suc i)" for n :: nat
  by auto

lemma nth_port_eq:
  "distinct (map Port peers) \<Longrightarrow> i < length peers \<Longrightarrow> j < length peers \<Longrightarrow> Port (peers ! i) = Port (peers ! j) \<longleftrightarrow> i = j"
  using nth_eq_iff_index_eq [of "map Port peers" i j] by simp

lemma ring_new_edge:
  assumes d: "distinct (map Port peers)" and i: "i < ring_stop (length peers)"
  shows "Port (peers ! i) \<noteq> Port (peers ! (Suc i mod length peers))"
    and "\<not> joined (ring_conns peers i) (Port (peers ! i)) (Port (peers ! (Suc i mod length peers)))"
proof -
  let ?n = "length peers"
  have "i < ?n" "2 \<le> ?n"
    using i by (auto simp: ring_stop_def split: if_splits)
  then have n: "i < ?n" "2 \<le> ?n" "Suc i mod ?n < ?n"
    by (auto intro: mod_less_divisor)
  have ne: "Suc i mod ?n \<noteq> i"
    using n by (auto simp: ring_next)
  then show "Port (peers ! i) \<noteq> Port (peers ! (Suc i mod ?n))"
    using nth_port_eq [OF d n(1,3)] by simp
  show "\<not> joined (ring_conns peers i) (Port (peers ! i)) (Port (peers ! (Suc i mod ?n)))"
  proof
    assume "joined (ring_conns peers i) (Port (peers ! i)) (Port (peers ! (Suc i mod ?n)))"
    then obtain j where j: "j < i"
      "{Port (peers ! i), Port (peers ! (Suc i mod ?n))} = {Port (peers ! j), Port (peers ! (Suc j mod ?n))}"
      by (auto simp: joined_def ring_conns_def edge_def)
    have "j < ?n" "Suc j mod ?n < ?n"
      using j n by auto
    then have "i = Suc j mod ?n \<and> Suc i mod ?n = j"
      using j n nth_port_eq [OF d] by (auto simp: doubleton_eq_iff)
    then show False
      using j(1) n i by (auto simp: ring_next ring_stop_def split: if_splits)
  qed
qed

lemma ring_deg:
  assumes d: "distinct (map Port peers)" and k: "k < length peers" and m: "m \<le> length peers"
  shows "deg (ring_conns peers m) (Port (peers ! k)) = card {i. i < m \<and> (i = k \<or> Suc i mod length peers = k)}"
proof -
  have "0 < length peers"
    using k by auto
  then have nxt: "Port (peers ! k) = Port (peers ! (Suc i mod length peers)) \<longleftrightarrow> Suc i mod length peers = k" for i
    using nth_port_eq [OF d k, of "Suc i mod length peers"] mod_less_divisor [of "length peers" "Suc i"] by auto
  have "deg (ring_conns peers m) (Port (peers ! k)) = length (filter (\<lambda>i. i = k \<or> Suc i mod length peers = k) [0..<m])"
    unfolding deg_def ring_conns_def
    by (simp add: filter_map comp_def edge_def, rule arg_cong [where f = length], rule filter_cong)
      (use k m nth_port_eq [OF d k] in \<open>auto simp: nxt\<close>)
  also have "\<dots> = card {i. i < m \<and> (i = k \<or> Suc i mod length peers = k)}"
    by (subst distinct_card [symmetric]) (auto intro: arg_cong [where f = card])
  finally show ?thesis .
qed

lemma ring_positions:
  fixes n :: nat
  assumes "k < n"
  shows "{i. i < n \<and> (i = k \<or> Suc i mod n = k)} = {k, if k = 0 then n - 1 else k - 1}"
proof -
  have "Suc i mod n = k \<longleftrightarrow> (if Suc i = n then k = 0 else Suc i = k)" if "i < n" for i
    unfolding ring_next [OF that] by auto
  then have "{i. i < n \<and> (i = k \<or> Suc i mod n = k)} = {i. i < n \<and> (i = k \<or> (if Suc i = n then k = 0 else Suc i = k))}"
    by blast
  also have "\<dots> = {k, if k = 0 then n - 1 else k - 1}"
    using assms by auto
  finally show ?thesis .
qed

lemma ring_deg_le:
  assumes "distinct (map Port peers)" "m \<le> length peers"
  shows "deg (ring_conns peers m) p \<le> 2"
proof (cases "p \<in> Port ` set peers")
  case True
  then obtain k where k: "k < length peers" "p = Port (peers ! k)"
    by (auto simp: in_set_conv_nth)
  have "card {i. i < m \<and> (i = k \<or> Suc i mod length peers = k)} \<le>
      card {k, if k = 0 then length peers - 1 else k - 1}"
    unfolding ring_positions [OF k(1), symmetric] using assms(2) by (intro card_mono) auto
  also have "\<dots> \<le> 2"
    by (simp add: card_insert_if)
  finally show ?thesis
    using ring_deg [OF assms(1) k(1) assms(2)] k(2) by simp
next
  case False
  have "p \<notin> edge c" if mem: "c \<in> set (ring_conns peers m)" for c
  proof -
    obtain i where i: "i \<in> set [0..<m]" "c = (peers ! i, peers ! (Suc i mod length peers))"
      using mem unfolding ring_conns_def set_map by blast
    then have "i < length peers" "Suc i mod length peers < length peers"
      using assms(2) by (auto intro: mod_less_divisor)
    then show ?thesis
      using False i(2) by (auto simp: edge_def)
  qed
  then show ?thesis
    by (simp add: deg_def)
qed

text \<open>The complete ring gives every peer the same number of connections.\<close>

lemma ring_deg_full:
  assumes d: "distinct (map Port peers)" and a: "a \<in> set peers"
  shows "deg (ring_conns peers (ring_stop (length peers))) (Port a) = min 2 (length peers - 1)"
proof -
  let ?n = "length peers"
  obtain k where k: "k < ?n" "a = peers ! k"
    using a by (auto simp: in_set_conv_nth)
  then have at: "deg (ring_conns peers (ring_stop ?n)) (Port a) = card {i. i < ring_stop ?n \<and> (i = k \<or> Suc i mod ?n = k)}"
    using ring_deg [OF d k(1), of "ring_stop ?n"] by (simp add: ring_stop_def)
  consider "?n = 1" | "?n = 2" | "3 \<le> ?n"
    using k(1) by linarith
  then show ?thesis
  proof cases
    case 2
    then have "{i. i < ring_stop ?n \<and> (i = k \<or> Suc i mod ?n = k)} = {0}"
      using k(1) by (auto simp: ring_stop_def)
    then show ?thesis
      using at 2 by simp
  next
    case 3
    then have "{i. i < ring_stop ?n \<and> (i = k \<or> Suc i mod ?n = k)} = {k, if k = 0 then ?n - 1 else k - 1}"
      using ring_positions [OF k(1)] by (simp add: ring_stop_def)
    then show ?thesis
      using at 3 k(1) by auto
  qed (use at in \<open>simp add: ring_stop_def\<close>)
qed

lemma ring_step_links:
  assumes ok: "peers_ok peers" and core: "core_inv peers s" and i: "i < ring_stop (length peers)"
    and s: "possiblePeers s = peers" "connections s = ring_conns peers i" "rt_count s \<noteq> 0"
  shows "\<exists>s'. ring_step i s = Inr s' \<and> connections s' = ring_conns peers (Suc i) \<and> possiblePeers s' = peers \<and>
    links s s' (Port (peers ! i)) (Port (peers ! (Suc i mod length peers)))"
proof -
  let ?a = "peers ! i" and ?b = "peers ! (Suc i mod length peers)"
  have d: "distinct (map Port peers)"
    using ok by (simp add: peers_ok_def)
  have n: "i < length peers" "Suc i mod length peers < length peers"
    using i by (auto simp: ring_stop_def intro: mod_less_divisor split: if_splits)
  obtain tp tq where t: "peerMap s (Port ?a) = Some tp" "peerMap s (Port ?b) = Some tq"
    and tok: "peer_ok peers (connections s) (Port ?a) tp" "peer_ok peers (connections s) (Port ?b) tq"
    using core_inv_lookup [OF core] s(1) n nth_mem by metis
  have "inj_on Port (set peers)"
    using d by (simp add: distinct_map)
  then have ag: "peer_agent tp = ?a" "peer_agent tq = ?b"
    using tok n by (auto simp: peer_ok_def dest: inj_onD)
  obtain tp' where tp': "RemovePortId (Port ?b) tp = Inr tp'" "narrowed tp tp' {Port ?b}"
    using RemovePortId_narrowed tok(1) unfolding peer_ok_def by blast
  obtain tq' where tq': "RemovePortId (Port ?a) tq = Inr tq'" "narrowed tq tq' {Port ?a}"
    using RemovePortId_narrowed tok(2) unfolding peer_ok_def by blast
  note new = ring_new_edge [OF d i]
  let ?s = "s\<lparr>peerMap := (peerMap s)(Port ?a \<mapsto> tp'\<lparr>connCount := connCount tp' + 1\<rparr>, Port ?b \<mapsto> tq'\<lparr>connCount := connCount tq' + 1\<rparr>),
    connections := connections s @ [(?a, ?b)], rt_count := rt_count s - 1\<rparr>"
  have "ring_step i s = Inr ?s"
    using n t tp'(1) tq'(1) new(1) s(1)
    by (simp add: ring_step_def IncConnCount_def connections_Add_def not_sym del: go_bind_Inr_iff)
  moreover have "links s ?s (Port ?a) (Port ?b)"
    using new s t ag tp'(2) tq'(2)
    by (auto simp: links_def linked_peer_def narrowedD(1) intro!: exI)
  ultimately show ?thesis
    using s by (simp add: ring_conns_Suc)
qed

text \<open>The ring loop stops after the last ring edge or when the count is used up; what it leaves satisfies
  the invariant of the random loop.\<close>

lemma ring_loop_result:
  assumes "peers_ok peers" "i \<le> ring_stop (length peers)" "core_inv peers s" "sat_inv peers mx s" "count_inv t s"
    "possiblePeers s = peers" "connections s = ring_conns peers i"
  shows "\<exists>s' m. ring_loop (int (ring_stop (length peers))) i s = Inr s' \<and> m \<le> ring_stop (length peers) \<and>
    core_inv peers s' \<and> sat_inv peers mx s' \<and> count_inv t s' \<and> possiblePeers s' = peers \<and>
    connections s' = ring_conns peers m \<and> (m < ring_stop (length peers) \<longrightarrow> rt_count s' = 0)"
  using assms
proof (induction "ring_stop (length peers) - i" arbitrary: i s)
  case 0
  then show ?case
    by (intro exI [of _ s] exI [of _ i]) (simp add: ring_loop.simps [of _ i s])
next
  case (Suc x)
  then have i: "i < ring_stop (length peers)"
    by simp
  show ?case
  proof (cases "rt_count s = 0")
    case True
    then show ?thesis
      using Suc.prems by (intro exI [of _ s] exI [of _ i]) (simp add: ring_loop.simps [of _ i s])
  next
    case False
    obtain s' where s': "ring_step i s = Inr s'" "connections s' = ring_conns peers (Suc i)" "possiblePeers s' = peers"
      "links s s' (Port (peers ! i)) (Port (peers ! (Suc i mod length peers)))"
      using ring_step_links [OF Suc.prems(1,3) i Suc.prems(6,7) False] by blast
    have "core_inv peers s'"
      using links_core [OF Suc.prems(3) s'(4)] Suc.prems(1) by (simp add: peers_ok_def)
    with Suc.hyps(1) [of "Suc i" s'] Suc.hyps(2) Suc.prems i s' False show ?thesis
      using links_sat [OF Suc.prems(3) s'(4)] links_count [OF Suc.prems(3) s'(4)]
      by (simp add: ring_loop.simps [of _ i s] word_gt_0)
  qed
qed

lemma make_ring_inv:
  assumes ok: "peers_ok peers" and ring: "CreateRing t" and "core_inv peers (start_state t k peers pm)"
    "sat_inv peers (unat (MaxPeers t)) (start_state t k peers pm)" "count_inv t (start_state t k peers pm)"
  shows "\<exists>s m. make_ring (start_state t k peers pm) = Inr s \<and> loop_inv t (ring_conns peers m) peers s \<and>
    m \<le> ring_stop (length peers) \<and> (m < ring_stop (length peers) \<longrightarrow> rt_count s = 0) \<and>
    connections s = ring_conns peers m"
proof (cases "peers = []")
  case True
  then show ?thesis
    using assms
    by (intro exI [of _ "start_state t k peers pm"] exI [of _ 0])
      (auto simp: make_ring_def start_state_def ring_loop.simps loop_inv_def uniform_inv_def core_inv_def ring_conns_def ring_stop_def)
next
  case False
  let ?s = "start_state t k peers pm" and ?stop = "ring_stop (length peers)"
  obtain s m where s: "ring_loop (int ?stop) 0 ?s = Inr s" "m \<le> ?stop" "core_inv peers s"
    "sat_inv peers (unat (MaxPeers t)) s" "count_inv t s" "possiblePeers s = peers"
    "connections s = ring_conns peers m" "m < ?stop \<longrightarrow> rt_count s = 0"
    using ring_loop_result [OF ok, of 0 ?s "unat (MaxPeers t)" t] assms
    by (auto simp: start_state_def ring_conns_def)
  have d: "distinct (map Port peers)"
    using ok by (simp add: peers_ok_def)
  have "uniform_inv (unat (MaxPeers t)) s" if "rt_count s \<noteq> 0"
  proof -
    have "deg (connections s) p = min 2 (length peers - 1)" if "p \<in> dom (peerMap s)" for p
      using that s \<open>rt_count s \<noteq> 0\<close> ring_deg_full [OF d] by (auto simp: core_inv_def)
    then show ?thesis
      unfolding uniform_inv_def by (metis not_le_imp_less)
  qed
  moreover have "deg (connections s) p \<le> degree_bound t" for p
  proof -
    have "m \<le> length peers"
      using s(2) by (simp add: ring_stop_def split: if_splits)
    then show ?thesis
      using ring_deg_le [OF d, of m p] s(7) ring by (simp add: degree_bound_def le_max_iff_disj)
  qed
  ultimately have "loop_inv t (ring_conns peers m) peers s"
    using ok s by (simp add: loop_inv_def)
  moreover have "make_ring ?s = Inr s"
  proof -
    have "int ?stop = (if int (length peers) \<le> 2 then int (length peers) - 1 else int (length peers))"
      using False by (cases peers) (auto simp: ring_stop_def)
    then show ?thesis
      using s(1) by (simp add: make_ring_def start_state_def Let_def)
  qed
  ultimately show ?thesis
    using s by blast
qed

section \<open>populate\<close>

lemma populate_result:
  assumes ok: "peers_ok peers"
  shows "\<exists>s m. populate t r k [] peers = Some (Inr s) \<and> loop_inv t (ring_conns peers m) peers s \<and> \<not> populate_guard s \<and>
    (CreateRing t \<longrightarrow> m \<le> ring_stop (length peers) \<and> (m < ring_stop (length peers) \<longrightarrow> m = unat (Count t)))"
proof -
  obtain pm where pm: "init_peerMap peers peers Map.empty = Inr pm"
    and start: "core_inv peers (start_state t k peers pm)" "sat_inv peers (unat (MaxPeers t)) (start_state t k peers pm)"
      "count_inv t (start_state t k peers pm)" "uniform_inv (unat (MaxPeers t)) (start_state t k peers pm)"
    using start_state_inv [OF ok, where mx = "unat (MaxPeers t)" and t = t and k = k] .
  have eq: "populate t r k [] peers = (case (if CreateRing t then make_ring (start_state t k peers pm) else Inr (start_state t k peers pm)) of
      Inl p \<Rightarrow> Some (Inl p) | Inr s' \<Rightarrow> populate_loop t r s')"
    by (simp add: populate_def pm start_state_def)
  show ?thesis
  proof (cases "CreateRing t")
    case True
    obtain s m where s: "make_ring (start_state t k peers pm) = Inr s" "loop_inv t (ring_conns peers m) peers s"
      "m \<le> ring_stop (length peers)" "m < ring_stop (length peers) \<longrightarrow> rt_count s = 0" "connections s = ring_conns peers m"
      using make_ring_inv [OF ok True start(1,2,3)] by blast
    have "m < ring_stop (length peers) \<longrightarrow> m = unat (Count t)"
      using s(2,4,5) by (auto simp: loop_inv_def count_inv_def ring_conns_def)
    then show ?thesis
      using populate.loop_returns [OF s(2), where r = r] eq s True unfolding populate_loop_def by auto
  next
    case False
    then have "loop_inv t (ring_conns peers 0) peers (start_state t k peers pm)"
      using ok start by (simp add: loop_inv_def ring_conns_def start_state_def)
    then show ?thesis
      using populate.loop_returns [where r = r] eq False unfolding populate_loop_def by fastforce
  qed
qed

lemma populate_ring_facts:
  assumes ok: "peers_ok peers" and ring: "CreateRing t" and enough: "length peers \<le> unat (Count t)"
  shows "\<exists>s. populate t r k [] peers = Some (Inr s) \<and> connected_on (Port ` set peers) (connections s) \<and>
    (\<forall>a \<in> set peers. min 2 (length peers - 1) \<le> deg (connections s) (Port a)) \<and>
    simple_conns peers (connections s) \<and> length (connections s) \<le> unat (Count t)"
proof -
  obtain s m where run: "populate t r k [] peers = Some (Inr s)" and inv: "loop_inv t (ring_conns peers m) peers s"
    and m: "m \<le> ring_stop (length peers)" "m < ring_stop (length peers) \<longrightarrow> m = unat (Count t)"
    using populate_result [OF ok, of t r k] ring by blast
  have m: "m = ring_stop (length peers)"
    using m enough by (auto simp: ring_stop_def split: if_splits)
  obtain more where cl: "connections s = ring_conns peers m @ more"
    using inv by (auto simp: loop_inv_def)
  have "joined (connections s) (Port (peers ! i)) (Port (peers ! Suc i))" if "Suc i < length peers" for i
    using that unfolding cl by (force simp: m ring_stop_def ring_conns_def joined_def edge_def)
  then have "connected_on (Port ` set peers) (connections s)"
    by (rule connected_on_path)
  moreover have "min 2 (length peers - 1) \<le> deg (connections s) (Port a)" if "a \<in> set peers" for a
    using ring_deg_full [OF _ that] ok unfolding cl m by (simp add: peers_ok_def)
  ultimately show ?thesis
    using run inv by (auto simp: loop_inv_def core_inv_def count_inv_def)
qed

text \<open>Peers for the concrete instances below.\<close>

definition ex_peers :: "nat \<Rightarrow> GossipAgent list" where
  "ex_peers n = map (\<lambda>i. ex_agent\<lparr>Port := int i\<rparr>) [0..<n]"

lemma ex_peers_ok: "n < 2 ^ 63 \<Longrightarrow> peers_ok (ex_peers n)"
  by (simp add: peers_ok_def ex_peers_def comp_def distinct_map inj_on_def)

lemmas ex_peers_ok3 = ex_peers_ok [of 3, simplified] and ex_peers_ok4 = ex_peers_ok [of 4, simplified]

text \<open>
  C3. For peers with distinct ports, \<open>populate\<close> returns for every configuration and every sequence of
  random draws: no panic, no endless loop. The list it returns is a simple graph on the peers (no
  self-connection, no pair twice in either direction), no peer has more than \<open>MaxPeers\<close> connections (2
  when the ring is created and \<open>MaxPeers\<close> is smaller), and there are \<open>Count\<close> connections less the
  ones left in the counter.
\<close>

theorem populate_returns_bounded_graph:
  assumes "peers_ok peers"
  shows "\<exists>s. populate t r k [] peers = Some (Inr s) \<and> simple_conns peers (connections s) \<and>
    (\<forall>p. deg (connections s) p \<le> max (unat (MaxPeers t)) (if CreateRing t then 2 else 0)) \<and>
    length (connections s) + unat (rt_count s) = unat (Count t)"
  using populate_result [OF assms, of t r k] by (fastforce simp: loop_inv_def core_inv_def count_inv_def degree_bound_def)

theorem populate_returns_bounded_graph_witness:
  "peers_ok (ex_peers 4) \<and> (\<exists>s. populate \<lparr>MaxPeers = 2, Count = 3, CreateRing = False\<rparr> (\<lambda>k. 7 * k) 0 [] (ex_peers 4) = Some (Inr s) \<and>
     simple_conns (ex_peers 4) (connections s) \<and> (\<forall>p. deg (connections s) p \<le> 2))"
  using populate_returns_bounded_graph [OF ex_peers_ok4, of "\<lparr>MaxPeers = 2, Count = 3, CreateRing = False\<rparr>" "\<lambda>k. 7 * k" 0]
    ex_peers_ok4 by auto

text \<open>
  C16. \<open>populate\<close> does not give up early: when connections are left in the counter, any two different peers
  it did not connect include one that has reached \<open>MaxPeers\<close>.
\<close>

theorem populate_saturates:
  assumes ok: "peers_ok peers" and run: "populate t r k [] peers = Some (Inr s)" and left: "rt_count s \<noteq> 0"
    and a: "a \<in> set peers" "b \<in> set peers" "Port a \<noteq> Port b" "\<not> joined (connections s) (Port a) (Port b)"
  shows "unat (MaxPeers t) \<le> deg (connections s) (Port a) \<or> unat (MaxPeers t) \<le> deg (connections s) (Port b)"
proof -
  obtain m where inv: "loop_inv t (ring_conns peers m) peers s" and "\<not> populate_guard s"
    using populate_result [OF ok, of t r k] run by auto
  then have "possiblePeers s = []"
    using left by (auto simp: populate_guard_def word_gt_0)
  then have "candidates (peerMap s) p = {}" for p
    using inv by (auto simp: loop_inv_def core_inv_def candidates_def split: option.split)
  then show ?thesis
    using inv a by (auto simp: loop_inv_def sat_inv_def)
qed

theorem populate_saturates_witness:
  "\<exists>s. populate \<lparr>MaxPeers = 1, Count = 10, CreateRing = False\<rparr> (\<lambda>_. 0) 0 [] (ex_peers 3) = Some (Inr s) \<and>
     rt_count s \<noteq> 0 \<and> \<not> joined (connections s) 0 2 \<and> (1 \<le> deg (connections s) 0 \<or> 1 \<le> deg (connections s) 2)"
proof -
  let ?t = "\<lparr>MaxPeers = 1, Count = 10, CreateRing = False\<rparr>"
  have "case populate ?t (\<lambda>_. 0) 0 [] (ex_peers 3) of
      Some (Inr s) \<Rightarrow> rt_count s \<noteq> 0 \<and> \<not> joined (connections s) 0 2 | _ \<Rightarrow> False"
    by code_simp
  then obtain s where s: "populate ?t (\<lambda>_. 0) 0 [] (ex_peers 3) = Some (Inr s)" "rt_count s \<noteq> 0" "\<not> joined (connections s) 0 2"
    by (auto split: option.splits sum.splits)
  have mem: "ex_agent\<lparr>Port := 0\<rparr> \<in> set (ex_peers 3)" "ex_agent\<lparr>Port := 2\<rparr> \<in> set (ex_peers 3)"
    by (simp_all add: ex_peers_def upt_rec)
  have "1 \<le> deg (connections s) 0 \<or> 1 \<le> deg (connections s) 2"
    using populate_saturates [OF ex_peers_ok3 s(1,2) mem] s(3) by simp
  with s show ?thesis
    by blast
qed

text \<open>
  C17. With \<open>CreateRing\<close> and a \<open>Count\<close> of at least the number of peers, the connections make the peers a
  connected graph in which every peer has at least two connections (all the others when there are
  fewer than three peers), whatever \<open>MaxPeers\<close> is.
\<close>

theorem populate_ring_connects:
  assumes "peers_ok peers" "CreateRing t" "length peers \<le> unat (Count t)"
  shows "\<exists>s. populate t r k [] peers = Some (Inr s) \<and> connected_on (Port ` set peers) (connections s) \<and>
    (\<forall>a \<in> set peers. min 2 (length peers - 1) \<le> deg (connections s) (Port a))"
  using populate_ring_facts [OF assms, of r k] by blast

theorem populate_ring_connects_witness:
  "\<exists>s. populate \<lparr>MaxPeers = 1, Count = 5, CreateRing = True\<rparr> (\<lambda>_. 0) 0 [] (ex_peers 4) = Some (Inr s) \<and>
     connected_on (Port ` set (ex_peers 4)) (connections s) \<and> (\<forall>a \<in> set (ex_peers 4). 2 \<le> deg (connections s) (Port a))"
proof -
  let ?t = "\<lparr>MaxPeers = 1, Count = 5, CreateRing = True\<rparr>"
  have "CreateRing ?t" "length (ex_peers 4) \<le> unat (Count ?t)" "length (ex_peers 4) = 4"
    by (simp_all add: ex_peers_def)
  then show ?thesis
    using populate_ring_connects [OF ex_peers_ok4, of ?t "\<lambda>_. 0" 0] by simp
qed

end
