(* ===== verification/Topology.thy ===== *)
theory Topology
  imports RandomTopologyProofs
begin

text \<open>
  The three implementations of \<open>cluster.Topology\<close>: \<open>LinearTopology\<close> (\<open>cluster/topology.go\<close>),
  \<open>RandomTopology.MakeConnections\<close> (\<open>cluster/random_topology.go\<close>) and \<open>SuperClusterTopology\<close>
  (\<open>cluster/supercluster_topology.go\<close>).

  The map of agents is an association list with distinct keys, in the order in which the \<open>range\<close> loop
  of the call yields it: Go leaves the order open, so the properties hold for every such list.
  \<open>connect\<close> is the outcome of \<open>src.Connect(dest)\<close> on a pair. \<open>MakeConnections\<close> is a relation, because the
  order of the concurrent calls is open; its result records, per \<open>ConnectAll\<close>, the connections and the
  counters the code prints.
\<close>

type_synonym agents = "(int \<times> GossipAgent) list"

section \<open>LinearTopology\<close>

definition linear_keys :: "agents \<Rightarrow> int list" where
  "linear_keys as = sort (map fst as)"

text \<open>\<open>agents[keys[i]]\<close> and \<open>agents[keys[i+1]]\<close>. A missing key would be the nil interface.\<close>

definition linear_pair :: "agents \<Rightarrow> nat \<Rightarrow> (GossipAgent \<times> GossipAgent) go" where
  "linear_pair as i =
     go_bind (slice_at (linear_keys as) i) (\<lambda>k1.
     go_bind (slice_at (linear_keys as) (i + 1)) (\<lambda>k2.
     go_bind (deref (map_of as k1)) (\<lambda>source.
     go_bind (deref (map_of as k2)) (\<lambda>sink. Inr (source, sink)))))"

datatype lpc = LStart | LReturned "error option" | LDone

record linear_run =
  l_pcs :: "lpc list"
  l_wg :: int
  l_cnt :: int
  l_calls :: "nat list"

text \<open>\<open>wg.Add(connectionsNum)\<close> panics for a negative number, that is, for an empty map.\<close>

definition linear_start :: "agents \<Rightarrow> linear_run go" where
  "linear_start as = (let connectionsNum = int (length as) - 1
     in if connectionsNum < 0 then Inl NegativeWaitGroup
        else Inr \<lparr>l_pcs = replicate (nat connectionsNum) LStart, l_wg = connectionsNum, l_cnt = 0, l_calls = []\<rparr>)"

inductive linear_step :: "(GossipAgent \<times> GossipAgent \<Rightarrow> error option) \<Rightarrow> agents \<Rightarrow> linear_run \<Rightarrow> linear_run \<Rightarrow> bool"
  for connect as where
  call: "i < length (l_pcs s) \<Longrightarrow> l_pcs s ! i = LStart \<Longrightarrow> linear_pair as i = Inr c \<Longrightarrow>
    linear_step connect as s (s\<lparr>l_pcs := (l_pcs s)[i := LReturned (connect c)], l_calls := l_calls s @ [i]\<rparr>)"
| failed: "i < length (l_pcs s) \<Longrightarrow> l_pcs s ! i = LReturned (Some e) \<Longrightarrow>
    linear_step connect as s (s\<lparr>l_pcs := (l_pcs s)[i := LDone], l_wg := l_wg s - 1\<rparr>)"
| connected: "i < length (l_pcs s) \<Longrightarrow> l_pcs s ! i = LReturned None \<Longrightarrow>
    linear_step connect as s (s\<lparr>l_pcs := (l_pcs s)[i := LDone], l_wg := l_wg s - 1, l_cnt := wrap64 (l_cnt s + 1)\<rparr>)"

inductive linear_reach :: "(GossipAgent \<times> GossipAgent \<Rightarrow> error option) \<Rightarrow> agents \<Rightarrow> linear_run \<Rightarrow> bool"
  for connect as where
  init: "linear_start as = Inr s \<Longrightarrow> linear_reach connect as s"
| step: "linear_reach connect as s \<Longrightarrow> linear_step connect as s t \<Longrightarrow> linear_reach connect as t"

text \<open>The result is the number of connections the code prints after \<open>wg.Wait()\<close>.\<close>

inductive LinearTopology_MakeConnections ::
  "(GossipAgent \<times> GossipAgent \<Rightarrow> error option) \<Rightarrow> agents \<Rightarrow> int go \<Rightarrow> nat list \<Rightarrow> bool" for connect as where
  panics: "linear_start as = Inl p \<Longrightarrow> LinearTopology_MakeConnections connect as (Inl p) []"
| returns: "linear_reach connect as s \<Longrightarrow> l_wg s = 0 \<Longrightarrow>
    LinearTopology_MakeConnections connect as (Inr (l_cnt s)) (l_calls s)"

section \<open>RandomTopology.MakeConnections\<close>

text \<open>\<open>populate\<close> on an empty list and then \<open>ConnectAll\<close>, as \<open>RandomTopology\<close> does once and
  \<open>SuperClusterTopology\<close> up to twice. The results are the list, what \<open>ConnectAll\<close> returned and the number
  of random draws so far.\<close>

inductive populate_ConnectAll ::
  "(GossipAgent \<times> GossipAgent \<Rightarrow> error option) \<Rightarrow> RandomTopology \<Rightarrow> (nat \<Rightarrow> nat) \<Rightarrow> nat \<Rightarrow> GossipAgent list \<Rightarrow>
   connectionsList \<Rightarrow> (int \<times> int) go \<Rightarrow> nat \<Rightarrow> bool" for connect t r k peers where
  populate_panics: "populate t r k [] peers = Some (Inl p) \<Longrightarrow> populate_ConnectAll connect t r k peers [] (Inl p) k"
| connects: "populate t r k [] peers = Some (Inr s) \<Longrightarrow> ConnectAll connect (connections s) result calls \<Longrightarrow>
    populate_ConnectAll connect t r k peers (connections s) result (rt_rnd s)"

definition RandomTopology_MakeConnections ::
  "(GossipAgent \<times> GossipAgent \<Rightarrow> error option) \<Rightarrow> RandomTopology \<Rightarrow> (nat \<Rightarrow> nat) \<Rightarrow> agents \<Rightarrow>
   connectionsList \<Rightarrow> (int \<times> int) go \<Rightarrow> bool" where
  "RandomTopology_MakeConnections connect t r as conns result \<longleftrightarrow>
     (\<exists>k. populate_ConnectAll connect t r 0 (map snd as) conns result k)"

section \<open>SuperClusterTopology\<close>

record SuperClusterTopology =
  ValidatorPeering :: "64 word"
  NonValidatorPeering :: "64 word"

definition connectionsNumber :: "64 word" where
  "connectionsNumber = 1000000"

fun assign_validators :: "GossipAgent list \<Rightarrow> int \<Rightarrow> GossipAgent list \<Rightarrow> connectionsList \<Rightarrow> connectionsList go" where
  "assign_validators validators i [] conns = Inr conns"
| "assign_validators validators i (ac # rest) conns =
     go_bind (go_mod i (int (length validators))) (\<lambda>j.
     go_bind (slice_at validators (nat j)) (\<lambda>v.
       assign_validators validators (i + 1) rest (connections_Add ac v conns)))"

abbreviation validator_topology :: "SuperClusterTopology \<Rightarrow> RandomTopology" where
  "validator_topology t \<equiv> \<lparr>MaxPeers = ValidatorPeering t, Count = connectionsNumber, CreateRing = True\<rparr>"

abbreviation nonValidator_topology :: "SuperClusterTopology \<Rightarrow> RandomTopology" where
  "nonValidator_topology t \<equiv> \<lparr>MaxPeers = NonValidatorPeering t, Count = connectionsNumber, CreateRing = True\<rparr>"

text \<open>\<open>phases\<close> are the connection lists handed to \<open>ConnectAll\<close>, with the counters it returned.\<close>

inductive SuperClusterTopology_MakeConnections ::
  "(GossipAgent \<times> GossipAgent \<Rightarrow> error option) \<Rightarrow> SuperClusterTopology \<Rightarrow> (nat \<Rightarrow> nat) \<Rightarrow> agents \<Rightarrow>
   (connectionsList \<times> int \<times> int) list \<Rightarrow> unit go \<Rightarrow> bool" for connect t r as where
  validators_panic:
    "validators = filter IsValidator (map snd as) \<Longrightarrow>
     populate_ConnectAll connect (validator_topology t) r 0 validators c1 (Inl p) k1 \<Longrightarrow>
     SuperClusterTopology_MakeConnections connect t r as [] (Inl p)"
| only_validators:
    "validators = filter IsValidator (map snd as) \<Longrightarrow> filter (\<lambda>a. \<not> IsValidator a) (map snd as) = [] \<Longrightarrow>
     populate_ConnectAll connect (validator_topology t) r 0 validators c1 (Inr sf1) k1 \<Longrightarrow>
     SuperClusterTopology_MakeConnections connect t r as [(c1, sf1)] (Inr ())"
| nonValidators_panic:
    "validators = filter IsValidator (map snd as) \<Longrightarrow> nonValidators = filter (\<lambda>a. \<not> IsValidator a) (map snd as) \<Longrightarrow>
     nonValidators \<noteq> [] \<Longrightarrow>
     populate_ConnectAll connect (validator_topology t) r 0 validators c1 (Inr sf1) k1 \<Longrightarrow>
     populate_ConnectAll connect (nonValidator_topology t) r k1 nonValidators c2 (Inl p) k2 \<Longrightarrow>
     SuperClusterTopology_MakeConnections connect t r as [(c1, sf1)] (Inl p)"
| assignment_panics:
    "validators = filter IsValidator (map snd as) \<Longrightarrow> nonValidators = filter (\<lambda>a. \<not> IsValidator a) (map snd as) \<Longrightarrow>
     nonValidators \<noteq> [] \<Longrightarrow>
     populate_ConnectAll connect (validator_topology t) r 0 validators c1 (Inr sf1) k1 \<Longrightarrow>
     populate_ConnectAll connect (nonValidator_topology t) r k1 nonValidators c2 (Inr sf2) k2 \<Longrightarrow>
     assign_validators validators 0 nonValidators [] = Inl p \<Longrightarrow>
     SuperClusterTopology_MakeConnections connect t r as [(c1, sf1), (c2, sf2)] (Inl p)"
| links_panic:
    "validators = filter IsValidator (map snd as) \<Longrightarrow> nonValidators = filter (\<lambda>a. \<not> IsValidator a) (map snd as) \<Longrightarrow>
     nonValidators \<noteq> [] \<Longrightarrow>
     populate_ConnectAll connect (validator_topology t) r 0 validators c1 (Inr sf1) k1 \<Longrightarrow>
     populate_ConnectAll connect (nonValidator_topology t) r k1 nonValidators c2 (Inr sf2) k2 \<Longrightarrow>
     assign_validators validators 0 nonValidators [] = Inr c3 \<Longrightarrow> ConnectAll connect c3 (Inl p) calls \<Longrightarrow>
     SuperClusterTopology_MakeConnections connect t r as [(c1, sf1), (c2, sf2)] (Inl p)"
| all_phases:
    "validators = filter IsValidator (map snd as) \<Longrightarrow> nonValidators = filter (\<lambda>a. \<not> IsValidator a) (map snd as) \<Longrightarrow>
     nonValidators \<noteq> [] \<Longrightarrow>
     populate_ConnectAll connect (validator_topology t) r 0 validators c1 (Inr sf1) k1 \<Longrightarrow>
     populate_ConnectAll connect (nonValidator_topology t) r k1 nonValidators c2 (Inr sf2) k2 \<Longrightarrow>
     assign_validators validators 0 nonValidators [] = Inr c3 \<Longrightarrow> ConnectAll connect c3 (Inr sf3) calls \<Longrightarrow>
     SuperClusterTopology_MakeConnections connect t r as [(c1, sf1), (c2, sf2), (c3, sf3)] (Inr ())"

section \<open>Runs of LinearTopology\<close>

text \<open>The agents in the order of their keys, and the pairs of neighbours.\<close>

definition linear_line :: "agents \<Rightarrow> GossipAgent list" where
  "linear_line as = map (\<lambda>k. the (map_of as k)) (linear_keys as)"

definition linear_conns :: "agents \<Rightarrow> connectionsList" where
  "linear_conns as = map (\<lambda>i. (linear_line as ! i, linear_line as ! Suc i)) [0..<length as - 1]"

lemma length_linear [simp]: "length (linear_keys as) = length as" "length (linear_line as) = length as"
  "length (linear_conns as) = length as - 1"
  by (simp_all add: linear_keys_def linear_line_def linear_conns_def)

lemma linear_pair_conns:
  assumes "i < length as - 1"
  shows "linear_pair as i = Inr (linear_conns as ! i)"
proof -
  have "set (linear_keys as) = fst ` set as"
    by (simp add: linear_keys_def)
  then have "\<exists>a. map_of as (linear_keys as ! j) = Some a" if "j < length as" for j
    using nth_mem [of j "linear_keys as"] that by (simp flip: dom_map_of_conv_image_fst) blast
  from this [of i] this [of "Suc i"] assms show ?thesis
    by (auto simp: linear_pair_def linear_conns_def linear_line_def less_diff_conv simp del: go_bind_Inr_iff)
qed

lemma set_linear_line:
  assumes "distinct (map fst as)"
  shows "set (linear_line as) = set (map snd as)"
  using assms by (force simp: linear_line_def linear_keys_def)

text \<open>The goroutines whose program counter satisfies \<open>Q\<close>.\<close>

definition at_pc :: "lpc list \<Rightarrow> (nat \<Rightarrow> lpc \<Rightarrow> bool) \<Rightarrow> nat set" where
  "at_pc pcs Q = {i. i < length pcs \<and> Q i (pcs ! i)}"

lemma finite_at_pc [simp]: "finite (at_pc pcs Q)"
  by (simp add: at_pc_def)

lemma at_pc_mem: "i < length pcs \<Longrightarrow> i \<in> at_pc pcs Q \<longleftrightarrow> Q i (pcs ! i)"
  by (simp add: at_pc_def)

lemma at_pc_update:
  "i < length pcs \<Longrightarrow> at_pc (pcs[i := c]) Q = (if Q i c then insert i (at_pc pcs Q) else at_pc pcs Q - {i})"
  by (auto simp: at_pc_def nth_list_update split: if_splits)

definition linear_inv :: "(GossipAgent \<times> GossipAgent \<Rightarrow> error option) \<Rightarrow> agents \<Rightarrow> linear_run \<Rightarrow> bool" where
  "linear_inv connect as s \<longleftrightarrow> length (l_pcs s) = length as - 1 \<and>
     l_wg s = int (card (at_pc (l_pcs s) (\<lambda>i c. c \<noteq> LDone))) \<and>
     l_cnt s = wrap64 (int (card (at_pc (l_pcs s) (\<lambda>i c. c = LDone \<and> connect (linear_conns as ! i) = None)))) \<and>
     distinct (l_calls s) \<and> set (l_calls s) = at_pc (l_pcs s) (\<lambda>i c. c \<noteq> LStart) \<and>
     (\<forall>i < length (l_pcs s). \<forall>e. l_pcs s ! i = LReturned e \<longrightarrow> e = connect (linear_conns as ! i))"

lemma linear_inv_step:
  assumes "linear_step connect as s t" "linear_inv connect as s"
  shows "linear_inv connect as t"
  using assms(1)
proof cases
  case (call i c)
  then have "c = linear_conns as ! i"
    using assms(2) linear_pair_conns [of i as] by (simp add: linear_inv_def)
  then show ?thesis
    using assms(2) call
    by (simp add: linear_inv_def at_pc_update at_pc_mem insert_absorb nth_list_update)
next
  case (failed i e)
  then have "connect (linear_conns as ! i) = Some e"
    using assms(2) by (simp add: linear_inv_def)
  moreover have "0 < card (at_pc (l_pcs s) (\<lambda>i c. c \<noteq> LDone))"
    using failed at_pc_mem [of i "l_pcs s"] by (auto simp: card_gt_0_iff)
  ultimately show ?thesis
    using assms(2) failed
    by (simp add: linear_inv_def at_pc_update at_pc_mem insert_absorb nth_list_update card_Diff_singleton_if of_nat_diff)
next
  case (connected i)
  then have "connect (linear_conns as ! i) = None"
    using assms(2) by (auto simp: linear_inv_def)
  moreover have "0 < card (at_pc (l_pcs s) (\<lambda>i c. c \<noteq> LDone))"
    using connected at_pc_mem [of i "l_pcs s"] by (auto simp: card_gt_0_iff)
  ultimately show ?thesis
    using assms(2) connected
    by (simp add: linear_inv_def at_pc_update at_pc_mem insert_absorb nth_list_update card_Diff_singleton_if of_nat_diff
        add.commute [of _ "1 :: int"])
qed

lemma linear_start_nonempty:
  "as \<noteq> [] \<Longrightarrow> linear_start as = Inr \<lparr>l_pcs = replicate (length as - 1) LStart, l_wg = int (length as - 1), l_cnt = 0, l_calls = []\<rparr>"
  by (cases as) (simp_all add: linear_start_def)

lemma linear_reach_inv: "linear_reach connect as s \<Longrightarrow> as \<noteq> [] \<Longrightarrow> linear_inv connect as s"
proof (induction rule: linear_reach.induct)
  case (init s)
  have "at_pc (replicate n LStart) Q = {i. i < n \<and> Q i LStart}" for n Q
    by (auto simp: at_pc_def)
  then show ?case
    using init by (auto simp: linear_start_nonempty linear_inv_def wrap64_id)
next
  case (step s t)
  then show ?case
    using linear_inv_step by blast
qed

primrec lpc_weight :: "lpc \<Rightarrow> nat" where
  "lpc_weight LStart = 2"
| "lpc_weight (LReturned e) = 1"
| "lpc_weight LDone = 0"

definition linear_rank :: "linear_run \<Rightarrow> nat" where
  "linear_rank s = sum_list (map lpc_weight (l_pcs s))"

lemma linear_step_rank: "linear_step connect as s t \<Longrightarrow> linear_rank t < linear_rank s"
proof (induction rule: linear_step.induct)
  case (call i s c)
  then show ?case
    using sum_list_map_update [of i "l_pcs s" lpc_weight "LReturned (connect c)"]
    by (simp add: linear_rank_def)
next
  case (failed i s e)
  then show ?case
    using sum_list_map_update [of i "l_pcs s" lpc_weight LDone] by (simp add: linear_rank_def)
next
  case (connected i s)
  then show ?case
    using sum_list_map_update [of i "l_pcs s" lpc_weight LDone] by (simp add: linear_rank_def)
qed

lemma linear_not_stuck:
  assumes "linear_inv connect as s" "l_wg s \<noteq> 0"
  shows "\<exists>t. linear_step connect as s t"
proof -
  obtain i where i: "i < length (l_pcs s)" "l_pcs s ! i \<noteq> LDone"
    using assms by (fastforce simp: linear_inv_def at_pc_def card_eq_0_iff)
  then show ?thesis
  proof (cases "l_pcs s ! i")
    case LStart
    then show ?thesis
      using linear_step.call [OF i(1) LStart linear_pair_conns [of i as]] i(1) assms(1)
      by (auto simp: linear_inv_def)
  next
    case (LReturned e)
    then show ?thesis
      using i linear_step.failed linear_step.connected by (cases e) blast+
  qed simp
qed

lemma linear_completes:
  assumes "linear_reach connect as s" "as \<noteq> []"
  shows "\<exists>t. linear_reach connect as t \<and> l_wg t = 0"
  using assms(1)
proof (induction "linear_rank s" arbitrary: s rule: less_induct)
  case less
  show ?case
  proof (cases "l_wg s = 0")
    case False
    then obtain t where "linear_step connect as s t"
      using linear_not_stuck linear_reach_inv [OF less.prems assms(2)] by blast
    then show ?thesis
      using less.hyps [of t] linear_step_rank linear_reach.step [OF less.prems] by blast
  qed (use less.prems in blast)
qed

lemma linear_done:
  assumes "linear_reach connect as s" "as \<noteq> []" "l_wg s = 0"
  shows "distinct (l_calls s) \<and> set (l_calls s) = {..<length as - 1} \<and>
    l_cnt s = wrap64 (int (length (filter (\<lambda>c. connect c = None) (linear_conns as))))"
proof -
  have inv: "linear_inv connect as s"
    by (rule linear_reach_inv [OF assms(1,2)])
  then have "\<forall>i < length as - 1. l_pcs s ! i = LDone"
    using assms(3) by (auto simp: linear_inv_def at_pc_def card_eq_0_iff)
  then have "at_pc (l_pcs s) Q = {i. i < length as - 1 \<and> Q i LDone}" for Q
    using inv by (auto simp: linear_inv_def at_pc_def)
  then show ?thesis
    using inv by (auto simp: linear_inv_def length_filter_conv_card)
qed

lemma linear_conns_connected:
  assumes "distinct (map fst as)"
  shows "connected_on (Port ` set (map snd as)) (linear_conns as)"
proof -
  have "joined (linear_conns as) (Port (linear_line as ! i)) (Port (linear_line as ! Suc i))" if "Suc i < length (linear_line as)" for i
    using that by (force simp: linear_conns_def joined_def edge_def)
  then show ?thesis
    using connected_on_path [of "linear_line as"] set_linear_line [OF assms] by simp
qed

section \<open>ConnectAll\<close>

lemma ConnectAll_result:
  assumes "cl \<noteq> []" "length cl < 2 ^ 31" "ConnectAll connect cl result calls"
  shows "distinct calls \<and> set calls = {0..<int (length cl)} \<and>
    result = Inr (int (length (filter (\<lambda>c. connect c = None) cl)), int (length (filter (\<lambda>c. connect c \<noteq> None) cl)))"
proof -
  let ?n = "int (length cl)"
  have n: "0 < ?n" "?n < 2 ^ 31"
    using assms by auto
  have run: "MultiRoutineRunner ?n 5 50 (\<lambda>i. connect (cl ! nat i)) result calls"
    using assms(3) by (simp add: ConnectAll_def)
  have "map (\<lambda>k. cl ! nat k) [0..?n - 1] = cl"
    by (rule nth_equalityI) simp_all
  then have "length (filter P cl) = length (filter P (map (\<lambda>k. cl ! nat k) [0..?n - 1]))" for P
    by simp
  then have eq: "length (filter (\<lambda>k. P (cl ! nat k)) [0..?n - 1]) = length (filter P cl)" for P
    by (simp add: filter_map comp_def)
  show ?thesis
    using connect_pool.pool_result [OF n run] connect_pool.pool_each_once [OF n run]
      eq [of "\<lambda>c. connect c = None"] eq [of "\<lambda>c. connect c \<noteq> None"] by simp
qed

lemma ConnectAll_returns:
  assumes "cl \<noteq> []" "length cl < 2 ^ 31"
  shows "\<exists>result calls. ConnectAll connect cl result calls"
  unfolding ConnectAll_def using assms by (intro connect_pool.pool_returns) auto

lemma ConnectAll_empty: "ConnectAll connect [] result calls \<longleftrightarrow> result = Inl IntegerDivideByZero \<and> calls = []"
  using runner_plan_zero [of 5 50] unfolding ConnectAll_def
  by (auto elim: MultiRoutineRunner.cases intro: MultiRoutineRunner.panics)

lemma simple_conns_small: "simple_conns peers cl \<Longrightarrow> length peers \<le> 1 \<Longrightarrow> cl = []"
  by (cases peers; cases cl) (auto simp: simple_conns_def)

lemma connected_nonempty:
  assumes "connected_on (Port ` set peers) cl" "distinct (map Port peers)" "2 \<le> length peers"
  shows "cl \<noteq> []"
proof
  assume "cl = []"
  then have "link cl = {}"
    by (simp add: link_def joined_def)
  have "Port (peers ! 0) \<in> Port ` set peers" "Port (peers ! 1) \<in> Port ` set peers"
    using nth_mem [of 0 peers] nth_mem [of 1 peers] assms(3) by fastforce+
  then have "(Port (peers ! 0), Port (peers ! 1)) \<in> (link cl)\<^sup>*"
    using assms(1) unfolding connected_on_def by blast
  then have eq: "Port (peers ! 0) = Port (peers ! 1)"
    using \<open>link cl = {}\<close> by simp
  have "0 < length peers" "1 < length peers"
    using assms(3) by linarith+
  then show False
    using nth_port_eq [OF assms(2)] eq zero_neq_one by blast
qed

text \<open>One populate-and-connect phase with the ring: with two peers or more it returns and leaves a connected
  simple graph, with fewer its \<open>ConnectAll\<close> panics.\<close>

lemma ring_phase:
  assumes ok: "peers_ok peers" and t: "CreateRing t" "length peers \<le> unat (Count t)" "unat (Count t) < 2 ^ 31"
    and n: "2 \<le> length peers"
  shows "\<exists>conns result k'. populate_ConnectAll connect t r k peers conns result k'"
    and "populate_ConnectAll connect t r k peers conns result k' \<Longrightarrow>
      simple_conns peers conns \<and> connected_on (Port ` set peers) conns \<and> conns \<noteq> [] \<and>
      result = Inr (int (length (filter (\<lambda>c. connect c = None) conns)), int (length (filter (\<lambda>c. connect c \<noteq> None) conns)))"
proof -
  obtain s where s: "populate t r k [] peers = Some (Inr s)" "connected_on (Port ` set peers) (connections s)"
    "simple_conns peers (connections s)" "length (connections s) < 2 ^ 31"
    using populate_ring_facts [OF ok t(1,2), of r k] t(3) by force
  have ne: "connections s \<noteq> []"
    using connected_nonempty [OF s(2) _ n] ok by (simp add: peers_ok_def)
  show "\<exists>conns result k'. populate_ConnectAll connect t r k peers conns result k'"
    using ConnectAll_returns [OF ne s(4)] populate_ConnectAll.connects [OF s(1)] by blast
  assume "populate_ConnectAll connect t r k peers conns result k'"
  then show "simple_conns peers conns \<and> connected_on (Port ` set peers) conns \<and> conns \<noteq> [] \<and>
      result = Inr (int (length (filter (\<lambda>c. connect c = None) conns)), int (length (filter (\<lambda>c. connect c \<noteq> None) conns)))"
    using s ne ConnectAll_result [OF ne s(4)] by cases auto
qed

lemma small_phase:
  assumes ok: "peers_ok peers" and n: "length peers \<le> 1"
  shows "\<exists>conns result k'. populate_ConnectAll connect t r k peers conns result k'"
    and "populate_ConnectAll connect t r k peers conns result k' \<Longrightarrow> conns = [] \<and> result = Inl IntegerDivideByZero"
proof -
  obtain s m where s: "populate t r k [] peers = Some (Inr s)" "loop_inv t (ring_conns peers m) peers s"
    using populate_result [OF ok, of t r k] by blast
  then have e: "connections s = []"
    using n simple_conns_small by (auto simp: loop_inv_def core_inv_def)
  show "\<exists>conns result k'. populate_ConnectAll connect t r k peers conns result k'"
    using populate_ConnectAll.connects [OF s(1)] ConnectAll_empty e by metis
  assume "populate_ConnectAll connect t r k peers conns result k'"
  then show "conns = [] \<and> result = Inl IntegerDivideByZero"
    using s(1) e ConnectAll_empty by cases auto
qed

section \<open>The validator of each non validator\<close>

lemma go_mod_nonneg:
  assumes "0 \<le> a" "a < 2 ^ 63" "0 < b"
  shows "go_mod a b = Inr (a mod b)"
proof -
  have "a smod b = a mod b"
    using assms by (cases "a = 0") (simp_all add: signed_modulo_int_def)
  moreover have "0 \<le> a mod b" "a mod b < 2 ^ 63"
    using assms zmod_le_nonneg_dividend [of a b] by (auto intro: le_less_trans)
  then have "wrap64 (a mod b) = a mod b"
    by (intro wrap64_id) linarith+
  ultimately show ?thesis
    using assms(3) by (simp add: go_mod_def)
qed

lemma assign_validators_result:
  assumes "vs \<noteq> []" "0 \<le> i" "i + int (length ns) < 2 ^ 63"
  shows "assign_validators vs i ns conns =
    Inr (conns @ map (\<lambda>j. (ns ! j, vs ! nat ((i + int j) mod int (length vs)))) [0..<length ns])"
  using assms
proof (induction ns arbitrary: i conns)
  case (Cons a ns)
  have len: "int (length vs) > 0"
    using Cons.prems(1) by simp
  then have "go_mod i (int (length vs)) = Inr (i mod int (length vs))" "nat (i mod int (length vs)) < length vs"
    using Cons.prems(2,3) pos_mod_bound [OF len, of i] pos_mod_sign [OF len, of i]
    by (auto simp: go_mod_nonneg nat_less_iff)
  then show ?case
    using Cons.IH [of "i + 1"] Cons.prems
    by (simp add: connections_Add_def upt_conv_Cons map_Suc_upt [symmetric] ac_simps del: upt_Suc map_Suc_upt go_bind_Inr_iff)
qed simp

definition validator_links :: "GossipAgent list \<Rightarrow> GossipAgent list \<Rightarrow> connectionsList" where
  "validator_links vs ns = map (\<lambda>j. (ns ! j, vs ! (j mod length vs))) [0..<length ns]"

lemma assign_validators_links:
  assumes "vs \<noteq> []" "length ns < 2 ^ 63"
  shows "assign_validators vs 0 ns [] = Inr (validator_links vs ns)"
  using assign_validators_result [of vs 0 ns "[]"] assms by (simp add: validator_links_def nat_mod_distrib)

lemma validator_links_join:
  assumes "vs \<noteq> []" "a \<in> set ns"
  shows "\<exists>v \<in> set vs. joined (validator_links vs ns) (Port a) (Port v)"
proof -
  obtain j where "j < length ns" "a = ns ! j"
    using assms(2) by (auto simp: in_set_conv_nth)
  then show ?thesis
    using assms(1) by (intro bexI [of _ "vs ! (j mod length vs)"])
      (force simp: joined_def edge_def validator_links_def)+
qed

text \<open>Two connected parts become one when every peer of the second is joined to the first.\<close>

lemma connected_on_attach:
  assumes "connected_on V c1" "V \<noteq> {}" "\<And>p. p \<in> N \<Longrightarrow> \<exists>v \<in> V. joined c3 p v"
  shows "connected_on (V \<union> N) (c1 @ c2 @ c3)"
proof -
  obtain c where c: "c \<in> V"
    using assms(2) by blast
  let ?l = "link (c1 @ c2 @ c3)"
  have V: "(c, v) \<in> ?l\<^sup>*" if "v \<in> V" for v
    using connected_on_mono [OF assms(1), of "c1 @ c2 @ c3"] c that by (auto simp: connected_on_def)
  have "(c, p) \<in> ?l\<^sup>*" if p: "p \<in> N" for p
  proof -
    obtain v where "v \<in> V" "joined c3 p v"
      using assms(3) [OF p] by blast
    then have "(v, p) \<in> ?l"
      by (simp add: link_def joined_sym [of c3 v p])
    then show ?thesis
      using V [OF \<open>v \<in> V\<close>] by (rule rtrancl_into_rtrancl [rotated])
  qed
  then show ?thesis
    using V by (intro connected_on_star) blast
qed

section \<open>Runs of SuperClusterTopology\<close>

lemma peers_ok_filter:
  assumes "peers_ok peers"
  shows "peers_ok (filter P peers)"
  using assms le_less_trans [OF length_filter_le [of P peers]] by (auto simp: peers_ok_def distinct_map_filter)

lemma unat_connectionsNumber [simp]: "unat connectionsNumber = 1000000"
  by (simp add: connectionsNumber_def)

text \<open>The two phases that draw a random topology, for the validators and for the non validators.\<close>

lemma validators_phase:
  assumes "peers_ok (map snd as)" "length as \<le> 1000000" "2 \<le> length (filter P (map snd as))"
  shows "\<exists>conns sf k'. populate_ConnectAll connect \<lparr>MaxPeers = m, Count = connectionsNumber, CreateRing = True\<rparr> r k (filter P (map snd as)) conns (Inr sf) k'"
    and "populate_ConnectAll connect \<lparr>MaxPeers = m, Count = connectionsNumber, CreateRing = True\<rparr> r k (filter P (map snd as)) conns result k' \<Longrightarrow>
      conns \<noteq> [] \<and> (\<exists>sf. result = Inr sf) \<and> connected_on (Port ` set (filter P (map snd as))) conns"
proof -
  let ?t = "\<lparr>MaxPeers = m, Count = connectionsNumber, CreateRing = True\<rparr>"
  have "length (filter P (map snd as)) \<le> unat (Count ?t)" "unat (Count ?t) < 2 ^ 31" "CreateRing ?t"
    using assms(2) order_trans [OF length_filter_le [of P "map snd as"]] by (simp_all del: length_filter_map filter_map)
  note ph = ring_phase [OF peers_ok_filter [OF assms(1)] this(3,1,2) assms(3)]
  from ph(2) show "conns \<noteq> [] \<and> (\<exists>sf. result = Inr sf) \<and> connected_on (Port ` set (filter P (map snd as))) conns"
    if "populate_ConnectAll connect ?t r k (filter P (map snd as)) conns result k'"
    using that by blast
  show "\<exists>conns sf k'. populate_ConnectAll connect ?t r k (filter P (map snd as)) conns (Inr sf) k'"
    using ph(1) ph(2) by metis
qed

lemma validator_links_ConnectAll:
  assumes "vs \<noteq> []" "ns \<noteq> []" "length ns \<le> 1000000"
  shows "\<exists>sf calls. ConnectAll connect (validator_links vs ns) (Inr sf) calls"
    and "ConnectAll connect (validator_links vs ns) result calls \<Longrightarrow> \<exists>sf. result = Inr sf"
proof -
  have "validator_links vs ns \<noteq> []" "length (validator_links vs ns) < 2 ^ 31"
    using assms by (simp_all add: validator_links_def)
  note c = ConnectAll_returns [OF this] ConnectAll_result [OF this]
  show "\<exists>sf calls. ConnectAll connect (validator_links vs ns) (Inr sf) calls"
    using c by metis
  show "ConnectAll connect (validator_links vs ns) result calls \<Longrightarrow> \<exists>sf. result = Inr sf"
    using c(2) by blast
qed

lemma supercluster_runs:
  assumes ok: "peers_ok (map snd as)" and n: "length as \<le> 1000000"
    and v: "vs = filter IsValidator (map snd as)" "2 \<le> length vs"
    and nv: "ns = filter (\<lambda>a. \<not> IsValidator a) (map snd as)" "ns = [] \<or> 2 \<le> length ns"
  shows "\<exists>phases result. SuperClusterTopology_MakeConnections connect t r as phases result"
proof -
  obtain c1 sf1 k1 where p1: "populate_ConnectAll connect (validator_topology t) r 0 vs c1 (Inr sf1) k1"
    using validators_phase(1) [OF ok n v(2) [unfolded v(1)]] unfolding v(1) by metis
  show ?thesis
  proof (cases "ns = []")
    case True
    then show ?thesis
      using SuperClusterTopology_MakeConnections.only_validators [OF v(1) _ p1] nv(1) by metis
  next
    case False
    then obtain c2 sf2 k2 where p2: "populate_ConnectAll connect (nonValidator_topology t) r k1 ns c2 (Inr sf2) k2"
      using validators_phase(1) [OF ok n, of "\<lambda>a. \<not> IsValidator a"] nv by metis
    have len: "vs \<noteq> []" "length ns \<le> 1000000"
      using v(2) n order_trans [OF length_filter_le [of "\<lambda>a. \<not> IsValidator a" "map snd as"]] nv(1) by auto
    then have "assign_validators vs 0 ns [] = Inr (validator_links vs ns)"
      by (intro assign_validators_links) auto
    then show ?thesis
      using SuperClusterTopology_MakeConnections.all_phases [OF v(1) nv(1) False p1 p2]
        validator_links_ConnectAll(1) [OF len(1) False len(2)] by blast
  qed
qed

lemma supercluster_result:
  assumes ok: "peers_ok (map snd as)" and n: "length as \<le> 1000000"
    and v: "vs = filter IsValidator (map snd as)" "2 \<le> length vs"
    and nv: "ns = filter (\<lambda>a. \<not> IsValidator a) (map snd as)" "ns = [] \<or> 2 \<le> length ns"
    and run: "SuperClusterTopology_MakeConnections connect t r as phases result"
  shows "result = Inr () \<and> connected_on (Port ` set (map snd as)) (concat (map fst phases)) \<and>
      (ns \<noteq> [] \<longrightarrow> fst (last phases) = validator_links vs ns)"
proof -
  have ph1: "\<exists>sf. res = Inr sf" "connected_on (Port ` set vs) c"
    if "populate_ConnectAll connect (validator_topology t) r k vs c res k'" for c res k k'
    using validators_phase(2) [OF ok n v(2) [unfolded v(1)]] that unfolding v(1) by blast+
  have ph2: "\<exists>sf. res = Inr sf" if "ns \<noteq> []" "populate_ConnectAll connect (nonValidator_topology t) r k ns c res k'" for c res k k'
    using validators_phase(2) [OF ok n, of "\<lambda>a. \<not> IsValidator a"] that nv by blast
  have len: "vs \<noteq> []" "length ns \<le> 1000000"
    using v(2) n order_trans [OF length_filter_le [of "\<lambda>a. \<not> IsValidator a" "map snd as"]] nv(1) by auto
  have assign: "assign_validators vs 0 ns [] = Inr (validator_links vs ns)"
    using len by (intro assign_validators_links) auto
  have all: "set (map snd as) = set vs \<union> set ns"
    using v(1) nv(1) by auto
  have join: "connected_on (Port ` (set vs \<union> set ns)) (c1 @ c2 @ validator_links vs ns)"
    if "connected_on (Port ` set vs) c1" for c1 c2
    using connected_on_attach [OF that, of "Port ` set ns"] validator_links_join [OF len(1)] len(1)
    by (force simp: image_Un)
  from run have "result = Inr () \<and> connected_on (Port ` (set vs \<union> set ns)) (concat (map fst phases)) \<and>
      (ns \<noteq> [] \<longrightarrow> fst (last phases) = validator_links vs ns)"
  proof cases
    case (only_validators validators c1 sf1 k1)
    then have "connected_on (Port ` set vs) c1" "ns = []"
      using ph1(2) nv(1) v(1) by metis+
    then show ?thesis
      using only_validators by simp
  next
    case (validators_panic validators c1 p k1)
    then show ?thesis
      using ph1(1) v(1) by blast
  next
    case (nonValidators_panic validators nonValidators c1 sf1 k1 c2 p k2)
    then show ?thesis
      using ph2 nv(1) by blast
  next
    case (assignment_panics validators nonValidators c1 sf1 k1 c2 sf2 k2 p)
    then show ?thesis
      using assign v(1) nv(1) by simp
  next
    case (links_panic validators nonValidators c1 sf1 k1 c2 sf2 k2 c3 p calls)
    then have "c3 = validator_links vs ns" "ns \<noteq> []"
      using assign v(1) nv(1) by simp_all
    then show ?thesis
      using links_panic validator_links_ConnectAll(2) [OF len(1) _ len(2)] by blast
  next
    case (all_phases validators nonValidators c1 sf1 k1 c2 sf2 k2 c3 sf3 calls)
    then have "c3 = validator_links vs ns" "connected_on (Port ` set vs) c1"
      using assign ph1(2) v(1) nv(1) by simp_all
    then show ?thesis
      using all_phases join by simp
  qed
  then show ?thesis
    unfolding all .
qed

text \<open>The connections of every topology are between agents of the cluster.\<close>

definition among :: "GossipAgent list \<Rightarrow> connectionsList \<Rightarrow> bool" where
  "among peers cl \<longleftrightarrow> (\<forall>c \<in> set cl. fst c \<in> set peers \<and> snd c \<in> set peers)"

lemma among_append [simp]: "among peers []" "among peers (xs @ ys) \<longleftrightarrow> among peers xs \<and> among peers ys"
  by (auto simp: among_def)

lemma populate_ConnectAll_among:
  assumes ok: "peers_ok peers" and run: "populate_ConnectAll connect t r k peers conns result k'"
  shows "among peers conns"
  using run
proof cases
  case (connects s calls)
  obtain s' m where "populate t r k [] peers = Some (Inr s')" "loop_inv t (ring_conns peers m) peers s'"
    using populate_result [OF ok, of t r k] by blast
  then have "simple_conns peers conns"
    using connects by (auto simp: loop_inv_def core_inv_def)
  then show ?thesis
    by (simp add: simple_conns_def among_def)
qed (simp add: among_def)

lemma linear_conns_among: "distinct (map fst as) \<Longrightarrow> among (map snd as) (linear_conns as)"
  using set_linear_line [of as] nth_mem [of _ "linear_line as"] by (fastforce simp: among_def linear_conns_def)

lemma validator_links_among: "vs \<noteq> [] \<Longrightarrow> among (vs @ ns) (validator_links vs ns)"
  by (auto simp: among_def validator_links_def)

lemma supercluster_among:
  assumes ok: "peers_ok (map snd as)" and n: "length as \<le> 1000000" and v: "2 \<le> length (filter IsValidator (map snd as))"
    and run: "SuperClusterTopology_MakeConnections connect t r as phases result"
  shows "among (map snd as) (concat (map fst phases))"
proof -
  let ?vs = "filter IsValidator (map snd as)" and ?ns = "filter (\<lambda>a. \<not> IsValidator a) (map snd as)"
  have sub: "among (map snd as) c" if "populate_ConnectAll connect T r k (filter P (map snd as)) c res k'" for T k P c res k'
    using populate_ConnectAll_among [OF peers_ok_filter [OF ok] that] by (auto simp: among_def)
  have "?vs \<noteq> []"
    using v by (intro notI) simp
  moreover have "length ?ns < 2 ^ 63"
    using n le_less_trans [OF length_filter_le [of "\<lambda>a. \<not> IsValidator a" "map snd as"]] by simp
  ultimately have len: "?vs \<noteq> []" "length ?ns < 2 ^ 63"
    by blast+
  have links: "among (map snd as) c" if "assign_validators ?vs 0 ?ns [] = Inr c" for c
    using validator_links_among [OF len(1), of ?ns] assign_validators_links [OF len] that by (auto simp: among_def)
  from run show ?thesis
    by cases (auto dest!: sub links)
qed

lemma linear_topology_result:
  assumes "as \<noteq> []" "distinct (map fst as)" "length as < 2 ^ 63"
  shows "(\<exists>result calls. LinearTopology_MakeConnections connect as result calls) \<and>
    (\<forall>result calls. LinearTopology_MakeConnections connect as result calls \<longrightarrow>
       result = Inr (int (length (filter (\<lambda>c. connect c = None) (linear_conns as)))) \<and>
       distinct calls \<and> set calls = {..<length as - 1}) \<and>
    (\<forall>i < length as - 1. linear_pair as i = Inr (linear_conns as ! i)) \<and>
    connected_on (Port ` set (map snd as)) (linear_conns as)"
proof (intro conjI allI impI)
  obtain s where "linear_reach connect as s" "l_wg s = 0"
    using linear_completes linear_reach.init linear_start_nonempty assms(1) by metis
  then show "\<exists>result calls. LinearTopology_MakeConnections connect as result calls"
    using LinearTopology_MakeConnections.returns by blast
next
  fix result calls
  assume run: "LinearTopology_MakeConnections connect as result calls"
  have "length (filter (\<lambda>c. connect c = None) (linear_conns as)) < 2 ^ 63"
    using length_filter_le [of "\<lambda>c. connect c = None" "linear_conns as"] assms(3) by simp
  then have "wrap64 (int (length (filter (\<lambda>c. connect c = None) (linear_conns as)))) =
      int (length (filter (\<lambda>c. connect c = None) (linear_conns as)))"
    by (intro wrap64_id) auto
  with run show "result = Inr (int (length (filter (\<lambda>c. connect c = None) (linear_conns as))))"
    "distinct calls" "set calls = {..<length as - 1}"
    using linear_done assms(1) linear_start_nonempty [of as] by (auto elim!: LinearTopology_MakeConnections.cases)
qed (use assms linear_pair_conns linear_conns_connected in auto)

section \<open>Properties\<close>

text \<open>
  C19. \<open>LinearTopology\<close> connects a line: for a non-empty map of agents, under every interleaving of its
  goroutines, every goroutine calls \<open>Connect\<close> once on its pair of neighbours in key order, the printed
  counter is the number of calls that succeeded, the run ends, and the pairs make all the agents
  connected.
\<close>

theorem linear_topology_connects_line:
  assumes "as \<noteq> []" "distinct (map fst as)" "length as < 2 ^ 63"
  shows "(\<exists>result calls. LinearTopology_MakeConnections connect as result calls) \<and>
    (\<forall>result calls. LinearTopology_MakeConnections connect as result calls \<longrightarrow>
       result = Inr (int (length (filter (\<lambda>c. connect c = None) (linear_conns as)))) \<and>
       distinct calls \<and> set calls = {..<length as - 1}) \<and>
    (\<forall>i < length as - 1. linear_pair as i = Inr (linear_conns as ! i)) \<and>
    connected_on (Port ` set (map snd as)) (linear_conns as)"
  using assms by (rule linear_topology_result)

text \<open>
  On an empty map \<open>LinearTopology\<close> panics: \<open>wg.Add\<close> is called with -1.
\<close>

theorem linear_topology_empty_panics:
  "LinearTopology_MakeConnections connect [] result calls \<longleftrightarrow> result = Inl NegativeWaitGroup \<and> calls = []"
proof -
  have "linear_start [] = Inl NegativeWaitGroup"
    by (simp add: linear_start_def)
  moreover from this have "\<not> linear_reach connect [] s" for s
    by (auto elim: linear_reach.induct)
  ultimately show ?thesis
    by (auto elim: LinearTopology_MakeConnections.cases intro: LinearTopology_MakeConnections.panics)
qed

text \<open>
  C18. \<open>RandomTopology\<close> with the ring and a \<open>Count\<close> of at least the number of agents: for two agents or
  more \<open>MakeConnections\<close> returns whatever the random draws and the schedule are, no pair is connected
  twice, the connections it makes join all the agents, and the counters it prints are exact. With a
  single agent (or none) it always panics, because the runner divides by the number of routines.
\<close>

theorem random_topology_connects_agents:
  assumes "peers_ok (map snd as)" "CreateRing t" "length as \<le> unat (Count t)" "unat (Count t) < 2 ^ 31"
  shows "(\<exists>conns result. RandomTopology_MakeConnections connect t r as conns result) \<and>
    (\<forall>conns result. RandomTopology_MakeConnections connect t r as conns result \<longrightarrow>
      (if 2 \<le> length as
       then simple_conns (map snd as) conns \<and> connected_on (Port ` set (map snd as)) conns \<and>
         result = Inr (int (length (filter (\<lambda>c. connect c = None) conns)), int (length (filter (\<lambda>c. connect c \<noteq> None) conns)))
       else result = Inl IntegerDivideByZero))"
proof (cases "2 \<le> length as")
  case True
  then show ?thesis
    using ring_phase [where peers = "map snd as" and t = t and k = 0 and connect = connect and r = r] assms
    unfolding RandomTopology_MakeConnections_def by (simp, blast)
next
  case False
  then show ?thesis
    using small_phase [OF assms(1), where t = t and k = 0 and connect = connect and r = r]
    unfolding RandomTopology_MakeConnections_def by (simp, blast)
qed

text \<open>
  C7. \<open>SuperClusterTopology\<close> with at least two validators, at least two non validators or none, and at
  most 1000000 agents: whatever the peering numbers, the random draws and the schedule, \<open>MakeConnections\<close>
  returns without a panic; all the phases together join all the agents; and when there are non
  validators the last phase connects the j-th of them to one validator, number j modulo the number of
  validators.
\<close>

theorem supercluster_connects_agents:
  assumes "peers_ok (map snd as)" "length as \<le> 1000000"
    and "vs = filter IsValidator (map snd as)" "2 \<le> length vs"
    and "ns = filter (\<lambda>a. \<not> IsValidator a) (map snd as)" "ns = [] \<or> 2 \<le> length ns"
  shows "(\<exists>phases result. SuperClusterTopology_MakeConnections connect t r as phases result) \<and>
    (\<forall>phases result. SuperClusterTopology_MakeConnections connect t r as phases result \<longrightarrow>
      result = Inr () \<and> connected_on (Port ` set (map snd as)) (concat (map fst phases)) \<and>
      (ns \<noteq> [] \<longrightarrow> fst (last phases) = map (\<lambda>j. (ns ! j, vs ! (j mod length vs))) [0..<length ns]))"
  using supercluster_runs [OF assms] supercluster_result [OF assms] unfolding validator_links_def by blast

text \<open>
  C36. \<open>SuperClusterTopology\<close> panics on a cluster with fewer than two validators, before anything is
  connected, and on a cluster with exactly one non validator, after the validators are connected:
  \<open>ConnectAll\<close> gets an empty list and the runner divides by zero.
\<close>

theorem supercluster_small_cluster_panics:
  assumes "peers_ok (map snd as)" "length as \<le> 1000000"
    and "length (filter IsValidator (map snd as)) \<le> 1 \<or> length (filter (\<lambda>a. \<not> IsValidator a) (map snd as)) = 1"
    and "SuperClusterTopology_MakeConnections connect t r as phases result"
  shows "result = Inl IntegerDivideByZero \<and>
    length phases = (if length (filter IsValidator (map snd as)) \<le> 1 then 0 else 1)"
proof -
  let ?vs = "filter IsValidator (map snd as)" and ?ns = "filter (\<lambda>a. \<not> IsValidator a) (map snd as)"
  have small: "res = Inl IntegerDivideByZero"
    if "length (filter P (map snd as)) \<le> 1" "populate_ConnectAll connect T r k (filter P (map snd as)) c res k'" for P T k c res k'
    using small_phase(2) [OF peers_ok_filter [OF assms(1)] that] by blast
  have big: "\<exists>sf. res = Inr sf"
    if "\<not> length ?vs \<le> 1" "populate_ConnectAll connect (validator_topology t) r k ?vs c res k'" for k c res k'
    using validators_phase(2) [OF assms(1,2) _ that(2)] that(1) by fastforce
  show ?thesis
  proof (cases "length ?vs \<le> 1")
    case True
    from assms(4) show ?thesis
      by cases (use True small [OF True] in \<open>auto dest!: small [OF True]\<close>)
  next
    case False
    then have "length ?ns = 1"
      using assms(3) by blast
    then have one: "length ?ns \<le> 1" "?ns \<noteq> []"
      by (metis order_refl, metis length_0_conv zero_neq_one)
    from assms(4) show ?thesis
      by cases (use False one in \<open>auto dest: small [OF one(1)] big [OF False]\<close>)
  qed
qed

theorem linear_topology_connects_line_witness:
  "\<exists>calls. LinearTopology_MakeConnections (\<lambda>c. if Port (fst c) = 0 then Some ''refused'' else None)
     [(10002, ex_agent\<lparr>Port := 2\<rparr>), (10000, ex_agent\<lparr>Port := 0\<rparr>), (10001, ex_agent\<lparr>Port := 1\<rparr>)] (Inr 1) calls \<and> set calls = {..<2}"
proof -
  let ?as = "[(10002, ex_agent\<lparr>Port := 2\<rparr>), (10000, ex_agent\<lparr>Port := 0\<rparr>), (10001, ex_agent\<lparr>Port := 1\<rparr>)]"
  let ?connect = "\<lambda>c. if Port (fst c) = 0 then Some ''refused'' else None"
  have "length (filter (\<lambda>c. ?connect c = None) (linear_conns ?as)) = 1"
    by code_simp
  then show ?thesis
    using linear_topology_connects_line [of ?as ?connect] by fastforce
qed

theorem random_topology_connects_agents_witness:
  "\<exists>conns result. RandomTopology_MakeConnections (\<lambda>_. None) \<lparr>MaxPeers = 1, Count = 5, CreateRing = True\<rparr> (\<lambda>k. k)
     (zip [10000..10003] (ex_peers 4)) conns result \<and> result = Inr (int (length conns), 0) \<and>
     connected_on (Port ` set (ex_peers 4)) conns"
proof -
  let ?t = "\<lparr>MaxPeers = 1, Count = 5, CreateRing = True\<rparr>" and ?as = "zip [10000..10003] (ex_peers 4)"
  have "map snd ?as = ex_peers 4" "length ?as = 4"
    by (simp_all add: ex_peers_def)
  then show ?thesis
    using random_topology_connects_agents [of ?as ?t "\<lambda>_. None" "\<lambda>k. k"] ex_peers_ok4 by fastforce
qed

definition ex_cluster :: "nat \<Rightarrow> nat \<Rightarrow> agents" where
  "ex_cluster v n = map (\<lambda>i. (10000 + int i, ex_agent\<lparr>Port := int i, Validator := i < v\<rparr>)) [0..<n]"

lemma ex_cluster_ok: "n < 2 ^ 63 \<Longrightarrow> peers_ok (map snd (ex_cluster v n))"
  by (simp add: peers_ok_def ex_cluster_def comp_def distinct_map inj_on_def)

theorem supercluster_connects_agents_witness:
  "\<exists>phases. SuperClusterTopology_MakeConnections (\<lambda>_. None) \<lparr>ValidatorPeering = 4, NonValidatorPeering = 2\<rparr> (\<lambda>k. k)
     (ex_cluster 3 7) phases (Inr ()) \<and> connected_on (Port ` set (map snd (ex_cluster 3 7))) (concat (map fst phases))"
proof -
  have "length (filter IsValidator (map snd (ex_cluster 3 7))) = 3"
    "length (filter (\<lambda>a. \<not> IsValidator a) (map snd (ex_cluster 3 7))) = 4" "length (ex_cluster 3 7) = 7"
    by code_simp+
  then show ?thesis
    using supercluster_connects_agents [where as = "ex_cluster 3 7" and connect = "\<lambda>_. None" and r = "\<lambda>k. k" and
        t = "\<lparr>ValidatorPeering = 4, NonValidatorPeering = 2\<rparr>", OF ex_cluster_ok _ refl _ refl]
    by fastforce
qed

theorem supercluster_small_cluster_panics_witness:
  "\<exists>result. SuperClusterTopology_MakeConnections (\<lambda>_. None) \<lparr>ValidatorPeering = 4, NonValidatorPeering = 2\<rparr> (\<lambda>k. k)
     (ex_cluster 1 3) [] result \<and> result = Inl IntegerDivideByZero"
proof -
  let ?t = "\<lparr>ValidatorPeering = 4, NonValidatorPeering = 2\<rparr>"
  have n: "length (filter IsValidator (map snd (ex_cluster 1 3))) = 1" "length (ex_cluster 1 3) = 3"
    by code_simp+
  have ok: "peers_ok (map snd (ex_cluster 1 3))"
    by (simp add: ex_cluster_ok)
  then obtain conns k where "populate_ConnectAll (\<lambda>_. None) (validator_topology ?t) (\<lambda>k. k) 0
      (filter IsValidator (map snd (ex_cluster 1 3))) conns (Inl IntegerDivideByZero) k"
    using small_phase [OF peers_ok_filter [OF ok], of IsValidator] n(1) by (metis order_refl)
  then have run: "SuperClusterTopology_MakeConnections (\<lambda>_. None) ?t (\<lambda>k. k) (ex_cluster 1 3) [] (Inl IntegerDivideByZero)"
    by (rule SuperClusterTopology_MakeConnections.validators_panic [OF refl])
  then show ?thesis
    using supercluster_small_cluster_panics [OF ok _ _ run] n by auto
qed

end
