(* ===== verification/NetLatency.thy ===== *)
theory NetLatency
  imports Binary
begin

text \<open>
  \<open>latency/network_latency.go\<close>: the wrapper that injects bandwidth, latency and MTU into a \<open>net.Conn\<close>.

  A \<open>time.Time\<close> is the number of nanoseconds since the Unix epoch, an unbounded \<open>int\<close> (its zero value
  is the year 1); \<open>Sub\<close> saturates at the bounds of \<open>int64\<close> and \<open>UnixNano\<close> wraps. A \<open>time.Duration\<close> is
  an \<open>int\<close> with the wrap-around of \<open>int64\<close> written out. The clock and \<open>sleep\<close> are the variables \<open>now\<close>
  and \<open>sleep\<close> of the source: a reading of the clock is an argument, the durations slept are a result.

  The wrapped \<open>net.Conn\<close> is not part of the program: \<open>cw\<close> is its \<open>Write\<close>, on an arbitrary state; for
  \<open>Read\<close> the bytes that arrive until the end of the connection are a list.
\<close>

section \<open>Time\<close>

definition sat64 :: "int \<Rightarrow> int" where
  "sat64 x = (if x < - (2 ^ 63) then - (2 ^ 63) else if x \<ge> 2 ^ 63 then 2 ^ 63 - 1 else x)"

text \<open>The zero \<open>time.Time\<close>: January 1, year 1.\<close>

definition zero_time :: int where
  "zero_time = - 62135596800 * 10 ^ 9"

definition time_Sub :: "int \<Rightarrow> int \<Rightarrow> int" where
  "time_Sub t u = sat64 (t - u)"

definition UnixNano :: "int \<Rightarrow> int" where
  "UnixNano t = wrap64 t"

abbreviation second :: int where "second \<equiv> 1000000000"

abbreviation millisecond :: int where "millisecond \<equiv> 1000000"

section \<open>Networks and connections\<close>

record Network =
  Kbps :: int
  Latency :: int
  MTU :: int

definition Local :: Network where "Local = \<lparr>Kbps = 0, Latency = 0, MTU = 0\<rparr>"

definition LAN :: Network where "LAN = \<lparr>Kbps = 100 * 1024, Latency = 2 * millisecond, MTU = 1500\<rparr>"

definition WAN :: Network where "WAN = \<lparr>Kbps = 20 * 1024, Latency = 30 * millisecond, MTU = 1500\<rparr>"

definition Longhaul :: Network where "Longhaul = \<lparr>Kbps = 1000 * 1024, Latency = 200 * millisecond, MTU = 9000\<rparr>"

record netConn =
  network :: Network
  readBuf :: "byte list"
  lastSendEnd :: int
  delay :: int

text \<open>The wrapped connection itself is kept beside the record.\<close>

definition Network_Conn :: "Network \<Rightarrow> 'c \<Rightarrow> error + netConn \<times> 'c" where
  "Network_Conn n c = Inr (\<lparr>network = n, readBuf = [], lastSendEnd = zero_time, delay = Latency n\<rparr>, c)"

text \<open>\<open>accept\<close> is the \<open>Accept\<close> of the wrapped listener.\<close>

record 'l netListener =
  nl_Listener :: 'l
  nl_network :: Network

definition Listener :: "Network \<Rightarrow> 'l \<Rightarrow> 'l netListener" where
  "Listener n l = \<lparr>nl_Listener = l, nl_network = n\<rparr>"

definition Accept :: "('l \<Rightarrow> error + 'c) \<Rightarrow> 'l netListener \<Rightarrow> error + netConn \<times> 'c" where
  "Accept accept l = (case accept (nl_Listener l) of Inl e \<Rightarrow> Inl e | Inr c \<Rightarrow> Network_Conn (nl_network l) c)"

definition Dialer :: "Network \<Rightarrow> (string \<Rightarrow> string \<Rightarrow> error + 'c) \<Rightarrow> string \<Rightarrow> string \<Rightarrow> error + netConn \<times> 'c" where
  "Dialer n d nw address = (case d nw address of Inl e \<Rightarrow> Inl e | Inr conn \<Rightarrow> Network_Conn n conn)"

definition TimeoutDialer ::
  "Network \<Rightarrow> (string \<Rightarrow> string \<Rightarrow> int \<Rightarrow> error + 'c) \<Rightarrow> string \<Rightarrow> string \<Rightarrow> int \<Rightarrow> error + netConn \<times> 'c" where
  "TimeoutDialer n d nw address timeout =
     (case d nw address timeout of Inl e \<Rightarrow> Inl e | Inr conn \<Rightarrow> Network_Conn n conn)"

definition ContextDialer ::
  "Network \<Rightarrow> ('ctx \<Rightarrow> string \<Rightarrow> string \<Rightarrow> error + 'c) \<Rightarrow> 'ctx \<Rightarrow> string \<Rightarrow> string \<Rightarrow> error + netConn \<times> 'c" where
  "ContextDialer n d ctx nw address =
     (case d ctx nw address of Inl e \<Rightarrow> Inl e | Inr conn \<Rightarrow> Network_Conn n conn)"

definition pktTime :: "Network \<Rightarrow> int \<Rightarrow> int go" where
  "pktTime n b = (if Kbps n \<le> 0 then Inr 0
     else go_div (wrap64 (b * second)) (wrap64 (Kbps n * (1024 div 8))))"

section \<open>Headers\<close>

record header =
  ReadTime :: int
  Sz :: int

definition header_wf :: "header \<Rightarrow> bool" where
  "header_wf h \<longleftrightarrow> int64_range (ReadTime h) \<and> - (2 ^ 31) \<le> Sz h \<and> Sz h < 2 ^ 31"

definition encode_header :: "header \<Rightarrow> byte list" where
  "encode_header h = put_uint64 (word_of_int (ReadTime h)) @ put_uint32 (word_of_int (Sz h))"

definition decode_header :: "byte list \<Rightarrow> header" where
  "decode_header bs = \<lparr>ReadTime = sint (get_uint64 (take 8 bs)), Sz = sint (get_uint32 (drop 8 bs))\<rparr>"

section \<open>Write\<close>

text \<open>Beside the connection: the clock reading \<open>tNow\<close>, the bytes counted so far and the durations slept.\<close>

record 'c write_state =
  w_conn :: netConn
  w_base :: 'c
  w_now :: int
  w_n :: int
  w_slept :: "int list"

definition binary_Write :: "('c \<Rightarrow> byte list \<Rightarrow> int \<times> error option \<times> 'c) \<Rightarrow> 'c \<Rightarrow> byte list \<Rightarrow> error option \<times> 'c" where
  "binary_Write cw c bs = (case cw c bs of (_, e, c') \<Rightarrow> (e, c'))"

text \<open>The packet cut off the front and the rest (lines 106 to 112).\<close>

definition next_packet :: "Network \<Rightarrow> byte list \<Rightarrow> byte list \<times> byte list" where
  "next_packet n p = (if MTU n > 0 \<and> int (length p) > MTU n then (take (nat (MTU n)) p, drop (nat (MTU n)) p) else (p, []))"

text \<open>The wait for a full network (lines 113 to 119).\<close>

definition wait_congestion :: "'c write_state \<Rightarrow> 'c write_state" where
  "wait_congestion s =
     (if Kbps (network (w_conn s)) > 0
      then let congestion = wrap64 (time_Sub (lastSendEnd (w_conn s)) (w_now s) - delay (w_conn s))
           in if congestion > 0 then s\<lparr>w_now := w_now s + congestion, w_slept := w_slept s @ [congestion]\<rparr> else s
      else s)"

text \<open>One packet (lines 113 to 129): the error is the one to return, if any.\<close>

definition send_packet :: "('c \<Rightarrow> byte list \<Rightarrow> int \<times> error option \<times> 'c) \<Rightarrow> byte list \<Rightarrow> 'c write_state \<Rightarrow>
    (error option \<times> 'c write_state) go" where
  "send_packet cw pkt s =
     (let s = wait_congestion s
      in go_bind (pktTime (network (w_conn s)) (int (length pkt))) (\<lambda>d.
         let conn = (w_conn s)\<lparr>lastSendEnd := lastSendEnd (w_conn s) + d\<rparr>;
             hdr = \<lparr>ReadTime = UnixNano (lastSendEnd conn + delay conn), Sz = wrap32 (int (length pkt))\<rparr>
         in case binary_Write cw (w_base s) (encode_header hdr) of
              (Some e, b) \<Rightarrow> Inr (Some e, s\<lparr>w_conn := conn, w_base := b\<rparr>)
            | (None, b) \<Rightarrow> (case cw b pkt of (x, e, b') \<Rightarrow>
                Inr (e, s\<lparr>w_conn := conn, w_base := b', w_n := w_n s + x\<rparr>))))"

lemma next_packet_rest: "p \<noteq> [] \<Longrightarrow> length (snd (next_packet n p)) < length p"
  by (auto simp: next_packet_def)

function write_loop :: "('c \<Rightarrow> byte list \<Rightarrow> int \<times> error option \<times> 'c) \<Rightarrow> byte list \<Rightarrow> 'c write_state \<Rightarrow>
    (error option \<times> 'c write_state) go" where
  "write_loop cw p s =
     (if p = [] then Inr (None, s)
      else case send_packet cw (fst (next_packet (network (w_conn s)) p)) s of
             Inl e \<Rightarrow> Inl e
           | Inr (Some e, s') \<Rightarrow> Inr (Some e, s')
           | Inr (None, s') \<Rightarrow> write_loop cw (snd (next_packet (network (w_conn s)) p)) s')"
  by pat_completeness auto
termination
  by (relation "measure (\<lambda>(cw, p, s). length p)") (auto simp: next_packet_rest)

declare write_loop.simps [simp del]

definition netConn_Write :: "('c \<Rightarrow> byte list \<Rightarrow> int \<times> error option \<times> 'c) \<Rightarrow> int \<Rightarrow> byte list \<Rightarrow> netConn \<times> 'c \<Rightarrow>
    (error option \<times> 'c write_state) go" where
  "netConn_Write cw tNow p = (\<lambda>(c, base).
     let c = (if lastSendEnd c < tNow then c\<lparr>lastSendEnd := tNow\<rparr> else c)
     in write_loop cw p \<lparr>w_conn = c, w_base = base, w_now = tNow, w_n = 0, w_slept = []\<rparr>)"

section \<open>Read\<close>

text \<open>\<open>bytes.Buffer.Read\<close> into a slice of length \<open>k\<close>.\<close>

definition buffer_Read :: "nat \<Rightarrow> byte list \<Rightarrow> (io_error option \<times> byte list) \<times> byte list" where
  "buffer_Read k buf = (if buf = [] then ((if k = 0 then None else Some EOF, []), [])
     else ((None, take k buf), drop k buf))"

text \<open>\<open>io.CopyN\<close>: the bytes copied, the rest of the source, and whether it ended early.\<close>

definition CopyN :: "int \<Rightarrow> byte list \<Rightarrow> byte list \<times> byte list \<times> io_error option" where
  "CopyN n src = (take (nat n) src, drop (nat n) src, if int (length src) < n then Some EOF else None)"

record read_result =
  rd_err :: "io_error option"
  rd_data :: "byte list"
  rd_slept :: int
  rd_conn :: netConn
  rd_src :: "byte list"

text \<open>\<open>t_end\<close> is the clock when the deferred \<open>sleep\<close> runs; no header, no sleep.\<close>

definition netConn_Read :: "int \<Rightarrow> nat \<Rightarrow> netConn \<Rightarrow> byte list \<Rightarrow> read_result" where
  "netConn_Read t_end k c src =
     (if readBuf c = []
      then case binary_read 12 decode_header src of
             (Inl e, src') \<Rightarrow> \<lparr>rd_err = Some e, rd_data = [], rd_slept = 0, rd_conn = c, rd_src = src'\<rparr>
           | (Inr hdr, src') \<Rightarrow>
               let wait = time_Sub (ReadTime hdr) t_end
               in (case CopyN (Sz hdr) src' of
                     (bs, rest, Some e) \<Rightarrow> \<lparr>rd_err = Some e, rd_data = [], rd_slept = wait, rd_conn = c\<lparr>readBuf := bs\<rparr>, rd_src = rest\<rparr>
                   | (bs, rest, None) \<Rightarrow>
                       (case buffer_Read k bs of ((e, d), buf) \<Rightarrow>
                          \<lparr>rd_err = e, rd_data = d, rd_slept = wait, rd_conn = c\<lparr>readBuf := buf\<rparr>, rd_src = rest\<rparr>))
      else case buffer_Read k (readBuf c) of ((e, d), buf) \<Rightarrow>
             \<lparr>rd_err = e, rd_data = d, rd_slept = 0, rd_conn = c\<lparr>readBuf := buf\<rparr>, rd_src = src\<rparr>)"

section \<open>Framing\<close>

lemma sint_word64: "int64_range x \<Longrightarrow> sint (word_of_int x :: 64 word) = x"
  by (simp add: int64_range_def signed_of_int signed_take_bit_int_eq_self)

lemma sint_word32: "- (2 ^ 31) \<le> x \<Longrightarrow> x < 2 ^ 31 \<Longrightarrow> sint (word_of_int x :: 32 word) = x"
  by (simp add: signed_of_int signed_take_bit_int_eq_self)

interpretation header_codec: fixed_codec 12 encode_header decode_header header_wf
  by unfold_locales (simp_all add: encode_header_def decode_header_def header_wf_def sint_word64 sint_word32)

type_synonym frame = "header \<times> byte list"

definition frame_bytes :: "frame \<Rightarrow> byte list" where
  "frame_bytes f = encode_header (fst f) @ snd f"

definition frame_ok :: "frame \<Rightarrow> bool" where
  "frame_ok f \<longleftrightarrow> header_wf (fst f) \<and> snd f \<noteq> [] \<and> Sz (fst f) = int (length (snd f))"

text \<open>The packets a payload is cut into.\<close>

function packets :: "Network \<Rightarrow> byte list \<Rightarrow> byte list list" where
  "packets n p = (if p = [] then [] else fst (next_packet n p) # packets n (snd (next_packet n p)))"
  by pat_completeness auto
termination
  by (relation "measure (\<lambda>(n, p). length p)") (auto simp: next_packet_rest)

declare packets.simps [simp del]

lemma packets_Nil [simp]: "packets n [] = []"
  by (simp add: packets.simps)

lemma concat_packets: "concat (packets n p) = p"
proof (induction n p rule: packets.induct)
  case (1 n p)
  then show ?case
    by (simp add: packets.simps [of n p]) (simp add: next_packet_def)
qed

lemma packets_bounded:
  "pkt \<in> set (packets n p) \<Longrightarrow> pkt \<noteq> [] \<and> length pkt \<le> length p \<and> (0 < MTU n \<longrightarrow> int (length pkt) \<le> MTU n)"
proof (induction n p rule: packets.induct)
  case (1 n p)
  then consider "p \<noteq> []" "pkt = fst (next_packet n p)" | "p \<noteq> []" "pkt \<in> set (packets n (snd (next_packet n p)))"
    by (auto simp: packets.simps [of n p] split: if_splits)
  then show ?case
  proof cases
    case 1
    then show ?thesis
      by (auto simp: next_packet_def)
  next
    case 2
    then show ?thesis
      using "1.IH" next_packet_rest [of p n] by fastforce
  qed
qed

text \<open>The transmission time of a packet, when nothing overflows.\<close>

definition tx :: "Network \<Rightarrow> nat \<Rightarrow> int" where
  "tx n b = (if Kbps n \<le> 0 then 0 else int b * second div (Kbps n * 128))"

definition network_ok :: "Network \<Rightarrow> bool" where
  "network_ok n \<longleftrightarrow> Kbps n * 128 < 2 ^ 63"

lemma pktTime_tx:
  assumes "network_ok n" "b < 2 ^ 31"
  shows "pktTime n (int b) = Inr (tx n b)"
proof (cases "Kbps n \<le> 0")
  case False
  have "wrap64 (int b * second) = int b * second" "wrap64 (Kbps n * 128) = Kbps n * 128"
    using assms False by (intro wrap64_id; simp add: network_ok_def)+
  then show ?thesis
    using False assms(2) go_div_nonneg [of "int b * second" "Kbps n * 128"] by (simp add: pktTime_def tx_def)
qed (simp add: pktTime_def tx_def)

lemma tx_nonneg: "0 \<le> tx n b"
  by (simp add: tx_def pos_imp_zdiv_nonneg_iff)

text \<open>The frames of a list of packets: the \<open>k\<close>-th may be read when it and its predecessors have been
  transmitted, starting at \<open>t\<close>, plus the delay.\<close>

primrec frames :: "Network \<Rightarrow> int \<Rightarrow> int \<Rightarrow> byte list list \<Rightarrow> frame list" where
  "frames n t d [] = []"
| "frames n t d (p # ps) =
     (\<lparr>ReadTime = UnixNano (t + tx n (length p) + d), Sz = int (length p)\<rparr>, p) # frames n (t + tx n (length p)) d ps"

lemma map_snd_frames [simp]: "map snd (frames n t d ps) = ps"
  by (induction ps arbitrary: t) simp_all

lemma frames_ok:
  "(\<And>p. p \<in> set ps \<Longrightarrow> p \<noteq> [] \<and> length p < 2 ^ 31) \<Longrightarrow> \<forall>f \<in> set (frames n t d ps). frame_ok f"
proof (induction ps arbitrary: t)
  case (Cons p ps)
  then have "frame_ok (\<lparr>ReadTime = UnixNano (t + tx n (length p) + d), Sz = int (length p)\<rparr>, p)"
    by (simp add: frame_ok_def header_wf_def UnixNano_def wrap64_range)
  then show ?case
    using Cons.IH [of "t + tx n (length p)"] Cons.prems by simp
qed simp

text \<open>What \<open>Write\<close> needs of the wrapped connection to succeed: it takes all bytes in order.\<close>

definition reliable :: "('c \<Rightarrow> byte list \<Rightarrow> int \<times> error option \<times> 'c) \<Rightarrow> ('c \<Rightarrow> byte list) \<Rightarrow> bool" where
  "reliable cw wire \<longleftrightarrow> (\<forall>c bs. \<exists>c'. cw c bs = (int (length bs), None, c') \<and> wire c' = wire c @ bs)"

lemma wait_congestion_conn [simp]: "w_conn (wait_congestion s) = w_conn s" "w_base (wait_congestion s) = w_base s"
  "w_n (wait_congestion s) = w_n s"
  by (simp_all add: wait_congestion_def Let_def)

lemma send_packet_reliable:
  assumes "reliable cw wire" "network_ok (network (w_conn s))" "length pkt < 2 ^ 31"
  defines "t' \<equiv> lastSendEnd (w_conn s) + tx (network (w_conn s)) (length pkt)"
  shows "\<exists>s'. send_packet cw pkt s = Inr (None, s') \<and> w_conn s' = (w_conn s)\<lparr>lastSendEnd := t'\<rparr> \<and>
    w_n s' = w_n s + int (length pkt) \<and>
    w_now s' = w_now (wait_congestion s) \<and> w_slept s' = w_slept (wait_congestion s) \<and>
    wire (w_base s') = wire (w_base s) @ frame_bytes (\<lparr>ReadTime = UnixNano (t' + delay (w_conn s)), Sz = int (length pkt)\<rparr>, pkt)"
proof -
  let ?hdr = "\<lparr>ReadTime = UnixNano (t' + delay (w_conn s)), Sz = int (length pkt)\<rparr>"
  obtain b1 where b1: "cw (w_base s) (encode_header ?hdr) = (int (length (encode_header ?hdr)), None, b1)"
    "wire b1 = wire (w_base s) @ encode_header ?hdr"
    using assms(1) unfolding reliable_def by blast
  obtain b2 where b2: "cw b1 pkt = (int (length pkt), None, b2)" "wire b2 = wire b1 @ pkt"
    using assms(1) unfolding reliable_def by blast
  have sz: "wrap32 (int (length pkt)) = int (length pkt)"
    using assms(3) by (intro wrap32_id) auto
  show ?thesis
    using pktTime_tx [OF assms(2,3)] b1 b2 sz
    by (simp add: send_packet_def Let_def binary_Write_def frame_bytes_def t'_def del: go_bind_Inr_iff)
qed

lemma write_loop_reliable:
  assumes "reliable cw wire" "network_ok (network (w_conn s))" "length p < 2 ^ 31"
  shows "\<exists>s'. write_loop cw p s = Inr (None, s') \<and> w_n s' = w_n s + int (length p) \<and>
    wire (w_base s') = wire (w_base s) @ concat (map frame_bytes
      (frames (network (w_conn s)) (lastSendEnd (w_conn s)) (delay (w_conn s)) (packets (network (w_conn s)) p)))"
  using assms
proof (induction cw p s rule: write_loop.induct)
  case (1 cw p s)
  show ?case
  proof (cases "p = []")
    case False
    let ?n = "network (w_conn s)"
    let ?pkt = "fst (next_packet ?n p)" and ?rest = "snd (next_packet ?n p)"
    have pkt: "length ?pkt < 2 ^ 31" "length ?rest < 2 ^ 31" "length ?pkt + length ?rest = length p"
      using "1.prems"(3) by (auto simp: next_packet_def)
    obtain s1 where s1: "send_packet cw ?pkt s = Inr (None, s1)"
      "w_conn s1 = (w_conn s)\<lparr>lastSendEnd := lastSendEnd (w_conn s) + tx ?n (length ?pkt)\<rparr>"
      "w_n s1 = w_n s + int (length ?pkt)"
      "wire (w_base s1) = wire (w_base s) @ frame_bytes (\<lparr>ReadTime = UnixNano (lastSendEnd (w_conn s) + tx ?n (length ?pkt) +
         delay (w_conn s)), Sz = int (length ?pkt)\<rparr>, ?pkt)"
      using send_packet_reliable [OF "1.prems"(1,2) pkt(1)] by blast
    then show ?thesis
      using "1.IH" [OF False s1(1) _ refl] "1.prems" False pkt
      by (auto simp: write_loop.simps [of cw p s] packets.simps [of ?n p])
  qed (simp add: write_loop.simps)
qed

lemma Write_reliable:
  assumes "reliable cw wire" "network_ok (network c)" "length p < 2 ^ 31"
  shows "\<exists>s. netConn_Write cw tNow p (c, base) = Inr (None, s) \<and> w_n s = int (length p) \<and>
      wire (w_base s) = wire base @ concat (map frame_bytes
        (frames (network c) (max (lastSendEnd c) tNow) (delay c) (packets (network c) p)))"
proof -
  let ?c = "if lastSendEnd c < tNow then c\<lparr>lastSendEnd := tNow\<rparr> else c"
  have c: "network ?c = network c" "delay ?c = delay c" "lastSendEnd ?c = max (lastSendEnd c) tNow"
    by auto
  have run: "netConn_Write cw tNow p (c, base) = write_loop cw p \<lparr>w_conn = ?c, w_base = base, w_now = tNow, w_n = 0, w_slept = []\<rparr>"
    by (simp add: netConn_Write_def)
  show ?thesis
    using write_loop_reliable [OF assms(1), of "\<lparr>w_conn = ?c, w_base = base, w_now = tNow, w_n = 0, w_slept = []\<rparr>" p]
      assms(2,3) c unfolding run by simp
qed

section \<open>Throttling\<close>

lemma tx_le: "tx n b \<le> int b * second"
proof (cases "Kbps n \<le> 0")
  case False
  then have "int b * second div (Kbps n * 128) \<le> int b * second div 1"
    by (intro zdiv_mono2) auto
  then show ?thesis
    using False by (simp add: tx_def)
qed (simp add: tx_def)

lemma wait_congestion_until:
  assumes "0 < Kbps (network (w_conn s))" "0 \<le> delay (w_conn s)" "delay (w_conn s) < 2 ^ 62"
    "0 \<le> lastSendEnd (w_conn s) - w_now s" "lastSendEnd (w_conn s) - w_now s < 2 ^ 62"
  shows "w_now (wait_congestion s) = max (w_now s) (lastSendEnd (w_conn s) - delay (w_conn s))"
    and "w_now (wait_congestion s) - sum_list (w_slept (wait_congestion s)) = w_now s - sum_list (w_slept s)"
proof -
  have "wrap64 (time_Sub (lastSendEnd (w_conn s)) (w_now s) - delay (w_conn s)) = lastSendEnd (w_conn s) - w_now s - delay (w_conn s)"
    using assms by (subst wrap64_id) (simp_all add: time_Sub_def sat64_def)
  then show "w_now (wait_congestion s) = max (w_now s) (lastSendEnd (w_conn s) - delay (w_conn s))"
    "w_now (wait_congestion s) - sum_list (w_slept (wait_congestion s)) = w_now s - sum_list (w_slept s)"
    using assms(1) by (auto simp: wait_congestion_def Let_def)
qed

lemma write_loop_throttles:
  assumes "reliable cw wire" "network_ok (network (w_conn s))" "0 < Kbps (network (w_conn s))" "p \<noteq> []" "length p < 2 ^ 31"
    "0 \<le> delay (w_conn s)" "delay (w_conn s) < 2 ^ 62" "0 \<le> lastSendEnd (w_conn s) - w_now s"
    "lastSendEnd (w_conn s) - w_now s + int (length p) * second < 2 ^ 62"
    "write_loop cw p s = Inr (e, s')"
  shows "w_now s' = max (w_now s) (lastSendEnd (w_conn s) +
      sum_list (map (\<lambda>pkt. tx (network (w_conn s)) (length pkt)) (butlast (packets (network (w_conn s)) p))) - delay (w_conn s)) \<and>
    w_now s' - sum_list (w_slept s') = w_now s - sum_list (w_slept s)"
  using assms
proof (induction cw p s rule: write_loop.induct)
  case (1 cw p s)
  let ?n = "network (w_conn s)"
  let ?pkt = "fst (next_packet ?n p)" and ?rest = "snd (next_packet ?n p)"
  have pkt: "length ?pkt < 2 ^ 31" "length ?rest < 2 ^ 31" "length p = length ?pkt + length ?rest"
    using "1.prems"(5) by (auto simp: next_packet_def)
  obtain s1 where s1: "send_packet cw ?pkt s = Inr (None, s1)"
    "w_conn s1 = (w_conn s)\<lparr>lastSendEnd := lastSendEnd (w_conn s) + tx ?n (length ?pkt)\<rparr>"
    "w_now s1 = w_now (wait_congestion s)" "w_slept s1 = w_slept (wait_congestion s)"
    using send_packet_reliable [OF "1.prems"(1,2) pkt(1)] by blast
  have "lastSendEnd (w_conn s) - w_now s < 2 ^ 62"
    using "1.prems"(9) of_nat_0_le_iff [of "length p", where ?'a = int] by linarith
  note w = wait_congestion_until [OF "1.prems"(3,6,7,8) this]
  have now: "w_now s1 = max (w_now s) (lastSendEnd (w_conn s) - delay (w_conn s))"
    "w_now s1 - sum_list (w_slept s1) = w_now s - sum_list (w_slept s)"
    using s1(3,4) w by simp_all
  have run: "write_loop cw p s = write_loop cw ?rest s1"
    using "1.prems"(4) s1(1) by (simp add: write_loop.simps [of cw p s])
  show ?case
  proof (cases "?rest = []")
    case True
    then have "s' = s1"
      using run "1.prems"(10) by (simp add: write_loop.simps)
    then show ?thesis
      using now True "1.prems"(4) by (simp add: packets.simps [of ?n p])
  next
    case False
    have tx: "0 \<le> tx ?n (length ?pkt)" "tx ?n (length ?pkt) \<le> int (length ?pkt) * second"
      by (rule tx_nonneg tx_le)+
    have bound: "lastSendEnd (w_conn s1) - w_now s1 + int (length ?rest) * second < 2 ^ 62"
      using "1.prems"(9) tx(2) now(1) by (simp add: s1(2) pkt(3))
    have "0 \<le> lastSendEnd (w_conn s1) - w_now s1"
      using "1.prems"(6,8) tx(1) now(1) by (simp add: s1(2))
    then have IH: "w_now s' = max (w_now s1) (lastSendEnd (w_conn s1) +
      sum_list (map (\<lambda>pkt. tx ?n (length pkt)) (butlast (packets ?n ?rest))) - delay (w_conn s)) \<and>
      w_now s' - sum_list (w_slept s') = w_now s1 - sum_list (w_slept s1)"
      using "1.IH" [OF "1.prems"(4) s1(1) _ refl "1.prems"(1)] "1.prems" False pkt(2) bound run s1(2) by simp
    have "packets ?n ?rest \<noteq> []"
      using False by (simp add: packets.simps [of ?n ?rest])
    moreover have "0 \<le> sum_list (map (\<lambda>pkt. tx ?n (length pkt)) (butlast (packets ?n ?rest)))"
      by (intro sum_list_nonneg) (auto simp: tx_nonneg)
    ultimately show ?thesis
      using IH now tx(1) "1.prems"(4) by (simp add: packets.simps [of ?n p] s1(2))
  qed
qed

section \<open>Reading what was written\<close>

text \<open>Successive calls of \<open>Read\<close>, each with its clock and its buffer size.\<close>

primrec read_seq :: "(int \<times> nat) list \<Rightarrow> netConn \<Rightarrow> byte list \<Rightarrow> read_result list" where
  "read_seq [] c src = []"
| "read_seq (tk # tks) c src =
     (let r = netConn_Read (fst tk) (snd tk) c src in r # read_seq tks (rd_conn r) (rd_src r))"

definition pending :: "netConn \<Rightarrow> byte list \<Rightarrow> byte list \<Rightarrow> bool" where
  "pending c src rest \<longleftrightarrow> (\<exists>fs. src = concat (map frame_bytes fs) \<and> (\<forall>f \<in> set fs. frame_ok f) \<and>
     rest = readBuf c @ concat (map snd fs))"

lemma CopyN_packet: "CopyN (int (length p)) (p @ rest) = (p, rest, None)"
  by (simp add: CopyN_def)

lemma Read_frame:
  assumes "readBuf c = []" "frame_ok f" "0 < k"
  shows "netConn_Read t k c (frame_bytes f @ others) =
    \<lparr>rd_err = None, rd_data = take k (snd f), rd_slept = time_Sub (ReadTime (fst f)) t,
     rd_conn = c\<lparr>readBuf := drop k (snd f)\<rparr>, rd_src = others\<rparr>"
  using assms header_codec.read_back [of "fst f" "snd f @ others"] CopyN_packet [of "snd f" others]
  by (simp add: netConn_Read_def frame_bytes_def frame_ok_def buffer_Read_def)

lemma Read_buffer:
  "readBuf c \<noteq> [] \<Longrightarrow> netConn_Read t k c src =
    \<lparr>rd_err = None, rd_data = take k (readBuf c), rd_slept = 0, rd_conn = c\<lparr>readBuf := drop k (readBuf c)\<rparr>, rd_src = src\<rparr>"
  by (simp add: netConn_Read_def buffer_Read_def)

text \<open>A read delivers a non-empty prefix of what is pending, or the end of the connection.\<close>

lemma Read_pending:
  fixes t :: int
  assumes "pending c src rest" "0 < k"
  defines "r \<equiv> netConn_Read t k c src"
  shows "rest = rd_data r @ drop (length (rd_data r)) rest \<and> pending (rd_conn r) (rd_src r) (drop (length (rd_data r)) rest) \<and>
    (rest \<noteq> [] \<longrightarrow> rd_data r \<noteq> [] \<and> rd_err r = None) \<and> (rest = [] \<longrightarrow> rd_err r = Some EOF)"
proof -
  obtain fs where fs: "src = concat (map frame_bytes fs)" "\<forall>f \<in> set fs. frame_ok f" "rest = readBuf c @ concat (map snd fs)"
    using assms(1) by (auto simp: pending_def)
  show ?thesis
  proof (cases "readBuf c = []")
    case False
    then have "rd_data r \<noteq> []" "rest = rd_data r @ drop (length (rd_data r)) rest" "rd_err r = None"
      "drop (length (rd_data r)) rest = drop k (readBuf c) @ concat (map snd fs)"
      using assms(2) fs(3) by (simp_all add: r_def Read_buffer min_def)
    moreover have "pending (rd_conn r) (rd_src r) (drop k (readBuf c) @ concat (map snd fs))"
      using False fs by (auto simp: r_def Read_buffer pending_def)
    ultimately show ?thesis
      using False fs(3) by simp
  next
    case empty: True
    show ?thesis
    proof (cases fs)
      case Nil
      then have "netConn_Read t k c src = \<lparr>rd_err = Some EOF, rd_data = [], rd_slept = 0, rd_conn = c, rd_src = []\<rparr>"
        using empty fs(1) header_codec.read_short [of "[]"] by (simp add: netConn_Read_def)
      then show ?thesis
        using fs assms(1) Nil empty by (simp add: r_def pending_def)
    next
      case (Cons f others)
      have f: "frame_ok f" "snd f \<noteq> []"
        using fs(2) Cons by (auto simp: frame_ok_def)
      have r: "rd_data r = take k (snd f)" "rd_err r = None" "rd_conn r = c\<lparr>readBuf := drop k (snd f)\<rparr>"
        "rd_src r = concat (map frame_bytes others)"
        using Read_frame [OF empty f(1) assms(2)] fs(1) Cons by (simp_all add: r_def)
      have rest: "rest = snd f @ concat (map snd others)"
        using fs(3) Cons empty by simp
      have d: "drop (length (rd_data r)) rest = drop k (snd f) @ concat (map snd others)"
        "rest = rd_data r @ drop k (snd f) @ concat (map snd others)"
        by (simp_all add: r rest min_def)
      have "pending (rd_conn r) (rd_src r) (drop k (snd f) @ concat (map snd others))"
        using fs(2) Cons by (auto simp: pending_def r)
      moreover have "rd_data r \<noteq> []" "rest \<noteq> []"
        using f(2) assms(2) by (simp_all add: r rest)
      ultimately show ?thesis
        unfolding d(1) using d(2) r(2) by blast
    qed
  qed
qed

lemma read_seq_pending:
  assumes "pending c src rest" "\<forall>tk \<in> set tks. 0 < snd tk"
  defines "out \<equiv> concat (map rd_data (read_seq tks c src))"
  shows "(\<exists>others. rest = out @ others) \<and> (length rest \<le> length tks \<longrightarrow> out = rest)"
  using assms(1,2) unfolding out_def
proof (induction tks arbitrary: c src rest)
  case (Cons tk tks)
  let ?r = "netConn_Read (fst tk) (snd tk) c src"
  note step = Read_pending [OF Cons.prems(1), of "snd tk" "fst tk"]
  let ?rest = "drop (length (rd_data ?r)) rest"
  have p: "pending (rd_conn ?r) (rd_src ?r) ?rest" "rest = rd_data ?r @ ?rest" "rest \<noteq> [] \<longrightarrow> rd_data ?r \<noteq> []"
    using step Cons.prems(2) by auto
  have "(\<exists>others. ?rest = concat (map rd_data (read_seq tks (rd_conn ?r) (rd_src ?r))) @ others) \<and>
    (length ?rest \<le> length tks \<longrightarrow> concat (map rd_data (read_seq tks (rd_conn ?r) (rd_src ?r))) = ?rest)"
    using Cons.prems(2) by (intro Cons.IH p) simp
  moreover have "length ?rest \<le> length tks" if "length rest \<le> length (tk # tks)"
  proof (cases "rest = []")
    case False
    then have "0 < length (rd_data ?r)"
      using p(3) by simp
    then show ?thesis
      using that unfolding length_drop length_Cons by linarith
  qed simp
  ultimately show ?case
    using p(2) by (simp add: Let_def) (metis append.assoc)
qed simp

section \<open>Properties\<close>

text \<open>A wrapped connection for the concrete instances: an in-memory buffer that takes everything.\<close>

definition pipe_write :: "byte list \<Rightarrow> byte list \<Rightarrow> int \<times> error option \<times> byte list" where
  "pipe_write c bs = (int (length bs), None, c @ bs)"

lemma pipe_reliable: "reliable pipe_write (\<lambda>c. c)"
  by (simp add: reliable_def pipe_write_def)

definition wan_conn :: netConn where
  "wan_conn = \<lparr>network = WAN, readBuf = [], lastSendEnd = zero_time, delay = Latency WAN\<rparr>"

lemma wan_ok: "network_ok (network wan_conn)"
  by (simp add: network_ok_def wan_conn_def WAN_def)

text \<open>
  C15. \<open>Write\<close> on a connection that takes all bytes writes the whole payload, cut into non-empty packets of
  at most \<open>MTU\<close> bytes whose concatenation is the payload. Each packet is preceded by its header; the
  time in the header of a packet is the end of the previous transmissions (or now) plus the
  transmission times of all packets up to it at \<open>Kbps\<close>, plus the latency.
\<close>

theorem write_frames_payload:
  assumes "reliable cw wire" "network_ok (network c)" "length p < 2 ^ 31"
  shows "(\<exists>s. netConn_Write cw tNow p (c, base) = Inr (None, s) \<and> w_n s = int (length p) \<and>
      wire (w_base s) = wire base @ concat (map frame_bytes
        (frames (network c) (max (lastSendEnd c) tNow) (delay c) (packets (network c) p)))) \<and>
    concat (packets (network c) p) = p \<and>
    (\<forall>pkt \<in> set (packets (network c) p). pkt \<noteq> [] \<and> (0 < MTU (network c) \<longrightarrow> int (length pkt) \<le> MTU (network c)))"
  using Write_reliable [OF assms, of tNow base] packets_bounded concat_packets by simp

theorem write_frames_payload_witness:
  "\<exists>s. netConn_Write pipe_write 0 (replicate 2000 7) (wan_conn, []) = Inr (None, s) \<and> w_n s = 2000 \<and>
     packets WAN (replicate 2000 7) = [replicate 1500 7, replicate 500 7]"
proof -
  have "\<exists>s. netConn_Write pipe_write 0 (replicate 2000 7) (wan_conn, []) = Inr (None, s) \<and> w_n s = 2000"
    using write_frames_payload [OF pipe_reliable wan_ok, of "replicate 2000 7" 0 "[]"] by auto
  moreover have "packets WAN (replicate 2000 7) = [replicate 1500 7, replicate 500 7]"
    by (simp add: packets.simps next_packet_def WAN_def)
  ultimately show ?thesis
    by blast
qed

text \<open>
  C4. What is written is what is read: after a \<open>Write\<close> on a fresh reliable connection, the other side's
  \<open>Read\<close>s, with buffers of any positive sizes, deliver the payload in order: their concatenation is
  always a prefix of it, and all of it after as many reads as it has bytes.
\<close>

theorem write_read_roundtrip:
  assumes "reliable cw wire" "wire base = []" "network_ok (network c)" "length p < 2 ^ 31"
    and "readBuf c' = []" "\<forall>tk \<in> set tks. 0 < snd tk"
  shows "\<exists>s. netConn_Write cw tNow p (c, base) = Inr (None, s) \<and>
    (\<exists>others. p = concat (map rd_data (read_seq tks c' (wire (w_base s)))) @ others) \<and>
    (length p \<le> length tks \<longrightarrow> concat (map rd_data (read_seq tks c' (wire (w_base s)))) = p)"
proof -
  let ?fs = "frames (network c) (max (lastSendEnd c) tNow) (delay c) (packets (network c) p)"
  obtain s where s: "netConn_Write cw tNow p (c, base) = Inr (None, s)" "wire (w_base s) = concat (map frame_bytes ?fs)"
    using Write_reliable [OF assms(1,3,4), of tNow base] assms(2) by auto
  have "\<forall>f \<in> set ?fs. frame_ok f"
    using packets_bounded [of _ "network c" p] assms(4) by (intro frames_ok) fastforce
  then have "pending c' (wire (w_base s)) p"
    unfolding pending_def using s(2) assms(5) concat_packets [of "network c" p] by (intro exI [of _ ?fs]) simp
  then show ?thesis
    using read_seq_pending [OF _ assms(6)] s(1) by blast
qed

theorem write_read_roundtrip_witness:
  "\<exists>s. netConn_Write pipe_write 0 [1, 2, 3] (wan_conn, []) = Inr (None, s) \<and>
     concat (map rd_data (read_seq [(0, 2), (0, 2), (0, 2)] wan_conn (w_base s))) = [1, 2, 3]"
proof -
  let ?tks = "[(0, 2), (0, 2), (0, 2)] :: (int \<times> nat) list"
  have "readBuf wan_conn = []" "length [1, 2, 3 :: byte] < 2 ^ 31" "\<forall>tk \<in> set ?tks. 0 < snd tk"
    "length [1, 2, 3 :: byte] \<le> length ?tks"
    by (simp_all add: wan_conn_def)
  then show ?thesis
    using write_read_roundtrip [OF pipe_reliable refl wan_ok, of "[1, 2, 3]" wan_conn ?tks 0] by blast
qed

text \<open>
  C29. Latency is injected when reading: a \<open>Read\<close> that starts a packet returns its first bytes not before
  the time in the packet's header, and at that time when the clock has not passed it yet.
\<close>

theorem read_not_before_ReadTime:
  assumes "readBuf c = []" "frame_ok f" "0 < k" "0 \<le> t" "t < 2 ^ 63"
    and r: "r = netConn_Read t k c (frame_bytes f @ rest)"
  shows "rd_data r = take k (snd f) \<and> rd_err r = None \<and> t + max 0 (rd_slept r) = max t (ReadTime (fst f))"
proof -
  have "ReadTime (fst f) < 2 ^ 63"
    using assms(2) by (simp add: frame_ok_def header_wf_def int64_range_def)
  then have "max 0 (time_Sub (ReadTime (fst f)) t) = max 0 (ReadTime (fst f) - t)"
    using assms(4) by (simp add: time_Sub_def sat64_def)
  then show ?thesis
    unfolding r Read_frame [OF assms(1-3)] by simp
qed

theorem read_not_before_ReadTime_witness:
  "let r = netConn_Read 5 2 wan_conn (frame_bytes (\<lparr>ReadTime = 30, Sz = 3\<rparr>, [1, 2, 3]) @ [])
   in rd_data r = [1, 2] \<and> 5 + max 0 (rd_slept r) = 30"
proof -
  have "readBuf wan_conn = []" "frame_ok (\<lparr>ReadTime = 30, Sz = 3\<rparr>, [1, 2, 3])"
    by (simp_all add: wan_conn_def frame_ok_def header_wf_def int64_range_def)
  then show ?thesis
    using read_not_before_ReadTime [of wan_conn "(\<lparr>ReadTime = 30, Sz = 3\<rparr>, [1, 2, 3])" 2 5 _ "[]", OF _ _ _ _ _ refl] by simp
qed

text \<open>
  C20. \<open>Write\<close> throttles the sender to the bandwidth: on a network with \<open>Kbps > 0\<close> it has slept, when it
  returns, exactly until the transmission of all packets but the last ends less than the latency
  ahead (not at all if that is already the case), and its clock has advanced by what it slept.
\<close>

theorem write_throttles:
  assumes "reliable cw wire" "network_ok (network c)" "0 < Kbps (network c)" "p \<noteq> []" "length p < 2 ^ 31"
    and "0 \<le> delay c" "delay c < 2 ^ 62" "lastSendEnd c - tNow < 2 ^ 61"
  shows "\<exists>s. netConn_Write cw tNow p (c, base) = Inr (None, s) \<and> w_now s = tNow + sum_list (w_slept s) \<and>
    w_now s = max tNow (max (lastSendEnd c) tNow +
      sum_list (map (\<lambda>pkt. tx (network c) (length pkt)) (butlast (packets (network c) p))) - delay c)"
proof -
  let ?c = "if lastSendEnd c < tNow then c\<lparr>lastSendEnd := tNow\<rparr> else c"
  let ?s = "\<lparr>w_conn = ?c, w_base = base, w_now = tNow, w_n = 0, w_slept = []\<rparr>"
  have c: "network ?c = network c" "delay ?c = delay c" "lastSendEnd ?c = max (lastSendEnd c) tNow"
    by auto
  obtain s where s: "netConn_Write cw tNow p (c, base) = Inr (None, s)"
    using Write_reliable [OF assms(1,2,5)] by blast
  then have run: "write_loop cw p ?s = Inr (None, s)"
    by (simp add: netConn_Write_def)
  have "int (length p) * second < 2 ^ 31 * second"
    using assms(5) by simp
  then have "lastSendEnd ?c - tNow + int (length p) * second < 2 ^ 62"
    using assms(8) by (auto simp: c(3))
  then show ?thesis
    using write_loop_throttles [OF assms(1), of ?s p None s] assms run s c by simp
qed

theorem write_throttles_witness:
  "\<exists>s. netConn_Write pipe_write 0 (replicate 4000 7) (wan_conn\<lparr>delay := 100\<rparr>, []) = Inr (None, s) \<and>
     w_now s = sum_list (w_slept s) \<and> w_now s = 2 * (1500 * 1000000000 div (20 * 1024 * 128)) - 100"
proof -
  let ?c = "wan_conn\<lparr>delay := 100\<rparr>"
  have "packets WAN (replicate 4000 7) = [replicate 1500 7, replicate 1500 7, replicate 1000 7]"
    by (simp add: packets.simps next_packet_def WAN_def)
  moreover have "network ?c = WAN" "lastSendEnd ?c - 0 < 2 ^ 61" "max (lastSendEnd ?c) 0 = 0"
    "0 < Kbps (network ?c)" "network_ok (network ?c)"
    by (simp_all add: wan_conn_def zero_time_def WAN_def network_ok_def)
  ultimately show ?thesis
    using write_throttles [OF pipe_reliable, of ?c "replicate 4000 7" 0 "[]"] by (simp add: tx_def WAN_def)
qed

end
