(* ===== verification/NetSync.thy ===== *)
theory NetSync
  imports NetLatency
begin

text \<open>
  \<open>netConn.sync\<close> of \<open>latency/network_latency.go\<close>: the handshake and the loop that measures the latency
  of the wrapped connection together with the other side. No other code of the program calls it.

  The input is the list of the bytes that have arrived so far, with a flag that says whether the other side has closed the
  connection after them; \<open>cw\<close> is the \<open>Write\<close> of the wrapped connection, and the \<open>k\<close>-th reading of the clock is
  \<open>now k\<close>. A read that needs more bytes fails on a closed connection and blocks on an open one: then the
  outcome is \<open>SyncBlocked\<close>, with the state in which the function waits. A peer that goes silent, or that goes on sending
  for ever, is an open connection: the function is blocked after each of the finitely many bytes that arrived. Every
  iteration of the loop consumes a message, so the loop is a terminating recursion on what has arrived.
\<close>

record syncMsg =
  SendT :: int
  RecvT :: int

definition syncMsg_wf :: "syncMsg \<Rightarrow> bool" where
  "syncMsg_wf m \<longleftrightarrow> int64_range (SendT m) \<and> int64_range (RecvT m)"

definition encode_syncMsg :: "syncMsg \<Rightarrow> byte list" where
  "encode_syncMsg m = put_uint64 (word_of_int (SendT m)) @ put_uint64 (word_of_int (RecvT m))"

definition decode_syncMsg :: "byte list \<Rightarrow> syncMsg" where
  "decode_syncMsg bs = \<lparr>SendT = sint (get_uint64 (take 8 bs)), RecvT = sint (get_uint64 (drop 8 bs))\<rparr>"

interpretation sync_codec: fixed_codec 16 encode_syncMsg decode_syncMsg syncMsg_wf
  by unfold_locales (simp_all add: encode_syncMsg_def decode_syncMsg_def syncMsg_wf_def sint_word64)

datatype sync_error = WriteError error | SyncReadError io_error | MalformedHandshake "byte list" | LatencyTooHigh int int

datatype sync_outcome = SyncReturned "sync_error option" | SyncBlocked

text \<open>\<open>binary.Read\<close> of \<open>n\<close> bytes; \<open>None\<close> when it blocks.\<close>

definition sync_read :: "nat \<Rightarrow> (byte list \<Rightarrow> 'm) \<Rightarrow> bool \<Rightarrow> byte list \<Rightarrow> ((io_error + 'm) \<times> byte list) option" where
  "sync_read n dec closed src = (if length src < n \<and> \<not> closed then None else Some (binary_read n dec src))"

definition pingMsg :: "byte list" where
  "pingMsg = map (\<lambda>c. word_of_nat (of_char c)) ''syncPing''"

abbreviation warmup :: int where "warmup \<equiv> 10"

abbreviation giveUp :: int where "giveUp \<equiv> 50"

abbreviation accuracy :: int where "accuracy \<equiv> millisecond"

abbreviation goodRun :: int where "goodRun \<equiv> 3"

record 'c sync_state =
  att :: int
  good :: int
  latency :: int
  localDone :: bool
  remoteDone :: bool
  send :: bool
  y_base :: 'c
  y_clock :: nat

text \<open>The probe at the head of the loop (lines 184 to 190).\<close>

definition sync_probe :: "('c \<Rightarrow> byte list \<Rightarrow> int \<times> error option \<times> 'c) \<Rightarrow> (nat \<Rightarrow> int) \<Rightarrow> 'c sync_state \<Rightarrow>
    sync_error option \<times> 'c sync_state" where
  "sync_probe cw now s =
     (if send s
      then case binary_Write cw (y_base s) (encode_syncMsg \<lparr>SendT = UnixNano (now (y_clock s)), RecvT = 0\<rparr>) of
             (Some e, b) \<Rightarrow> (Some (WriteError e), s\<lparr>y_base := b, y_clock := Suc (y_clock s)\<rparr>)
           | (None, b) \<Rightarrow> (None, s\<lparr>y_base := b, y_clock := Suc (y_clock s), att := att s + 1, send := False\<rparr>)
      else (None, s))"

text \<open>What the loop does with a message (lines 198 to 229).\<close>

definition sync_message :: "('c \<Rightarrow> byte list \<Rightarrow> int \<times> error option \<times> 'c) \<Rightarrow> (nat \<Rightarrow> int) \<Rightarrow> syncMsg \<Rightarrow> 'c sync_state \<Rightarrow>
    (sync_error option \<times> 'c sync_state) go" where
  "sync_message cw now m s =
     (if RecvT m = 0
      then if SendT m = 0 then Inr (None, s\<lparr>remoteDone := True\<rparr>)
           else case binary_Write cw (y_base s) (encode_syncMsg (m\<lparr>RecvT := UnixNano (now (y_clock s))\<rparr>)) of
                  (Some e, b) \<Rightarrow> Inr (Some (WriteError e), s\<lparr>y_base := b, y_clock := Suc (y_clock s)\<rparr>)
                | (None, b) \<Rightarrow> Inr (None, s\<lparr>y_base := b, y_clock := Suc (y_clock s)\<rparr>)
      else let lag = wrap64 (RecvT m - SendT m); lat = wrap64 (latency s + lag)
           in go_bind (go_div lat (att s)) (\<lambda>avgLatency.
              let e = wrap64 (lag - avgLatency);
                  g = (if e > - accuracy \<and> e < accuracy then good s + 1 else 0)
              in if att s < giveUp \<and> (att s < warmup \<or> g < goodRun)
                 then Inr (None, s\<lparr>latency := lat, good := g, send := True\<rparr>)
                 else let s = s\<lparr>latency := avgLatency, good := g, localDone := True\<rparr>
                      in case binary_Write cw (y_base s) (encode_syncMsg \<lparr>SendT = 0, RecvT = 0\<rparr>) of
                           (Some err, b) \<Rightarrow> Inr (Some (WriteError err), s\<lparr>y_base := b\<rparr>)
                         | (None, b) \<Rightarrow> Inr (None, s\<lparr>y_base := b\<rparr>)))"

lemma sync_read_shorter: "sync_read 16 decode_syncMsg closed src = Some (Inr m, src') \<Longrightarrow> length src' < length src"
  by (auto simp: sync_read_def binary_read_def read_full_def split: if_splits)

function sync_loop :: "('c \<Rightarrow> byte list \<Rightarrow> int \<times> error option \<times> 'c) \<Rightarrow> (nat \<Rightarrow> int) \<Rightarrow> bool \<Rightarrow> byte list \<Rightarrow> 'c sync_state \<Rightarrow>
    (sync_outcome \<times> 'c sync_state \<times> byte list) go" where
  "sync_loop cw now closed src s =
     (if localDone s \<and> remoteDone s then Inr (SyncReturned None, s, src)
      else case sync_probe cw now s of
             (Some e, s1) \<Rightarrow> Inr (SyncReturned (Some e), s1, src)
           | (None, s1) \<Rightarrow>
               (case sync_read 16 decode_syncMsg closed src of
                  None \<Rightarrow> Inr (SyncBlocked, s1, src)
                | Some (Inl e, src') \<Rightarrow> Inr (SyncReturned (Some (SyncReadError e)), s1, src')
                | Some (Inr m, src') \<Rightarrow>
                    (case sync_message cw now m s1 of
                       Inl p \<Rightarrow> Inl p
                     | Inr (Some e, s2) \<Rightarrow> Inr (SyncReturned (Some e), s2, src')
                     | Inr (None, s2) \<Rightarrow> sync_loop cw now closed src' s2)))"
  by pat_completeness auto
termination
  by (relation "measure (\<lambda>(cw, now, closed, src, s). length src)") (auto intro: sync_read_shorter)

declare sync_loop.simps [simp del]

text \<open>The whole function. \<open>string(ping[:]) != pingMsg\<close> compares the eight bytes.\<close>

definition sync :: "('c \<Rightarrow> byte list \<Rightarrow> int \<times> error option \<times> 'c) \<Rightarrow> (nat \<Rightarrow> int) \<Rightarrow> netConn \<Rightarrow> 'c \<Rightarrow> bool \<Rightarrow> byte list \<Rightarrow>
    (sync_outcome \<times> netConn \<times> 'c sync_state \<times> byte list) go" where
  "sync cw now c base closed src =
     (let s0 = \<lparr>att = 0, good = 0, latency = 0, localDone = False, remoteDone = False, send = True, y_base = base, y_clock = 0\<rparr>
      in case binary_Write cw base pingMsg of
           (Some e, b) \<Rightarrow> Inr (SyncReturned (Some (WriteError e)), c, s0\<lparr>y_base := b\<rparr>, src)
         | (None, b) \<Rightarrow>
             (case sync_read 8 (\<lambda>bs. bs) closed src of
                None \<Rightarrow> Inr (SyncBlocked, c, s0\<lparr>y_base := b\<rparr>, src)
              | Some (Inl e, src1) \<Rightarrow> Inr (SyncReturned (Some (SyncReadError e)), c, s0\<lparr>y_base := b\<rparr>, src1)
              | Some (Inr ping, src1) \<Rightarrow>
                  if ping \<noteq> pingMsg then Inr (SyncReturned (Some (MalformedHandshake ping)), c, s0\<lparr>y_base := b\<rparr>, src1)
                  else (case sync_loop cw now closed src1 (s0\<lparr>y_base := b\<rparr>) of
                          Inl p \<Rightarrow> Inl p
                        | Inr (SyncReturned None, s, src2) \<Rightarrow>
                            if Latency (network c) \<le> 0 then Inr (SyncReturned None, c, s, src2)
                            else let c = c\<lparr>delay := wrap64 (Latency (network c) - latency s)\<rparr>
                                 in if delay c < 0 then Inr (SyncReturned (Some (LatencyTooHigh (latency s) (Latency (network c)))), c, s, src2)
                                    else Inr (SyncReturned None, c, s, src2)
                        | Inr (unfinished, s, src2) \<Rightarrow> Inr (unfinished, c, s, src2))))"

section \<open>The measuring loop\<close>

definition sync_inv :: "'c sync_state \<Rightarrow> bool" where
  "sync_inv s \<longleftrightarrow> 0 \<le> att s \<and> att s \<le> giveUp \<and> (send s \<longrightarrow> att s < giveUp) \<and> (\<not> send s \<longrightarrow> 0 < att s) \<and>
     0 \<le> good s \<and> (localDone s \<longrightarrow> warmup \<le> att s)"

lemma sync_probe_inv:
  assumes "sync_inv s" "sync_probe cw now s = (e, s')"
  shows "sync_inv s' \<and> (e = None \<longrightarrow> \<not> send s' \<and> 0 < att s')"
  using assms by (auto simp: sync_probe_def sync_inv_def split: if_splits prod.splits option.splits)

lemma sync_message_inv:
  assumes "sync_inv s" "0 < att s"
  shows "\<exists>e s'. sync_message cw now m s = Inr (e, s') \<and> sync_inv s'"
proof (cases "RecvT m = 0")
  case True
  then show ?thesis
    using assms by (cases "binary_Write cw (y_base s) (encode_syncMsg (m\<lparr>RecvT := UnixNano (now (y_clock s))\<rparr>))")
      (auto simp: sync_message_def sync_inv_def split: option.splits)
next
  case False
  obtain avg where avg: "go_div (wrap64 (latency s + wrap64 (RecvT m - SendT m))) (att s) = Inr avg"
    using assms(2) by (auto simp: go_div_def)
  obtain e b where "binary_Write cw (y_base s) (encode_syncMsg \<lparr>SendT = 0, RecvT = 0\<rparr>) = (e, b)"
    by fastforce
  then show ?thesis
    using assms False avg
    by (cases e) (auto simp: sync_message_def sync_inv_def Let_def simp del: go_bind_Inr_iff wrap64_add_wrap64)
qed

lemma sync_loop_inv:
  assumes "sync_inv s"
  shows "\<exists>e s' src'. sync_loop cw now closed src s = Inr (e, s', src') \<and> sync_inv s' \<and>
    (e = SyncReturned None \<longrightarrow> localDone s' \<and> remoteDone s') \<and> (e = SyncBlocked \<longrightarrow> \<not> closed)"
  using assms
proof (induction cw now closed src s rule: sync_loop.induct)
  case (1 cw now closed src s)
  show ?case
  proof (cases "localDone s \<and> remoteDone s")
    case False
    obtain e1 s1 where s1: "sync_probe cw now s = (e1, s1)"
      by fastforce
    note inv1 = sync_probe_inv [OF "1.prems" s1]
    show ?thesis
    proof (cases "e1 = None \<and> (\<exists>m src'. sync_read 16 decode_syncMsg closed src = Some (Inr m, src'))")
      case True
      then obtain m src' where m: "e1 = None" "sync_read 16 decode_syncMsg closed src = Some (Inr m, src')"
        by blast
      obtain e2 s2 where s2: "sync_message cw now m s1 = Inr (e2, s2)" "sync_inv s2"
        using sync_message_inv inv1 m(1) by blast
      show ?thesis
        using "1.IH" [OF False s1 [symmetric] m(1) m(2) refl refl s2(1) refl] s2 s1 m False
        by (cases e2) (auto simp: sync_loop.simps [of cw now closed src s])
    next
      case err: False
      then show ?thesis
        using False s1 inv1
        by (cases e1; cases "sync_read 16 decode_syncMsg closed src")
          (auto simp: sync_loop.simps [of cw now closed src s] sync_read_def split: sum.splits if_splits)
    qed
  qed (use "1.prems" in \<open>auto simp: sync_loop.simps [of cw now closed src s]\<close>)
qed

section \<open>A steady network\<close>

text \<open>The messages of the other side: replies to our probes, its own probes, and its final message.\<close>

definition is_reply :: "syncMsg \<Rightarrow> bool" where
  "is_reply m \<longleftrightarrow> RecvT m \<noteq> 0"

definition is_done :: "syncMsg \<Rightarrow> bool" where
  "is_done m \<longleftrightarrow> RecvT m = 0 \<and> SendT m = 0"

definition replies :: "syncMsg list \<Rightarrow> nat" where
  "replies ms = length (filter is_reply ms)"

lemma replies_simps [simp]: "replies [] = 0" "replies (m # ms) = (if is_reply m then Suc (replies ms) else replies ms)"
  by (simp_all add: replies_def)

text \<open>A connection whose writes succeed.\<close>

definition writes_succeed :: "('c \<Rightarrow> byte list \<Rightarrow> int \<times> error option \<times> 'c) \<Rightarrow> bool" where
  "writes_succeed cw \<longleftrightarrow> (\<forall>c bs. \<exists>x c'. cw c bs = (x, None, c'))"

lemma writes_succeed_binary: "writes_succeed cw \<Longrightarrow> \<exists>c'. binary_Write cw c bs = (None, c')"
  unfolding writes_succeed_def binary_Write_def by (metis (no_types, lifting) case_prod_conv)

text \<open>\<open>j\<close> replies with the lag \<open>L\<close> have been counted.\<close>

definition measured :: "int \<Rightarrow> nat \<Rightarrow> 'c sync_state \<Rightarrow> bool" where
  "measured L j s \<longleftrightarrow> att s = int j + (if send s then 0 else 1) \<and> good s = int j \<and> latency s = int j * L \<and> \<not> localDone s"

definition finished :: "int \<Rightarrow> 'c sync_state \<Rightarrow> bool" where
  "finished L s \<longleftrightarrow> att s = 10 \<and> latency s = L \<and> localDone s \<and> \<not> send s"

lemma sync_probe_measured:
  assumes "writes_succeed cw" "measured L j s \<or> finished L s"
  shows "\<exists>s'. sync_probe cw now s = (None, s') \<and> \<not> send s' \<and> remoteDone s' = remoteDone s \<and>
    (measured L j s \<longrightarrow> measured L j s') \<and> (finished L s \<longrightarrow> finished L s')"
proof (cases "send s")
  case True
  obtain b where "binary_Write cw (y_base s) (encode_syncMsg \<lparr>SendT = UnixNano (now (y_clock s)), RecvT = 0\<rparr>) = (None, b)"
    using writes_succeed_binary [OF assms(1)] by blast
  then have "sync_probe cw now s = (None, s\<lparr>y_base := b, y_clock := Suc (y_clock s), att := att s + 1, send := False\<rparr>)"
    using True by (simp add: sync_probe_def)
  then show ?thesis
    using True by (simp add: measured_def finished_def)
qed (simp add: sync_probe_def)

lemma sync_message_other:
  assumes "writes_succeed cw" "\<not> is_reply m"
  shows "\<exists>s'. sync_message cw now m s = Inr (None, s') \<and> att s' = att s \<and> good s' = good s \<and> latency s' = latency s \<and>
    localDone s' = localDone s \<and> send s' = send s \<and> remoteDone s' = (remoteDone s \<or> is_done m)"
  using writes_succeed_binary [OF assms(1), of "y_base s" "encode_syncMsg (m\<lparr>RecvT := UnixNano (now (y_clock s))\<rparr>)"] assms(2)
  by (auto simp: sync_message_def is_reply_def is_done_def)

lemma sync_message_reply:
  assumes cw: "writes_succeed cw" and m: "is_reply m" "RecvT m - SendT m = L" and L: "0 \<le> L" "L < 2 ^ 59"
    and s: "measured L j s" "\<not> send s" "j < 10"
  shows "\<exists>s'. sync_message cw now m s = Inr (None, s') \<and> remoteDone s' = remoteDone s \<and>
    (if j = 9 then finished L s' else measured L (Suc j) s' \<and> send s')"
proof -
  have "int (Suc j) * L \<le> 10 * L"
    using s(3) L(1) by (intro mult_right_mono) auto
  moreover have "10 * L < 2 ^ 63"
    using L(2) by simp
  ultimately have "int (Suc j) * L < 2 ^ 63"
    by (rule le_less_trans)
  moreover have "0 \<le> int (Suc j) * L"
    using L(1) by simp
  ultimately have r: "0 \<le> int (Suc j) * L" "int (Suc j) * L < 2 ^ 63"
    by blast+
  have lag: "wrap64 (RecvT m - SendT m) = L"
    using m(2) L by (simp add: wrap64_id)
  have lat: "wrap64 (latency s + L) = int (Suc j) * L"
    using s(1) r by (simp add: measured_def wrap64_id distrib_right add.commute)
  have att: "att s = int (Suc j)"
    using s(1,2) by (simp add: measured_def)
  have avg: "go_div (int (Suc j) * L) (att s) = Inr L"
    using go_div_nonneg [OF r, of "int (Suc j)"] unfolding att by simp
  obtain b where "binary_Write cw (y_base s) (encode_syncMsg \<lparr>SendT = 0, RecvT = 0\<rparr>) = (None, b)"
    using writes_succeed_binary [OF cw] by blast
  then show ?thesis
    using m(1) lag lat avg att s
    by (auto simp: sync_message_def is_reply_def Let_def measured_def finished_def wrap64_id
        simp del: go_bind_Inr_iff wrap64_add_wrap64 of_nat_Suc)
qed

lemma sync_read_back: "syncMsg_wf m \<Longrightarrow> sync_read 16 decode_syncMsg closed (encode_syncMsg m @ rest) = Some (Inr m, rest)"
  using sync_codec.read_back [of m] sync_codec.enc_width [of m] by (simp add: sync_read_def)

lemma sync_loop_steady:
  assumes "writes_succeed cw" "0 \<le> L" "L < 2 ^ 59" "\<forall>m \<in> set ms. syncMsg_wf m \<and> (is_reply m \<longrightarrow> RecvT m - SendT m = L)"
    and "measured L j s \<and> replies ms + j = 10 \<and> j < 10 \<or> finished L s \<and> replies ms = 0"
    and "remoteDone s \<or> (\<exists>m \<in> set ms. is_done m)"
  shows "\<exists>s' rest'. sync_loop cw now closed (concat (map encode_syncMsg ms) @ rest) s = Inr (SyncReturned None, s', rest') \<and> finished L s'"
  using assms(4-6)
proof (induction ms arbitrary: s j)
  case Nil
  then show ?case
    by (auto simp: sync_loop.simps [of cw now closed _ s] finished_def)
next
  case (Cons m ms)
  show ?case
  proof (cases "localDone s \<and> remoteDone s")
    case True
    then show ?thesis
      using Cons.prems(2) by (auto simp: sync_loop.simps [of cw now closed _ s] measured_def)
  next
    case False
    obtain s1 where s1: "sync_probe cw now s = (None, s1)" "\<not> send s1" "remoteDone s1 = remoteDone s"
      "measured L j s \<longrightarrow> measured L j s1" "finished L s \<longrightarrow> finished L s1"
      using sync_probe_measured [OF assms(1)] Cons.prems(2) by blast
    have rd: "sync_read 16 decode_syncMsg closed (concat (map encode_syncMsg (m # ms)) @ rest) = Some (Inr m, concat (map encode_syncMsg ms) @ rest)"
      using sync_read_back [of m] Cons.prems(1) by simp
    have "\<exists>s2 j'. sync_message cw now m s1 = Inr (None, s2) \<and>
       (measured L j' s2 \<and> replies ms + j' = 10 \<and> j' < 10 \<or> finished L s2 \<and> replies ms = 0) \<and>
       (remoteDone s2 \<or> (\<exists>m \<in> set ms. is_done m))"
    proof (cases "is_reply m")
      case True
      then have "measured L j s1" "replies ms + Suc j = 10" "j < 10" "\<not> is_done m" "RecvT m - SendT m = L"
        using Cons.prems s1 by (auto simp: is_done_def is_reply_def)
      moreover from this obtain s2 where "sync_message cw now m s1 = Inr (None, s2)" "remoteDone s2 = remoteDone s1"
        "if j = 9 then finished L s2 else measured L (Suc j) s2 \<and> send s2"
        using sync_message_reply [OF assms(1) True _ assms(2,3) _ s1(2)] by metis
      ultimately show ?thesis
        using Cons.prems(3) s1(3) by (intro exI [of _ s2] exI [of _ "Suc j"]) (auto split: if_splits)
    next
      case reply: False
      obtain s2 where "sync_message cw now m s1 = Inr (None, s2)" "att s2 = att s1" "good s2 = good s1"
        "latency s2 = latency s1" "localDone s2 = localDone s1" "send s2 = send s1" "remoteDone s2 = (remoteDone s1 \<or> is_done m)"
        using sync_message_other [OF assms(1) reply] by blast
      then show ?thesis
        using Cons.prems(2,3) s1 reply by (intro exI [of _ s2] exI [of _ j]) (auto simp: measured_def finished_def)
    qed
    then obtain s2 j' where s2: "sync_message cw now m s1 = Inr (None, s2)"
      "measured L j' s2 \<and> replies ms + j' = 10 \<and> j' < 10 \<or> finished L s2 \<and> replies ms = 0"
      "remoteDone s2 \<or> (\<exists>m \<in> set ms. is_done m)"
      by blast
    have "sync_loop cw now closed (concat (map encode_syncMsg (m # ms)) @ rest) s = sync_loop cw now closed (concat (map encode_syncMsg ms) @ rest) s2"
      using False s1(1) rd s2(1) by (subst sync_loop.simps) auto
    then show ?thesis
      using Cons.IH [OF _ s2(2,3)] Cons.prems(1) by simp
  qed
qed

section \<open>Properties\<close>

text \<open>
  Whatever has arrived and whatever the clock and the wrapped connection do, \<open>sync\<close> does not divide by zero and has sent at most \<open>giveUp\<close>
  probes; it is blocked only while the connection is open; and when it succeeds it has sent at least \<open>warmup\<close> probes, both
  sides are done, and for a positive network latency the delay is that latency less the measured one, and not negative.
\<close>

lemma sync_bounded:
  "\<exists>e c' s src'. sync cw now c base closed src = Inr (e, c', s, src') \<and> 0 \<le> att s \<and> att s \<le> giveUp \<and> (e = SyncBlocked \<longrightarrow> \<not> closed) \<and>
    (e = SyncReturned None \<longrightarrow> warmup \<le> att s \<and> localDone s \<and> remoteDone s \<and>
      (if Latency (network c) \<le> 0 then c' = c
       else c' = c\<lparr>delay := wrap64 (Latency (network c) - latency s)\<rparr> \<and> 0 \<le> delay c'))"
proof -
  let ?s0 = "\<lparr>att = 0, good = 0, latency = 0, localDone = False, remoteDone = False, send = True, y_base = base, y_clock = 0\<rparr>"
  obtain e b where w: "binary_Write cw base pingMsg = (e, b)"
    by fastforce
  have inv: "sync_inv (?s0\<lparr>y_base := b\<rparr>)"
    by (simp add: sync_inv_def)
  show ?thesis
  proof (cases "e = None \<and> (\<exists>src1. sync_read 8 (\<lambda>bs. bs) closed src = Some (Inr pingMsg, src1))")
    case True
    then obtain src1 where r: "e = None" "sync_read 8 (\<lambda>bs. bs) closed src = Some (Inr pingMsg, src1)"
      by blast
    obtain e2 s src2 where l: "sync_loop cw now closed src1 (?s0\<lparr>y_base := b\<rparr>) = Inr (e2, s, src2)" "sync_inv s"
      "e2 = SyncReturned None \<longrightarrow> localDone s \<and> remoteDone s" "e2 = SyncBlocked \<longrightarrow> \<not> closed"
      using sync_loop_inv [OF inv] by blast
    have att: "0 \<le> att s" "att s \<le> giveUp" "e2 = SyncReturned None \<longrightarrow> warmup \<le> att s"
      using l(2,3) by (auto simp: sync_inv_def)
    show ?thesis
      using w r l att
      by (cases "Latency (network c) \<le> 0"; cases "e2 = SyncReturned None") (auto simp: sync_def Let_def split: sync_outcome.split option.split)
  next
    case False
    show ?thesis
    proof (cases e)
      case None
      show ?thesis
      proof (cases "sync_read 8 (\<lambda>bs. bs) closed src")
        case none: None
        then show ?thesis
          using w None by (simp add: sync_def sync_read_def split: if_splits)
      next
        case (Some r)
        then show ?thesis
          using False w None by (cases r; cases "fst r") (auto simp: sync_def)
      qed
    qed (use w in \<open>simp add: sync_def\<close>)
  qed
qed

text \<open>
  C30. On a steady network, whether the connection stays open or is closed afterwards, \<open>sync\<close> measures the latency: when the other side's handshake is followed by
  messages among which there are exactly ten replies, each with the same lag \<open>L\<close>, and a final message,
  \<open>sync\<close> succeeds after ten probes if \<open>L\<close> is at most the configured latency, and sets the delay to the
  configured latency less \<open>L\<close>; if \<open>L\<close> is higher it reports that.
\<close>

theorem sync_measures_steady_lag:
  assumes "writes_succeed cw" "0 \<le> L" "L < 2 ^ 59" "0 < Latency (network c)" "Latency (network c) < 2 ^ 63"
    and "\<forall>m \<in> set ms. syncMsg_wf m \<and> (is_reply m \<longrightarrow> RecvT m - SendT m = L)"
    and "replies ms = 10" "\<exists>m \<in> set ms. is_done m"
  shows "\<exists>s rest'. sync cw now c base closed (pingMsg @ concat (map encode_syncMsg ms) @ rest) =
      Inr (SyncReturned (if L \<le> Latency (network c) then None else Some (LatencyTooHigh L (Latency (network c)))),
        c\<lparr>delay := Latency (network c) - L\<rparr>, s, rest') \<and> att s = 10"
proof -
  let ?s0 = "\<lparr>att = 0, good = 0, latency = 0, localDone = False, remoteDone = False, send = True, y_base = base, y_clock = 0\<rparr>"
  obtain b where b: "binary_Write cw base pingMsg = (None, b)"
    using writes_succeed_binary [OF assms(1)] by blast
  have len: "length pingMsg = 8"
    by (simp add: pingMsg_def)
  have rd: "sync_read 8 (\<lambda>bs. bs) closed (pingMsg @ concat (map encode_syncMsg ms) @ rest) = Some (Inr pingMsg, concat (map encode_syncMsg ms) @ rest)"
    using len by (auto simp: sync_read_def binary_read_def read_full_def)
  obtain s rest' where s: "sync_loop cw now closed (concat (map encode_syncMsg ms) @ rest) (?s0\<lparr>y_base := b\<rparr>) = Inr (SyncReturned None, s, rest')"
    "finished L s"
    using sync_loop_steady [OF assms(1-3,6), of 0 "?s0\<lparr>y_base := b\<rparr>" now closed rest] assms(7,8) by (auto simp: measured_def)
  have "wrap64 (Latency (network c) - L) = Latency (network c) - L"
    using assms(2-5) by (simp add: wrap64_id)
  then show ?thesis
    using b rd s assms(4) by (auto simp: sync_def finished_def)
qed

theorem sync_measures_steady_lag_witness:
  "\<exists>s rest'. sync pipe_write (\<lambda>k. int k) wan_conn [] False (pingMsg @
      concat (map encode_syncMsg (replicate 10 \<lparr>SendT = 1, RecvT = 5000001\<rparr> @ [\<lparr>SendT = 0, RecvT = 0\<rparr>])) @ []) =
    Inr (SyncReturned None, wan_conn\<lparr>delay := 25 * 1000000\<rparr>, s, rest') \<and> att s = 10"
proof -
  let ?ms = "replicate 10 \<lparr>SendT = 1, RecvT = 5000001\<rparr> @ [\<lparr>SendT = 0, RecvT = 0\<rparr>]"
  have "writes_succeed pipe_write"
    by (simp add: writes_succeed_def pipe_write_def)
  moreover have "\<forall>m \<in> set ?ms. syncMsg_wf m \<and> (is_reply m \<longrightarrow> RecvT m - SendT m = 5000000)"
    by (auto simp: syncMsg_wf_def is_reply_def int64_range_def)
  moreover have "replies ?ms = 10" "\<exists>m \<in> set ?ms. is_done m"
    by (auto simp: replies_def is_reply_def is_done_def)
  moreover have "Latency (network wan_conn) = 30000000"
    by (simp add: wan_conn_def WAN_def)
  ultimately show ?thesis
    using sync_measures_steady_lag [of pipe_write 5000000 wan_conn ?ms "\<lambda>k. int k" "[]" False "[]"] by simp
qed

end
