(* ===== verification/Json.thy ===== *)
theory Json
  imports Strconv
begin

text \<open>
  What the program uses of \<open>encoding/json\<close> (as of Go 1.17, the version \<open>go.mod\<close> names): \<open>json.Unmarshal\<close>
  checks the whole input with the scanner's state machine before it stores anything.

  \<open>json_step\<close> is one step of that machine, on one byte; the stack has a frame for every array and object that is
  open, and holds what was read so far, so that the machine also builds the value. \<open>json_parse\<close> runs it. A string of
  the syntax tree is the text between the quotes, as it was written; \<open>unquote\<close> gives the bytes it stands for.
\<close>

section \<open>The scanner\<close>

datatype json =
    JNull
  | JBool bool
  | JNum string
  | JStr string
  | JArr "json list"
  | JObj "(string \<times> json) list"

text \<open>An open array with its elements, an open object before the colon of a key, and after it.\<close>

datatype frame =
    ArrF "json list"
  | KeyF "(string \<times> json) list"
  | ValF "(string \<times> json) list" string

datatype num_state = StNeg | St1 | St0 | StDot | StDot0 | StE | StESign | StE0

datatype scan_state =
    BeginValue
  | BeginValueOrEmpty
  | BeginString
  | BeginStringOrEmpty
  | InString string
  | InStringEsc string
  | InStringEscU nat string
  | InNumber num_state string
  | InLiteral string json
  | EndValue json
  | EndTop json
  | ScanError

type_synonym scanner = "scan_state \<times> frame list"

definition json_space :: "char \<Rightarrow> bool" where
  "json_space c \<longleftrightarrow> c = CHR '' '' \<or> c = CHR 0x09 \<or> c = CHR 0x0D \<or> c = CHR 0x0A"

definition is_hex :: "char \<Rightarrow> bool" where
  "is_hex c \<longleftrightarrow> is_digit c \<or> between 97 102 (of_char c) \<or> between 65 70 (of_char c)"

definition maxNestingDepth :: nat where
  "maxNestingDepth = 10000"

definition scan_fail :: scanner where
  "scan_fail = (ScanError, [])"

definition push_frame :: "scan_state \<Rightarrow> frame \<Rightarrow> frame list \<Rightarrow> scanner" where
  "push_frame st f K = (if length K < maxNestingDepth then (st, f # K) else scan_fail)"

text \<open>A value is complete: at the top level only white space may follow.\<close>

definition end_value :: "json \<Rightarrow> frame list \<Rightarrow> scanner" where
  "end_value v K = (if K = [] then EndTop v else EndValue v, K)"

text \<open>\<open>stateEndValue\<close>: the byte after a complete value.\<close>

fun after_value :: "json \<Rightarrow> frame list \<Rightarrow> char \<Rightarrow> scanner" where
  "after_value v [] c = (if json_space c then (EndTop v, []) else scan_fail)"
| "after_value v (ArrF vs # K) c =
     (if json_space c then (EndValue v, ArrF vs # K)
      else if c = CHR '','' then (BeginValue, ArrF (vs @ [v]) # K)
      else if c = CHR '']'' then end_value (JArr (vs @ [v])) K
      else scan_fail)"
| "after_value v (KeyF fs # K) c =
     (if json_space c then (EndValue v, KeyF fs # K)
      else if c = CHR '':'' then (case v of JStr k \<Rightarrow> (BeginValue, ValF fs k # K) | _ \<Rightarrow> scan_fail)
      else scan_fail)"
| "after_value v (ValF fs k # K) c =
     (if json_space c then (EndValue v, ValF fs k # K)
      else if c = CHR '','' then (BeginString, KeyF (fs @ [(k, v)]) # K)
      else if c = CHR ''}'' then end_value (JObj (fs @ [(k, v)])) K
      else scan_fail)"

definition begin_value :: "char \<Rightarrow> frame list \<Rightarrow> scanner" where
  "begin_value c K =
     (if json_space c then (BeginValue, K)
      else if c = CHR ''{'' then push_frame BeginStringOrEmpty (KeyF []) K
      else if c = CHR ''['' then push_frame BeginValueOrEmpty (ArrF []) K
      else if c = CHR 0x22 then (InString [], K)
      else if c = CHR ''-'' then (InNumber StNeg [c], K)
      else if c = CHR ''0'' then (InNumber St0 [c], K)
      else if c = CHR ''t'' then (InLiteral ''rue'' (JBool True), K)
      else if c = CHR ''f'' then (InLiteral ''alse'' (JBool False), K)
      else if c = CHR ''n'' then (InLiteral ''ull'' JNull, K)
      else if is_digit c then (InNumber St1 [c], K)
      else scan_fail)"

definition begin_string :: "char \<Rightarrow> frame list \<Rightarrow> scanner" where
  "begin_string c K =
     (if json_space c then (BeginString, K) else if c = CHR 0x22 then (InString [], K) else scan_fail)"

text \<open>The next state of a number, or \<open>None\<close> when the byte does not belong to it.\<close>

fun num_next :: "num_state \<Rightarrow> char \<Rightarrow> num_state option" where
  "num_next StNeg c = (if c = CHR ''0'' then Some St0 else if is_digit c then Some St1 else None)"
| "num_next St1 c = (if is_digit c then Some St1 else if c = CHR ''.'' then Some StDot else if c = CHR ''e'' \<or> c = CHR ''E'' then Some StE else None)"
| "num_next St0 c = (if c = CHR ''.'' then Some StDot else if c = CHR ''e'' \<or> c = CHR ''E'' then Some StE else None)"
| "num_next StDot c = (if is_digit c then Some StDot0 else None)"
| "num_next StDot0 c = (if is_digit c then Some StDot0 else if c = CHR ''e'' \<or> c = CHR ''E'' then Some StE else None)"
| "num_next StE c = (if c = CHR ''+'' \<or> c = CHR ''-'' then Some StESign else if is_digit c then Some StE0 else None)"
| "num_next StESign c = (if is_digit c then Some StE0 else None)"
| "num_next StE0 c = (if is_digit c then Some StE0 else None)"

definition num_final :: "num_state \<Rightarrow> bool" where
  "num_final st \<longleftrightarrow> st \<in> {St1, St0, StDot0, StE0}"

fun json_step :: "scanner \<Rightarrow> char \<Rightarrow> scanner" where
  "json_step (BeginValue, K) c = begin_value c K"
| "json_step (BeginValueOrEmpty, K) c =
     (if json_space c then (BeginValueOrEmpty, K)
      else if c = CHR '']'' then (case K of ArrF vs # K' \<Rightarrow> end_value (JArr vs) K' | _ \<Rightarrow> scan_fail)
      else begin_value c K)"
| "json_step (BeginString, K) c = begin_string c K"
| "json_step (BeginStringOrEmpty, K) c =
     (if json_space c then (BeginStringOrEmpty, K)
      else if c = CHR ''}'' then (case K of KeyF fs # K' \<Rightarrow> end_value (JObj fs) K' | _ \<Rightarrow> scan_fail)
      else begin_string c K)"
| "json_step (InString s, K) c =
     (if c = CHR 0x22 then end_value (JStr s) K
      else if c = CHR 0x5C then (InStringEsc (s @ [c]), K)
      else if of_char c < (32::nat) then scan_fail
      else (InString (s @ [c]), K))"
| "json_step (InStringEsc s, K) c =
     (if c \<in> set [CHR ''b'', CHR ''f'', CHR ''n'', CHR ''r'', CHR ''t'', CHR 0x5C, CHR ''/'', CHR 0x22] then (InString (s @ [c]), K)
      else if c = CHR ''u'' then (InStringEscU 4 (s @ [c]), K)
      else scan_fail)"
| "json_step (InStringEscU n s, K) c =
     (if \<not> is_hex c then scan_fail
      else if n \<le> 1 then (InString (s @ [c]), K)
      else (InStringEscU (n - 1) (s @ [c]), K))"
| "json_step (InNumber st s, K) c =
     (case num_next st c of Some st' \<Rightarrow> (InNumber st' (s @ [c]), K)
      | None \<Rightarrow> if num_final st then after_value (JNum s) K c else scan_fail)"
| "json_step (InLiteral rest v, K) c =
     (case rest of d # ds \<Rightarrow> if c = d then (if ds = [] then end_value v K else (InLiteral ds v, K)) else scan_fail
      | [] \<Rightarrow> scan_fail)"
| "json_step (EndValue v, K) c = after_value v K c"
| "json_step (EndTop v, K) c = (if json_space c then (EndTop v, K) else scan_fail)"
| "json_step (ScanError, K) c = (ScanError, K)"

definition json_run :: "scanner \<Rightarrow> string \<Rightarrow> scanner" where
  "json_run = foldl json_step"

text \<open>\<open>eof\<close>: a number at the top level ends at the end of the input, as at a space.\<close>

definition json_eof :: "scanner \<Rightarrow> json option" where
  "json_eof s = (case fst (case s of (EndTop v, K) \<Rightarrow> s | _ \<Rightarrow> json_step s (CHR '' '')) of EndTop v \<Rightarrow> Some v | _ \<Rightarrow> None)"

definition json_parse :: "string \<Rightarrow> json option" where
  "json_parse s = json_eof (json_run (BeginValue, []) s)"

section \<open>Strings\<close>

text \<open>The value of four hexadecimal digits after \<open>\u\<close>, as in \<open>getu4\<close>.\<close>

definition hex_value :: "char \<Rightarrow> nat" where
  "hex_value c = (if is_digit c then of_char c - 48 else if of_char c \<ge> (97::nat) then of_char c - 87 else of_char c - 55)"

fun getu4 :: "string \<Rightarrow> nat option" where
  "getu4 (b # u # c1 # c2 # c3 # c4 # s) =
     (if b = CHR 0x5C \<and> u = CHR ''u'' \<and> list_all is_hex [c1, c2, c3, c4]
      then Some (((hex_value c1 * 16 + hex_value c2) * 16 + hex_value c3) * 16 + hex_value c4) else None)"
| "getu4 s = None"

text \<open>\<open>utf8.EncodeRune\<close>, and the length of the valid encoding that a string starts with.\<close>

definition utf8_encode :: "nat \<Rightarrow> string" where
  "utf8_encode r =
     (if r < 0x80 then [char_of r]
      else if r < 0x800 then [char_of (0xC0 + r div 64), char_of (0x80 + r mod 64)]
      else if r < 0x10000 then [char_of (0xE0 + r div 4096), char_of (0x80 + r div 64 mod 64), char_of (0x80 + r mod 64)]
      else [char_of (0xF0 + r div 262144), char_of (0x80 + r div 4096 mod 64), char_of (0x80 + r div 64 mod 64), char_of (0x80 + r mod 64)])"

definition replacement :: string where
  "replacement = utf8_encode 0xFFFD"

definition continuation :: "nat \<Rightarrow> bool" where
  "continuation b \<longleftrightarrow> between 0x80 0xBF b"

fun utf8_length :: "nat list \<Rightarrow> nat option" where
  "utf8_length [] = None"
| "utf8_length (b # bs) =
     (if b < 0x80 then Some 1
      else if between 0xC2 0xDF b then (case bs of b1 # _ \<Rightarrow> if continuation b1 then Some 2 else None | _ \<Rightarrow> None)
      else if between 0xE0 0xEF b
      then (case bs of b1 # b2 # _ \<Rightarrow>
              if continuation b1 \<and> continuation b2 \<and> (b = 0xE0 \<longrightarrow> 0xA0 \<le> b1) \<and> (b = 0xED \<longrightarrow> b1 \<le> 0x9F) then Some 3 else None
            | _ \<Rightarrow> None)
      else if between 0xF0 0xF4 b
      then (case bs of b1 # b2 # b3 # _ \<Rightarrow>
              if continuation b1 \<and> continuation b2 \<and> continuation b3 \<and> (b = 0xF0 \<longrightarrow> 0x90 \<le> b1) \<and> (b = 0xF4 \<longrightarrow> b1 \<le> 0x8F) then Some 4 else None
            | _ \<Rightarrow> None)
      else None)"

definition decode_surrogates :: "nat \<Rightarrow> nat \<Rightarrow> nat option" where
  "decode_surrogates r1 r2 =
     (if between 0xD800 0xDBFF r1 \<and> between 0xDC00 0xDFFF r2 then Some ((r1 - 0xD800) * 1024 + (r2 - 0xDC00) + 0x10000) else None)"

definition unescape :: "char \<Rightarrow> char" where
  "unescape c = (case map_of [(CHR ''b'', CHR 0x08), (CHR ''f'', CHR 0x0C), (CHR ''n'', CHR 0x0A), (CHR ''r'', CHR 0x0D), (CHR ''t'', CHR 0x09)] c of
     Some d \<Rightarrow> d | None \<Rightarrow> c)"

text \<open>\<open>unquoteBytes\<close> on the text between the quotes: a surrogate that is not one of a pair, and a byte that does not
  belong to a valid encoding, become the replacement character.\<close>

function unquote :: "string \<Rightarrow> string" where
  "unquote [] = []"
| "unquote (c # cs) =
     (if c = CHR 0x5C
      then case getu4 (c # cs) of
             Some r \<Rightarrow>
               if between 0xD800 0xDFFF r
               then (case Option.bind (getu4 (drop 5 cs)) (decode_surrogates r) of
                       Some rr \<Rightarrow> utf8_encode rr @ unquote (drop 11 cs)
                     | None \<Rightarrow> replacement @ unquote (drop 5 cs))
               else utf8_encode r @ unquote (drop 5 cs)
           | None \<Rightarrow> (case cs of e # ds \<Rightarrow> unescape e # unquote ds | [] \<Rightarrow> [])
      else case utf8_length (map of_char (c # cs)) of
             Some n \<Rightarrow> take n (c # cs) @ unquote (drop (n - 1) cs)
           | None \<Rightarrow> replacement @ unquote cs)"
  by pat_completeness auto
termination
  by (relation "measure length") auto

declare unquote.simps [simp del]

lemma unquote_Nil [simp]: "unquote [] = []"
  by (simp add: unquote.simps)

lemma unquote_plain: "c \<noteq> CHR 0x5C \<Longrightarrow> of_char c < (128::nat) \<Longrightarrow> unquote (c # cs) = c # unquote cs"
  by (simp add: unquote.simps)

section \<open>Printing\<close>

text \<open>A printer for the syntax trees; it inserts no white space. \<open>quote\<close> writes a string of ASCII characters.\<close>

fun commas :: "string list \<Rightarrow> string" where
  "commas [] = []"
| "commas [x] = x"
| "commas (x # xs) = x @ CHR '','' # commas xs"

definition print_field :: "string \<times> string \<Rightarrow> string" where
  "print_field = (\<lambda>(k, s). CHR 0x22 # k @ CHR 0x22 # CHR '':'' # s)"

primrec json_print :: "json \<Rightarrow> string" where
  "json_print JNull = ''null''"
| "json_print (JBool b) = (if b then ''true'' else ''false'')"
| "json_print (JNum s) = s"
| "json_print (JStr s) = CHR 0x22 # s @ [CHR 0x22]"
| "json_print (JArr vs) = CHR ''['' # commas (map json_print vs) @ '']''"
| "json_print (JObj fs) = CHR ''{'' # commas (map print_field (map (map_prod id json_print) fs)) @ ''}''"

definition hex_digit :: "nat \<Rightarrow> char" where
  "hex_digit n = (if n < 10 then char_of (48 + n) else char_of (87 + n))"

definition quote_char :: "char \<Rightarrow> string" where
  "quote_char c =
     (if c = CHR 0x22 \<or> c = CHR 0x5C then [CHR 0x5C, c]
      else if of_char c < (32::nat)
      then [CHR 0x5C, CHR ''u'', CHR ''0'', CHR ''0'', hex_digit (of_char c div 16), hex_digit (of_char c mod 16)]
      else [c])"

definition quote :: "string \<Rightarrow> string" where
  "quote s = concat (map quote_char s)"

definition ascii :: "string \<Rightarrow> bool" where
  "ascii s \<longleftrightarrow> list_all (\<lambda>c. of_char c < (128::nat)) s"

lemma hex_digit_value:
  assumes "n < 16"
  shows "is_hex (hex_digit n)" "hex_value (hex_digit n) = n"
  using assms by (auto simp: hex_digit_def is_hex_def is_digit_def hex_value_def)

lemma getu4_control:
  assumes "of_char c < (128::nat)"
  shows "getu4 (CHR 0x5C # CHR ''u'' # CHR ''0'' # CHR ''0'' # hex_digit (of_char c div 16) # hex_digit (of_char c mod 16) # s) = Some (of_char c)"
proof -
  have "is_hex (CHR ''0'')" "hex_value (CHR ''0'') = 0"
    by (simp_all add: is_hex_def is_digit_def hex_value_def)
  then show ?thesis
    using assms by (simp add: hex_digit_value)
qed

lemma unquote_quote_char:
  assumes "of_char c < (128::nat)"
  shows "unquote (quote_char c @ s) = c # unquote s"
proof (cases "of_char c < (32::nat)")
  case True
  then have "c \<noteq> CHR 0x22" "c \<noteq> CHR 0x5C"
    by auto
  then show ?thesis
    using True getu4_control [OF assms, of s] by (simp add: quote_char_def unquote.simps(2) [of "CHR 0x5C"] utf8_encode_def del: getu4.simps)
next
  case False
  have "getu4 (CHR 0x5C # c # s) = None" if "c \<noteq> CHR ''u''"
    using that by (cases "CHR 0x5C # c # s" rule: getu4.cases) auto
  then show ?thesis
    using False assms by (auto simp: quote_char_def unquote_plain unquote.simps(2) [of "CHR 0x5C"] unescape_def)
qed

lemma unquote_quote: "ascii s \<Longrightarrow> unquote (quote s) = s"
  by (induction s) (simp_all add: ascii_def quote_def unquote_quote_char)

section \<open>Well-formed syntax trees\<close>

text \<open>What the scanner accepts as the text of a string, and as a number.\<close>

function raw_ok :: "string \<Rightarrow> bool" where
  "raw_ok [] \<longleftrightarrow> True"
| "raw_ok (c # cs) \<longleftrightarrow>
     (if c = CHR 0x5C
      then case cs of [] \<Rightarrow> False
           | e # ds \<Rightarrow> if e = CHR ''u'' then 4 \<le> length ds \<and> list_all is_hex (take 4 ds) \<and> raw_ok (drop 4 ds)
                       else e \<in> set [CHR ''b'', CHR ''f'', CHR ''n'', CHR ''r'', CHR ''t'', CHR 0x5C, CHR ''/'', CHR 0x22] \<and> raw_ok ds
      else c \<noteq> CHR 0x22 \<and> 32 \<le> (of_char c :: nat) \<and> raw_ok cs)"
  by pat_completeness auto
termination
  by (relation "measure length") auto

fun num_run :: "num_state \<Rightarrow> string \<Rightarrow> num_state option" where
  "num_run st [] = Some st"
| "num_run st (c # cs) = Option.bind (num_next st c) (\<lambda>st'. num_run st' cs)"

definition num_start :: "char \<Rightarrow> num_state option" where
  "num_start c = (if c = CHR ''-'' then Some StNeg else if c = CHR ''0'' then Some St0 else if is_digit c then Some St1 else None)"

fun number_ok :: "string \<Rightarrow> bool" where
  "number_ok [] \<longleftrightarrow> False"
| "number_ok (c # cs) \<longleftrightarrow> (case Option.bind (num_start c) (\<lambda>st. num_run st cs) of Some st \<Rightarrow> num_final st | None \<Rightarrow> False)"

text \<open>A tree that fits into \<open>d\<close> more levels of nesting.\<close>

primrec json_wf :: "json \<Rightarrow> nat \<Rightarrow> bool" where
  "json_wf JNull d \<longleftrightarrow> True"
| "json_wf (JBool b) d \<longleftrightarrow> True"
| "json_wf (JNum s) d \<longleftrightarrow> number_ok s"
| "json_wf (JStr s) d \<longleftrightarrow> raw_ok s"
| "json_wf (JArr vs) d \<longleftrightarrow> 0 < d \<and> list_all (\<lambda>p. p (d - 1)) (map json_wf vs)"
| "json_wf (JObj fs) d \<longleftrightarrow> 0 < d \<and> list_all (\<lambda>(k, p). raw_ok k \<and> p (d - 1)) (map (map_prod id json_wf) fs)"

section \<open>Parsing what was printed\<close>

lemma json_run_Nil [simp]: "json_run s [] = s"
  by (simp add: json_run_def)

lemma json_run_Cons [simp]: "json_run s (c # cs) = json_run (json_step s c) cs"
  by (simp add: json_run_def)

lemma json_run_append: "json_run s (xs @ ys) = json_run (json_run s xs) ys"
  by (simp add: json_run_def)

lemma json_step_end_value [simp]: "json_step (end_value v K) c = after_value v K c"
  by (cases K) (simp_all add: end_value_def)

lemma run_raw: "raw_ok s \<Longrightarrow> json_run (InString acc, K) (s @ CHR 0x22 # rest) = json_run (end_value (JStr (acc @ s)) K) rest"
proof (induction s arbitrary: acc rule: raw_ok.induct)
  case (2 c cs)
  show ?case
  proof (cases "c = CHR 0x5C")
    case esc: True
    then obtain e ds where cs: "cs = e # ds"
      using "2.prems" by (cases cs) auto
    show ?thesis
    proof (cases "e = CHR ''u''")
      case True
      then obtain h1 h2 h3 h4 rs where "ds = h1 # h2 # h3 # h4 # rs" "list_all is_hex [h1, h2, h3, h4]" "raw_ok rs"
        using "2.prems" esc cs by (cases "(ds, 4 :: nat)") (auto simp: Suc_le_length_iff numeral_eq_Suc)
      then show ?thesis
        using "2.IH"(1) [OF esc cs True, of "acc @ [CHR 0x5C, e, h1, h2, h3, h4]"] esc cs True by (simp add: numeral_eq_Suc)
    next
      case False
      then show ?thesis
        using "2.IH"(2) [OF esc cs False, of "acc @ [CHR 0x5C, e]"] "2.prems" esc cs by auto
    qed
  next
    case False
    then show ?thesis
      using "2.IH"(3) [OF False, of "acc @ [c]"] "2.prems" by auto
  qed
qed simp

lemma run_number: "num_run st s = Some st' \<Longrightarrow> json_run (InNumber st acc, K) s = (InNumber st' (acc @ s), K)"
  by (induction s arbitrary: st acc) (auto simp: bind_eq_Some_conv)

text \<open>The bytes that can follow a value; none of them continues a number.\<close>

definition delimiter :: "char \<Rightarrow> bool" where
  "delimiter c \<longleftrightarrow> c \<in> set [CHR '','', CHR '']'', CHR ''}'', CHR '' '', CHR '':'']"

lemma delimiter_ends_number: "delimiter c \<Longrightarrow> num_final st \<Longrightarrow> num_next st c = None"
  by (cases st) (auto simp: delimiter_def num_final_def is_digit_def)

lemma is_digit_begin: "is_digit c \<Longrightarrow> \<not> json_space c \<and> c \<notin> set [CHR ''{'', CHR ''['', CHR 0x22, CHR ''-'', CHR ''t'', CHR ''f'', CHR ''n'', CHR '']'']"
  by (auto simp: is_digit_def json_space_def)

lemma begin_number: "num_start c = Some st \<Longrightarrow> begin_value c K = (InNumber st [c], K)"
  using is_digit_begin [of c] by (auto simp: num_start_def begin_value_def json_space_def split: if_splits)

lemma run_number_value:
  assumes "number_ok s" "delimiter c"
  shows "json_run (BeginValue, K) (s @ c # rest) = json_run (after_value (JNum s) K c) rest"
proof -
  obtain d ds st st' where s: "s = d # ds" "num_start d = Some st" "num_run st ds = Some st'" "num_final st'"
    using assms(1) by (cases s) (auto simp: bind_eq_Some_conv split: option.splits)
  show ?thesis
    using s begin_number [OF s(2)] run_number [OF s(3), of "[d]" K] delimiter_ends_number [OF assms(2) s(4)]
    by (simp add: json_run_append)
qed

lemma json_print_head:
  assumes "json_wf v d"
  shows "\<exists>c cs. json_print v = c # cs \<and> \<not> json_space c \<and> c \<noteq> CHR '']''"
proof (cases v)
  case (JNum s)
  then obtain c cs where "s = c # cs" "num_start c \<noteq> None"
    using assms by (cases s) (auto split: option.splits bind_splits)
  then show ?thesis
    using JNum is_digit_begin [of c] by (auto simp: num_start_def json_space_def split: if_splits)
qed (auto simp: json_space_def)

text \<open>A machine that reads the printed value \<open>v\<close> in the stack \<open>K\<close> and then the byte \<open>c\<close>.\<close>

definition reads :: "json \<Rightarrow> frame list \<Rightarrow> bool" where
  "reads v K \<longleftrightarrow> (\<forall>c rest. delimiter c \<longrightarrow> json_run (BeginValue, K) (json_print v @ c # rest) = json_run (after_value v K c) rest)"

lemma readsD: "reads v K \<Longrightarrow> delimiter c \<Longrightarrow> json_run (BeginValue, K) (json_print v @ c # rest) = json_run (after_value v K c) rest"
  by (simp add: reads_def)

lemma commas_Cons: "xs \<noteq> [] \<Longrightarrow> commas (x # xs) = x @ CHR '','' # commas xs"
  by (cases xs) simp_all

lemma delimiters [simp]: "delimiter CHR '',''" "delimiter CHR '']''" "delimiter CHR ''}''" "delimiter CHR '' ''"
  by (simp_all add: delimiter_def)

lemma not_space [simp]: "\<not> json_space CHR '',''" "\<not> json_space CHR '']''" "\<not> json_space CHR ''}''" "\<not> json_space CHR '':''" "\<not> json_space CHR 0x22"
  by (simp_all add: json_space_def)

lemma reads_elements:
  assumes "\<And>v acc. v \<in> set vs \<Longrightarrow> reads v (ArrF acc # K)" "vs \<noteq> []"
  shows "json_run (BeginValue, ArrF acc # K) (commas (map json_print vs) @ CHR '']'' # rest) = json_run (end_value (JArr (acc @ vs)) K) rest"
  using assms(2,1)
proof (induction vs arbitrary: acc rule: list_nonempty_induct)
  case (single v)
  then show ?case
    using readsD [of v] by simp
next
  case (cons v vs)
  then show ?case
    using cons.IH [of "acc @ [v]"] readsD [of v "ArrF acc # K" "CHR '',''"] by (simp add: commas_Cons)
qed

lemma run_key: "raw_ok k \<Longrightarrow> json_run (BeginString, KeyF fs # K) (CHR 0x22 # k @ CHR 0x22 # CHR '':'' # s) = json_run (BeginValue, ValF fs k # K) s"
  by (simp add: begin_string_def run_raw)

definition print_fields :: "(string \<times> json) list \<Rightarrow> string" where
  "print_fields fs = commas (map print_field (map (map_prod id json_print) fs))"

lemma json_print_JObj: "json_print (JObj fs) = CHR ''{'' # print_fields fs @ ''}''"
  by (simp add: print_fields_def)

lemma print_fields_single: "print_fields [(k, v)] = CHR 0x22 # k @ CHR 0x22 # CHR '':'' # json_print v"
  by (simp add: print_fields_def print_field_def)

lemma print_fields_Cons: "fs \<noteq> [] \<Longrightarrow> print_fields ((k, v) # fs) = CHR 0x22 # k @ CHR 0x22 # CHR '':'' # json_print v @ CHR '','' # print_fields fs"
  by (simp add: print_fields_def print_field_def commas_Cons)

lemma reads_fields:
  assumes "\<And>k v acc. (k, v) \<in> set fs \<Longrightarrow> raw_ok k \<and> reads v (ValF acc k # K)" "fs \<noteq> []"
  shows "json_run (BeginString, KeyF acc # K) (print_fields fs @ CHR ''}'' # rest) = json_run (end_value (JObj (acc @ fs)) K) rest"
  using assms(2,1)
proof (induction fs arbitrary: acc rule: list_nonempty_induct)
  case (single f)
  obtain k v where f: "f = (k, v)"
    by fastforce
  then show ?case
    using single readsD [of v "ValF acc k # K" "CHR ''}''"] by (simp add: print_fields_single run_key del: json_run_Cons)
next
  case (cons f fs)
  obtain k v where f: "f = (k, v)"
    by fastforce
  have k: "raw_ok k" "reads v (ValF acc k # K)"
    using cons.prems f by auto
  have "json_run (BeginString, KeyF (acc @ [f]) # K) (print_fields fs @ CHR ''}'' # rest) = json_run (end_value (JObj (acc @ f # fs)) K) rest"
    by (subst cons.IH) (use cons.prems in auto)
  then show ?case
    using readsD [OF k(2), of "CHR '',''"] cons.hyps f k(1) by (simp add: print_fields_Cons run_key del: json_run_Cons)
qed

text \<open>After the opening bracket and brace an element, or a key, may follow at once.\<close>

lemma run_first_element:
  assumes "json_wf v d"
  shows "json_run (BeginValueOrEmpty, K) (json_print v @ s) = json_run (BeginValue, K) (json_print v @ s)"
  using json_print_head [OF assms] by auto

lemma reads_wf: "json_wf v (maxNestingDepth - length K) \<Longrightarrow> length K \<le> maxNestingDepth \<Longrightarrow> reads v K"
proof (induction v arbitrary: K rule: json.induct)
  case (JNum s)
  then show ?case
    by (simp add: reads_def run_number_value)
next
  case (JStr s)
  then show ?case
    by (simp add: reads_def begin_value_def json_space_def run_raw)
next
  case (JArr vs)
  have d: "length K < maxNestingDepth"
    using JArr.prems by auto
  have "reads v (ArrF acc # K)" if "v \<in> set vs" for v acc
    using JArr.IH [OF that, of "ArrF acc # K"] JArr.prems d that by (auto simp: list_all_iff)
  note elems = reads_elements [OF this]
  show ?case
  proof (cases vs)
    case Nil
    then show ?thesis
      using d by (simp add: reads_def begin_value_def json_space_def push_frame_def)
  next
    case (Cons v ws)
    then have "json_wf v (maxNestingDepth - length K - 1)"
      using JArr.prems by simp
    note first = run_first_element [OF this]
    obtain s where "commas (map json_print vs) = json_print v @ s"
      using Cons by (cases ws) auto
    then show ?thesis
      using d elems [of vs "[]"] first Cons by (simp add: reads_def begin_value_def json_space_def push_frame_def)
  qed
next
  case (JObj fs)
  have d: "length K < maxNestingDepth"
    using JObj.prems by auto
  have "raw_ok k \<and> reads v (ValF acc k # K)" if "(k, v) \<in> set fs" for k v acc
    using JObj.IH [OF that, of v "ValF acc k # K"] JObj.prems d that by (auto simp: list_all_iff)
  note fields = reads_fields [OF this]
  show ?case
  proof (cases fs)
    case Nil
    then show ?thesis
      using d by (simp add: reads_def begin_value_def json_space_def push_frame_def)
  next
    case (Cons f gs)
    obtain s where "print_fields fs = CHR 0x22 # s"
      using Cons by (cases gs; cases f) (auto simp: print_fields_single print_fields_Cons)
    then show ?thesis
      using d fields [of fs "[]"] Cons by (simp add: reads_def begin_value_def json_space_def push_frame_def json_print_JObj del: json_print.simps(6))
  qed
qed (auto simp: reads_def begin_value_def json_space_def)

lemma json_eof_space: "json_eof s = (case fst (json_step s (CHR '' '')) of EndTop v \<Rightarrow> Some v | _ \<Rightarrow> None)"
  by (cases s; cases "fst s") (auto simp: json_eof_def json_space_def split: scan_state.splits)

theorem json_parse_print:
  assumes "json_wf v maxNestingDepth"
  shows "json_parse (json_print v) = Some v"
proof -
  have "reads v []"
    using reads_wf [of v "[]"] assms by simp
  then have "json_run (BeginValue, []) (json_print v @ '' '') = after_value v [] (CHR '' '')"
    using readsD [of v "[]" "CHR '' ''" "[]"] by simp
  then show ?thesis
    by (simp add: json_parse_def json_eof_space json_run_append json_space_def)
qed

lemma raw_ok_quote_char:
  assumes "of_char c < (128::nat)"
  shows "raw_ok (quote_char c @ s) \<longleftrightarrow> raw_ok s"
proof (cases "c = CHR 0x22 \<or> c = CHR 0x5C")
  case True
  then show ?thesis
    by (auto simp: quote_char_def)
next
  case False
  define h1 h2 where "h1 = hex_digit (of_char c div 16)" and "h2 = hex_digit (of_char c mod 16)"
  have "list_all is_hex [CHR ''0'', CHR ''0'', h1, h2]"
    using assms by (simp add: h1_def h2_def hex_digit_value) (simp add: is_hex_def is_digit_def)
  moreover have "quote_char c = (if of_char c < (32::nat) then [CHR 0x5C, CHR ''u'', CHR ''0'', CHR ''0'', h1, h2] else [c])"
    using False by (simp add: quote_char_def h1_def h2_def)
  ultimately show ?thesis
    using False by auto
qed

lemma raw_ok_quote: "ascii s \<Longrightarrow> raw_ok (quote s)"
  by (induction s) (simp_all add: ascii_def quote_def raw_ok_quote_char)

section \<open>Decoding into Go values\<close>

text \<open>
  \<open>json.Unmarshal\<close> into a variable changes what the input mentions and keeps the rest: a decoder takes the value and
  the old contents. A value of the wrong kind is an error (after which the program uses nothing of the
  variable), and \<open>null\<close> leaves strings, numbers, booleans and structs alone.
\<close>

datatype json_error = SyntaxError | DecodeError

type_synonym 'a decoder = "json \<Rightarrow> 'a \<Rightarrow> json_error + 'a"

definition Unmarshal :: "'a decoder \<Rightarrow> string \<Rightarrow> 'a \<Rightarrow> json_error + 'a" where
  "Unmarshal dec s old = (case json_parse s of None \<Rightarrow> Inl SyntaxError | Some j \<Rightarrow> dec j old)"

fun decode_string :: "string decoder" where
  "decode_string JNull old = Inr old"
| "decode_string (JStr s) old = Inr (unquote s)"
| "decode_string j old = Inl DecodeError"

fun decode_bool :: "bool decoder" where
  "decode_bool JNull old = Inr old"
| "decode_bool (JBool b) old = Inr b"
| "decode_bool j old = Inl DecodeError"

text \<open>An integer must be written without fraction and exponent and fit into 64 bits.\<close>

definition parse_int64 :: "string \<Rightarrow> int option" where
  "parse_int64 s =
     (let (neg, rest) = (case s of c # cs \<Rightarrow> if c = CHR ''-'' then (True, cs) else (False, s) | [] \<Rightarrow> (False, s))
      in case parse_unsigned rest of None \<Rightarrow> None
         | Some n \<Rightarrow> let v = (if neg then - n else n) in if int64_range v then Some v else None)"

fun decode_int :: "int decoder" where
  "decode_int JNull old = Inr old"
| "decode_int (JNum s) old = (case parse_int64 s of None \<Rightarrow> Inl DecodeError | Some n \<Rightarrow> Inr n)"
| "decode_int j old = Inl DecodeError"

text \<open>A key selects the field of that name or else the first field whose name is equal up to case. The long s and the
  Kelvin sign fold to letters.\<close>

fun fold_key :: "string \<Rightarrow> string" where
  "fold_key [] = []"
| "fold_key (c # cs) =
     (if between 65 90 (of_char c) then char_of (of_char c + 32 :: nat) # fold_key cs
      else if c = CHR 0xC5 \<and> take 1 cs = [CHR 0xBF] then CHR ''s'' # fold_key (drop 1 cs)
      else if c = CHR 0xE2 \<and> take 2 cs = [CHR 0x84, CHR 0xAA] then CHR ''k'' # fold_key (drop 2 cs)
      else c # fold_key cs)"

definition match_field :: "string list \<Rightarrow> string \<Rightarrow> string option" where
  "match_field names key = (if key \<in> set names then Some key else find (\<lambda>n. fold_key n = fold_key key) names)"

text \<open>The struct with the fields \<open>names\<close>; \<open>store\<close> decodes into the field of a name. Keys of no field are skipped.\<close>

fun decode_fields :: "string list \<Rightarrow> (string \<Rightarrow> 'a decoder) \<Rightarrow> (string \<times> json) list \<Rightarrow> 'a \<Rightarrow> json_error + 'a" where
  "decode_fields names store [] old = Inr old"
| "decode_fields names store ((k, v) # fs) old =
     (case match_field names (unquote k) of
        None \<Rightarrow> decode_fields names store fs old
      | Some n \<Rightarrow> (case store n v old of Inl e \<Rightarrow> Inl e | Inr new \<Rightarrow> decode_fields names store fs new))"

fun decode_struct :: "string list \<Rightarrow> (string \<Rightarrow> 'a decoder) \<Rightarrow> 'a decoder" where
  "decode_struct names store JNull old = Inr old"
| "decode_struct names store (JObj fs) old = decode_fields names store fs old"
| "decode_struct names store j old = Inl DecodeError"

text \<open>A map keeps its entries; the element of a key is decoded into a zero value.\<close>

fun decode_entries :: "'a decoder \<Rightarrow> 'a \<Rightarrow> (string \<times> json) list \<Rightarrow> (string \<rightharpoonup> 'a) \<Rightarrow> json_error + (string \<rightharpoonup> 'a)" where
  "decode_entries dec zero [] m = Inr m"
| "decode_entries dec zero ((k, v) # fs) m =
     (case dec v zero of Inl e \<Rightarrow> Inl e | Inr x \<Rightarrow> decode_entries dec zero fs (m(unquote k \<mapsto> x)))"

fun decode_map :: "'a decoder \<Rightarrow> 'a \<Rightarrow> (string \<rightharpoonup> 'a) decoder" where
  "decode_map dec zero JNull old = Inr Map.empty"
| "decode_map dec zero (JObj fs) old = decode_entries dec zero fs old"
| "decode_map dec zero j old = Inl DecodeError"

text \<open>A slice: an element is decoded into the old element at its index. (Only a key that occurs three times could see
  elements beyond the length of the slice, which are not modelled.)\<close>

fun decode_elements :: "'a decoder \<Rightarrow> 'a \<Rightarrow> json list \<Rightarrow> 'a list \<Rightarrow> json_error + 'a list" where
  "decode_elements dec zero [] olds = Inr []"
| "decode_elements dec zero (v # vs) olds =
     (case dec v (case olds of o1 # _ \<Rightarrow> o1 | [] \<Rightarrow> zero) of Inl e \<Rightarrow> Inl e
      | Inr x \<Rightarrow> (case decode_elements dec zero vs (drop 1 olds) of Inl e \<Rightarrow> Inl e | Inr xs \<Rightarrow> Inr (x # xs)))"

fun decode_slice :: "'a decoder \<Rightarrow> 'a \<Rightarrow> 'a list decoder" where
  "decode_slice dec zero JNull old = Inr []"
| "decode_slice dec zero (JArr vs) old = decode_elements dec zero vs old"
| "decode_slice dec zero j old = Inl DecodeError"

lemma parse_int64_show_int:
  assumes "int64_range i"
  shows "parse_int64 (show_int i) = Some i"
proof (cases "i < 0")
  case True
  then show ?thesis
    using assms by (simp add: parse_int64_def show_int_def parse_digits_of)
next
  case False
  obtain c cs where c: "digits_of (nat i) = c # cs" "is_digit c"
    using digits_of_digits [of "nat i"] by (cases "digits_of (nat i)") auto
  then show ?thesis
    using False assms is_digit_no_sign [OF c(2)] parse_digits_of [of "nat i"] by (simp add: parse_int64_def show_int_def)
qed

end
