(* ===== verification/Float64.thy ===== *)
theory Float64
  imports Prelude Complex_Main "HOL-Library.Log_Nat"
begin

text \<open>
  What the program uses of \<open>float64\<close>: rounding to 53 significant bits, to nearest with ties to even, on
  exact rational values. Every value the program computes is far inside the range of normal numbers,
  so that exponent overflow and subnormal numbers do not occur.

  The code uses \<open>float64\<close> in \<open>time.Duration.Seconds\<close> and in \<open>time.ParseDuration\<close>; the lemmas say where
  its rounding is exact and that it is monotone.
\<close>

section \<open>The binary exponent\<close>

definition lg2 :: "rat \<Rightarrow> int" where
  "lg2 x = (case quotient_of x of (p, q) \<Rightarrow>
     let k = int (floorlog 2 (nat p)) - int (floorlog 2 (nat q)) in if 2 powi k \<le> x then k else k - 1)"

lemma floorlog_rat:
  assumes "0 < p"
  shows "(2::rat) powi (int (floorlog 2 (nat p)) - 1) \<le> of_int p" "of_int p < (2::rat) powi int (floorlog 2 (nat p))"
proof -
  let ?a = "floorlog 2 (nat p)"
  have a: "2 ^ (?a - 1) \<le> nat p" "nat p < 2 ^ ?a"
    using floorlog_bounds [of "nat p" 2] assms by simp_all
  then have "0 < ?a"
    using assms by (cases ?a) auto
  then have "int ?a - 1 = int (?a - 1)"
    by linarith
  then have e: "(2::rat) powi (int ?a - 1) = of_int (2 ^ (?a - 1))"
    by (simp only: power_int_of_nat of_int_power of_int_numeral)
  have "(2::int) ^ (?a - 1) \<le> p" "p < 2 ^ ?a"
    using a assms by (simp_all add: le_nat_iff nat_less_iff)
  then show "(2::rat) powi (int ?a - 1) \<le> of_int p" "of_int p < (2::rat) powi int ?a"
    unfolding e by (simp_all only: of_int_le_iff power_int_of_nat) (metis of_int_less_iff of_int_numeral of_int_power)
qed

lemma lg2_bounds:
  assumes "0 < x"
  shows "2 powi lg2 x \<le> x" "x < 2 powi (lg2 x + 1)"
proof -
  obtain p q where pq: "quotient_of x = (p, q)"
    by fastforce
  have q: "0 < q" and x: "x = of_int p / of_int q"
    using quotient_of_denom_pos [OF pq] quotient_of_div [OF pq] by simp_all
  have p: "0 < p"
    using assms q x by (simp add: zero_less_divide_iff)
  let ?k = "int (floorlog 2 (nat p)) - int (floorlog 2 (nat q))"
  note P = floorlog_rat [OF p] and Q = floorlog_rat [OF q]
  have "x < 2 powi int (floorlog 2 (nat p)) / 2 powi (int (floorlog 2 (nat q)) - 1)"
    unfolding x using P Q q p by (intro frac_less) auto
  then have hi: "x < 2 powi (?k + 1)"
    by (simp add: power_int_diff power_int_add)
  have "2 powi (int (floorlog 2 (nat p)) - 1) / 2 powi int (floorlog 2 (nat q)) \<le> x"
    unfolding x using P Q q p by (intro frac_le) auto
  then have lo: "2 powi (?k - 1) \<le> x"
    by (simp add: power_int_diff)
  show "2 powi lg2 x \<le> x" "x < 2 powi (lg2 x + 1)"
    using hi lo by (simp_all add: lg2_def pq Let_def)
qed

lemma pow2_less: "(2::rat) powi m < 2 powi n \<Longrightarrow> m < n"
  using power_int_increasing [of n m "2 :: rat"] by force

lemma pow2_le: "(2::rat) powi m \<le> 2 powi n \<Longrightarrow> m \<le> n"
  using power_int_strict_increasing [of n m "2 :: rat"] by force

section \<open>Rounding\<close>

text \<open>To the nearest integer, ties to even.\<close>

definition rne :: "rat \<Rightarrow> int" where
  "rne x = (let f = \<lfloor>x\<rfloor>; d = x - of_int f
     in if d < 1 / 2 then f else if 1 / 2 < d then f + 1 else if even f then f else f + 1)"

lemma rne_of_int [simp]: "rne (of_int n) = n"
  by (simp add: rne_def)

lemma rne_mono:
  assumes "x \<le> y"
  shows "rne x \<le> rne y"
proof (cases "\<lfloor>x\<rfloor> = \<lfloor>y\<rfloor>")
  case True
  then show ?thesis
    using assms by (auto simp: rne_def Let_def)
next
  case False
  then have "\<lfloor>x\<rfloor> + 1 \<le> \<lfloor>y\<rfloor>"
    using floor_mono [OF assms] by linarith
  moreover have "rne x \<le> \<lfloor>x\<rfloor> + 1" "\<lfloor>y\<rfloor> \<le> rne y"
    by (simp_all add: rne_def Let_def)
  ultimately show ?thesis
    by linarith
qed

definition ulp :: "rat \<Rightarrow> rat" where
  "ulp x = 2 powi (lg2 x - 52)"

definition f64 :: "rat \<Rightarrow> rat" where
  "f64 x = (if x = 0 then 0 else if 0 < x then of_int (rne (x / ulp x)) * ulp x
     else - (of_int (rne (- x / ulp (- x))) * ulp (- x)))"

lemma ulp_pos [simp]: "0 < ulp x"
  by (simp add: ulp_def)

lemma f64_pos_bounds:
  assumes "0 < x"
  shows "2 powi lg2 x \<le> f64 x" "f64 x \<le> 2 powi (lg2 x + 1)"
proof -
  have u: "2 powi lg2 x = of_int (2 ^ 52) * ulp x" "2 powi (lg2 x + 1) = of_int (2 ^ 53) * ulp x"
    by (simp_all add: ulp_def power_int_diff power_int_add)
  have "of_int (2 ^ 52) \<le> x / ulp x" "x / ulp x \<le> of_int (2 ^ 53)"
    using lg2_bounds [OF assms] by (simp_all only: u pos_le_divide_eq pos_divide_le_eq ulp_pos less_imp_le)
  then have "2 ^ 52 \<le> rne (x / ulp x)" "rne (x / ulp x) \<le> 2 ^ 53"
    using rne_mono [of "of_int (2 ^ 52)" "x / ulp x"] rne_mono [of "x / ulp x" "of_int (2 ^ 53)"] by (simp_all only: rne_of_int)
  then show "2 powi lg2 x \<le> f64 x" "f64 x \<le> 2 powi (lg2 x + 1)"
    using assms unfolding f64_def u by (simp_all add: mult_right_mono del: of_int_power) 
qed

lemma f64_0 [simp]: "f64 0 = 0"
  by (simp add: f64_def)

lemma f64_nonneg: "0 \<le> x \<Longrightarrow> 0 \<le> f64 x"
proof (cases "x = 0")
  case False
  moreover assume "0 \<le> x"
  ultimately have "0 < x"
    by simp
  then show ?thesis
    using f64_pos_bounds(1) [of x] zero_less_power_int [of "2 :: rat" "lg2 x"] by linarith
qed simp

lemma f64_mono:
  assumes "0 \<le> x" "x \<le> y"
  shows "f64 x \<le> f64 y"
proof (cases "x = 0")
  case True
  then show ?thesis
    using assms f64_nonneg by simp
next
  case False
  then have pos: "0 < x" "0 < y"
    using assms by auto
  show ?thesis
  proof (cases "lg2 x = lg2 y")
    case True
    then have u: "ulp x = ulp y"
      by (simp add: ulp_def)
    have "rne (x / ulp x) \<le> rne (y / ulp x)"
      using assms(2) by (intro rne_mono divide_right_mono) (simp_all add: less_imp_le)
    then show ?thesis
      using pos by (simp add: f64_def u mult_right_mono less_imp_le)
  next
    case False
    have "2 powi lg2 x < (2::rat) powi (lg2 y + 1)"
      using lg2_bounds [OF pos(1)] lg2_bounds [OF pos(2)] assms(2) by linarith
    then have "lg2 x < lg2 y + 1"
      by (rule pow2_less)
    then have "(2::rat) powi (lg2 x + 1) \<le> 2 powi lg2 y"
      using False by (intro power_int_increasing) auto
    then show ?thesis
      using f64_pos_bounds [OF pos(1)] f64_pos_bounds [OF pos(2)] by linarith
  qed
qed

text \<open>Values with at most 53 significant bits are exact.\<close>

lemma f64_exact:
  assumes "0 \<le> m" "m \<le> 2 ^ 53"
  shows "f64 (of_int m * 2 powi e) = of_int m * 2 powi e"
proof (cases "m = 0")
  case False
  let ?x = "of_int m * 2 powi e :: rat"
  have x: "0 < ?x"
    using assms False by simp
  have "\<exists>n. ?x / ulp ?x = of_int n"
  proof (cases "lg2 ?x - 52 \<le> e")
    case True
    define l where "l = lg2 ?x - 52"
    define k where "k = nat (e - l)"
    have u: "ulp ?x = 2 powi l" and "e = int k + l"
      using True by (simp_all add: l_def k_def ulp_def)
    then have "(2::rat) powi e = 2 ^ k * 2 powi l"
      by (simp add: power_int_add)
    then have "?x / ulp ?x = of_int (m * 2 ^ k)"
      unfolding u by simp
    then show ?thesis
      by blast
  next
    case big: False
    have "2 powi lg2 ?x \<le> ?x"
      using lg2_bounds(1) [OF x] .
    then have "(2::rat) powi (lg2 ?x - e) \<le> of_int m"
      by (simp add: power_int_diff field_simps)
    moreover have "(2::rat) powi 53 \<le> 2 powi (lg2 ?x - e)"
      using big by (intro power_int_increasing) auto
    ultimately have "(2::rat) powi 53 \<le> of_int m"
      by linarith
    then have "rat_of_int (2 ^ 53) \<le> rat_of_int m"
      by simp
    then have m: "m = 2 ^ 53"
      using assms(2) unfolding of_int_le_iff by linarith
    then have "?x = 2 powi (e + 53)"
      by (simp add: power_int_add)
    then have "(2::rat) powi lg2 ?x \<le> 2 powi (e + 53)"
      using lg2_bounds(1) [OF x] by simp
    then have "lg2 ?x = e + 53"
      using big pow2_le by fastforce
    then have "?x / ulp ?x = of_int (2 ^ 52)"
      by (simp add: ulp_def m power_int_diff power_int_add)
    then show ?thesis
      by blast
  qed
  then obtain n where n: "?x / ulp ?x = of_int n"
    by blast
  then have "?x = of_int n * ulp ?x"
    using ulp_pos [of ?x] by (simp add: divide_eq_eq)
  moreover have "f64 ?x = of_int (rne (?x / ulp ?x)) * ulp ?x"
    unfolding f64_def using x by (simp only: if_True less_irrefl if_False order_less_imp_not_eq2)
  ultimately show ?thesis
    unfolding n rne_of_int by simp
qed simp

lemma f64_of_int [simp]: "0 \<le> m \<Longrightarrow> m \<le> 2 ^ 53 \<Longrightarrow> f64 (of_int m) = of_int m"
  using f64_exact [of m 0] by simp

section \<open>time.Duration.Seconds\<close>

text \<open>\<open>float64(sec) + float64(nsec)/1e9\<close>, with the seconds and nanoseconds of the truncating division.\<close>

definition Seconds :: "int \<Rightarrow> rat" where
  "Seconds d = f64 (f64 (of_int (d sdiv 1000000000)) + f64 (f64 (of_int (d smod 1000000000)) / 1000000000))"

text \<open>The conversion \<open>int(x)\<close> truncates towards zero.\<close>

definition go_trunc :: "rat \<Rightarrow> int" where
  "go_trunc x = (if 0 \<le> x then \<lfloor>x\<rfloor> else - \<lfloor>- x\<rfloor>)"

text \<open>For durations of up to 2^22 seconds (48 days) the rounding never reaches the next second.\<close>

lemma Seconds_trunc:
  assumes "0 \<le> d" "d < 2 ^ 22 * 1000000000"
  shows "go_trunc (Seconds d) = d div 1000000000"
proof -
  define sec nsec where "sec = d div 1000000000" and "nsec = d mod 1000000000"
  have sec: "d sdiv 1000000000 = sec" and nsec: "d smod 1000000000 = nsec"
    using assms(1) by (simp_all add: sec_def nsec_def signed_divide_int_def signed_modulo_int_def sgn_if)
  have r: "0 \<le> sec" "sec < 2 ^ 22" "0 \<le> nsec" "nsec \<le> 999999999"
    using assms pos_mod_bound [of 1000000000 d] by (simp_all add: sec_def nsec_def pos_imp_zdiv_nonneg_iff div_less_iff_less_mult)
  let ?q = "of_int (2 ^ 30 - 1) * 2 powi (- 30) :: rat"
  have "of_int nsec / 1000000000 \<le> ?q"
    using r by (simp add: power_int_minus field_simps)
  then have "f64 (of_int nsec / 1000000000) \<le> f64 ?q"
    using r by (intro f64_mono) simp_all
  also have "f64 ?q = ?q"
    by (rule f64_exact) simp_all
  finally have hi: "f64 (of_int nsec / 1000000000) \<le> ?q" .
  have lo: "0 \<le> f64 (of_int nsec / 1000000000)"
    using r by (intro f64_nonneg) simp
  let ?y = "of_int sec + f64 (of_int nsec / 1000000000)"
  let ?z = "of_int (sec * 2 ^ 30 + 2 ^ 30 - 1) * 2 powi (- 30) :: rat"
  have "?y \<le> ?z"
    using hi by (simp add: power_int_minus field_simps)
  then have "f64 ?y \<le> f64 ?z"
    using r lo by (intro f64_mono) simp_all
  also have "f64 ?z = ?z"
    using r by (intro f64_exact) simp_all
  finally have "f64 ?y \<le> ?z" .
  then have "f64 ?y < of_int sec + 1"
    by (simp add: power_int_minus field_simps)
  moreover have "of_int sec \<le> f64 ?y"
    using f64_mono [of "of_int sec" ?y] r lo by simp
  ultimately have "\<lfloor>f64 ?y\<rfloor> = sec"
    by (simp add: floor_eq_iff)
  moreover have "Seconds d = f64 ?y"
    using r by (simp add: Seconds_def sec nsec)
  ultimately show ?thesis
    using \<open>of_int sec \<le> f64 ?y\<close> r(1) by (simp add: go_trunc_def sec_def)
qed

end
