(* ===== verification/LatencyData.thy ===== *)
theory LatencyData
  imports Json Float64
begin

text \<open>
  \<open>latency/latency.go\<close>: the table of latencies between cities, and what it uses of
  \<open>time.ParseDuration\<close> (with the units of its table and its \<open>float64\<close> arithmetic for the fraction).

  The text of the embedded JSON file is the argument of \<open>ReadLatencyDataFromJson\<close>.
\<close>

section \<open>time.ParseDuration\<close>

abbreviation max_int64 :: int where "max_int64 \<equiv> 9223372036854775807"

definition leadingInt :: "string \<Rightarrow> (int \<times> string) option" where
  "leadingInt s = (let v = digits_value (takeWhile is_digit s)
     in if v > max_int64 then None else Some (v, dropWhile is_digit s))"

text \<open>Digits past the overflow are consumed and ignored; the result carries the number of digits used.\<close>

fun fraction_digits :: "int \<Rightarrow> nat \<Rightarrow> bool \<Rightarrow> string \<Rightarrow> int \<times> nat" where
  "fraction_digits x k overflow [] = (x, k)"
| "fraction_digits x k overflow (c # cs) =
     (if overflow \<or> x > max_int64 div 10 \<or> x * 10 + (of_char c - 48) > max_int64 then fraction_digits x k True cs
      else fraction_digits (x * 10 + (of_char c - 48)) (Suc k) False cs)"

definition unit_of :: "string \<Rightarrow> int option" where
  "unit_of = map_of [(''ns'', 1), (''us'', 1000), ([CHR 0xC2, CHR 0xB5, CHR ''s''], 1000), ([CHR 0xCE, CHR 0xBC, CHR ''s''], 1000),
     (''ms'', 1000000), (''s'', 1000000000), (''m'', 60 * 1000000000), (''h'', 3600 * 1000000000)]"

abbreviation unit_char :: "char \<Rightarrow> bool" where
  "unit_char c \<equiv> c \<noteq> CHR ''.'' \<and> \<not> is_digit c"

text \<open>\<open>int64(float64(f) * (float64(unit) / scale))\<close> with \<open>scale = 10^k\<close>.\<close>

definition scaled_fraction :: "int \<Rightarrow> nat \<Rightarrow> int \<Rightarrow> int" where
  "scaled_fraction f k unit = go_trunc (f64 (f64 (of_int f) * f64 (of_int unit / 10 ^ k)))"

text \<open>The optional \<open>.[0-9]*\<close>: the fraction, its number of digits, whether there were any, and the rest.\<close>

fun duration_fraction :: "string \<Rightarrow> int \<times> nat \<times> bool \<times> string" where
  "duration_fraction [] = (0, 0, False, [])"
| "duration_fraction (c # cs) =
     (if c = CHR ''.''
      then case fraction_digits 0 0 False (takeWhile is_digit cs) of (f, k) \<Rightarrow>
             (f, k, takeWhile is_digit cs \<noteq> [], dropWhile is_digit cs)
      else (0, 0, False, c # cs))"

text \<open>One term \<open>[0-9]*(.[0-9]*)?unit\<close>: its value and the rest.\<close>

definition duration_term :: "string \<Rightarrow> (int \<times> string) option" where
  "duration_term s =
     (case leadingInt s of None \<Rightarrow> None
      | Some (v, s1) \<Rightarrow>
          (case duration_fraction s1 of (f, k, post, s2) \<Rightarrow>
             if takeWhile is_digit s = [] \<and> \<not> post \<or> takeWhile unit_char s2 = [] then None
             else case unit_of (takeWhile unit_char s2) of None \<Rightarrow> None
               | Some unit \<Rightarrow>
                   if v > max_int64 div unit then None
                   else let d = v * unit + (if f > 0 then scaled_fraction f k unit else 0)
                        in if d > max_int64 then None else Some (d, dropWhile unit_char s2)))"

lemma length_dropWhile_lt: "takeWhile P s \<noteq> [] \<Longrightarrow> length (dropWhile P s) < length s"
  by (metis append.left_neutral length_append length_greater_0_conv less_add_same_cancel2 takeWhile_dropWhile_id)

lemma duration_fraction_shorter: "duration_fraction s = (f, k, post, s') \<Longrightarrow> length s' \<le> length s"
  by (cases s) (auto simp: le_SucI length_dropWhile_le split: if_splits prod.splits)

lemma duration_term_shorter:
  assumes "duration_term s = Some (d, rest)"
  shows "length rest < length s"
proof -
  obtain v s1 where s1: "leadingInt s = Some (v, s1)"
    using assms by (auto simp: duration_term_def split: option.splits)
  obtain f k post s2 where s2: "duration_fraction s1 = (f, k, post, s2)"
    by (cases "duration_fraction s1")
  have "rest = dropWhile unit_char s2" "takeWhile unit_char s2 \<noteq> []"
    using assms s1 s2 by (auto simp: duration_term_def Let_def split: option.splits if_splits)
  then show ?thesis
    using length_dropWhile_lt [of unit_char s2] duration_fraction_shorter [OF s2] s1 length_dropWhile_le [of is_digit s]
    by (simp add: leadingInt_def Let_def split: if_splits)
qed

function duration_sum :: "int \<Rightarrow> string \<Rightarrow> int option" where
  "duration_sum d s =
     (if s = [] then Some d
      else case duration_term s of None \<Rightarrow> None
        | Some (v, rest) \<Rightarrow> if d + v > max_int64 then None else duration_sum (d + v) rest)"
  by pat_completeness auto
termination
  by (relation "measure (\<lambda>(d, s). length s)") (auto simp: duration_term_shorter)

declare duration_sum.simps [simp del]

text \<open>\<open>None\<close> is the error.\<close>

definition ParseDuration :: "string \<Rightarrow> int option" where
  "ParseDuration s =
     (let (neg, s) = (case s of c # cs \<Rightarrow> if c = CHR ''-'' \<or> c = CHR ''+'' then (c = CHR ''-'', cs) else (False, s)
        | [] \<Rightarrow> (False, s))
      in if s = ''0'' then Some 0 else if s = [] then None
         else map_option (\<lambda>d. if neg then - d else d) (duration_sum 0 s))"

section \<open>LatencyData\<close>

definition defaultAvgLatency :: string where
  "defaultAvgLatency = ''0.58''"

record LatencyData =
  PingData :: "string \<rightharpoonup> (string \<rightharpoonup> string)"
  SourcesList :: "(string \<times> string) list"
  sources :: "string \<rightharpoonup> string"

text \<open>\<open>rand.Intn\<close> panics for a non-positive argument; \<open>n\<close> is the draw before the reduction.\<close>

definition GetRandomCity :: "nat \<Rightarrow> LatencyData \<Rightarrow> string go" where
  "GetRandomCity n l = (if SourcesList l = [] then Inl (InvalidArgument ''Intn'')
     else Inr (snd (SourcesList l ! (n mod length (SourcesList l)))))"

text \<open>A missing key reads as the zero value of the element type: the empty string.\<close>

definition map_get :: "(string \<rightharpoonup> string) \<Rightarrow> string \<Rightarrow> string" where
  "map_get m k = (case m k of None \<Rightarrow> [] | Some v \<Rightarrow> v)"

definition latency_Find :: "string \<Rightarrow> string \<Rightarrow> LatencyData \<Rightarrow> int go" where
  "latency_Find from to l =
     (let fromID = map_get (sources l) from; toID = map_get (sources l) to;
          pd = (case PingData l fromID of None \<Rightarrow> [] | Some row \<Rightarrow> map_get row toID);
          pd = (if pd = [] then defaultAvgLatency else pd)
      in case ParseDuration (pd @ ''ms'') of
           None \<Rightarrow> Inl (Explicit ''time: invalid duration'')
         | Some dur \<Rightarrow> Inr dur)"

subsection \<open>Reading the table\<close>

text \<open>The struct of an entry of \<open>PingData\<close> has the one field \<open>Avg\<close>, so it is that string; an entry of \<open>SourcesList\<close> is
  the pair of its id and name. The fields have no tags: the keys of the file match them up to case.\<close>

definition decode_Avg :: "string decoder" where
  "decode_Avg = decode_struct [''Avg''] (\<lambda>n. decode_string)"

definition source_store :: "string \<Rightarrow> (string \<times> string) decoder" where
  "source_store n j = (\<lambda>(i, name).
     if n = ''Id'' then map_sum id (\<lambda>v. (v, name)) (decode_string j i) else map_sum id (\<lambda>v. (i, v)) (decode_string j name))"

definition decode_source :: "(string \<times> string) decoder" where
  "decode_source = decode_struct [''Id'', ''Name''] source_store"

definition LatencyData_store :: "string \<Rightarrow> LatencyData decoder" where
  "LatencyData_store n j l =
     (if n = ''PingData'' then map_sum id (\<lambda>v. l\<lparr>PingData := v\<rparr>) (decode_map (decode_map decode_Avg []) Map.empty j (PingData l))
      else map_sum id (\<lambda>v. l\<lparr>SourcesList := v\<rparr>) (decode_slice decode_source ([], []) j (SourcesList l)))"

definition decode_LatencyData :: "LatencyData decoder" where
  "decode_LatencyData = decode_struct [''PingData'', ''SourcesList''] LatencyData_store"

text \<open>The loop over \<open>SourcesList\<close>; a later entry of the same name wins.\<close>

definition fill_sources :: "LatencyData \<Rightarrow> LatencyData" where
  "fill_sources l = l\<lparr>sources := foldl (\<lambda>m i. m(snd i \<mapsto> fst i)) Map.empty (SourcesList l)\<rparr>"

definition ReadLatencyDataFromJson :: "string \<Rightarrow> LatencyData go" where
  "ReadLatencyDataFromJson latencyDataRaw =
     (case Unmarshal decode_LatencyData latencyDataRaw \<lparr>PingData = Map.empty, SourcesList = [], sources = Map.empty\<rparr> of
        Inl e \<Rightarrow> Inl (Explicit ''json.Unmarshal'')
      | Inr latencyData \<Rightarrow> Inr (fill_sources latencyData))"

section \<open>Decimal latencies\<close>

text \<open>The entries of the table are decimal numbers of milliseconds.\<close>

definition decimal :: "string \<Rightarrow> string \<Rightarrow> string" where
  "decimal a f = a @ ''.'' @ f"

lemma digit_value_bounds: "is_digit c \<Longrightarrow> 0 \<le> of_char c - (48::int) \<and> of_char c - (48::int) \<le> 9"
proof -
  assume "is_digit c"
  then have "int 48 \<le> int (of_char c)" "int (of_char c) \<le> int 57"
    unfolding is_digit_def by (simp_all only: of_nat_le_iff)
  then have "(48::int) \<le> of_char c" "of_char c \<le> (57::int)"
    unfolding of_nat_of_char of_nat_numeral .
  then show ?thesis
    by simp
qed

lemma digits_value_snoc: "digits_value (xs @ [c]) = digits_value xs * 10 + (of_char c - 48)"
  by (simp add: digits_value_def)

lemma digits_value_bounds: "list_all is_digit xs \<Longrightarrow> 0 \<le> digits_value xs \<and> digits_value xs < 10 ^ length xs"
proof (induction xs rule: rev_induct)
  case (snoc c xs)
  then show ?case
    using digit_value_bounds [of c] by (auto simp: digits_value_snoc)
qed (simp add: digits_value_def)

lemma fraction_digits_short:
  assumes "list_all is_digit xs" "0 \<le> x" "x < 10 ^ k" "k + length xs \<le> 6"
  shows "fraction_digits x k False xs = (foldl (\<lambda>a c. a * 10 + (of_char c - 48)) x xs, k + length xs)"
  using assms
proof (induction xs arbitrary: x k)
  case (Cons c xs)
  have c: "0 \<le> of_char c - (48::int)" "of_char c - (48::int) \<le> 9"
    using Cons.prems(1) digit_value_bounds [of c] by auto
  have "(10::int) ^ k \<le> 10 ^ 5"
    using Cons.prems(4) by (intro power_increasing) auto
  then have x: "x < 10 ^ 5"
    using Cons.prems(3) by linarith
  have "x * 10 + (of_char c - 48) < 10 ^ Suc k"
    using Cons.prems(3) c(2) by simp
  then show ?case
    using Cons.IH [of "x * 10 + (of_char c - 48)" "Suc k"] Cons.prems c x by auto
qed simp

lemma go_trunc_of_int: "go_trunc (of_int n) = n"
  by (simp add: go_trunc_def)

lemma scaled_fraction_exact:
  assumes "0 \<le> f" "f < 10 ^ k" "k \<le> 6"
  shows "scaled_fraction f k 1000000 = f * 10 ^ (6 - k)"
proof -
  have p: "(10::int) ^ k * 10 ^ (6 - k) = 10 ^ 6"
    using assms(3) by (simp flip: power_add)
  have "(1000000 :: rat) / 10 ^ k = of_int (10 ^ (6 - k))"
    using arg_cong [OF p, of rat_of_int] by (simp add: field_simps)
  moreover have "(10::int) ^ (6 - k) \<le> 10 ^ 6" "(10::int) ^ k \<le> 10 ^ 6"
    using assms(3) by (intro power_increasing; simp)+
  moreover have "f * 10 ^ (6 - k) < 10 ^ 6"
    using mult_strict_right_mono [OF assms(2), of "10 ^ (6 - k)"] p by simp
  ultimately have "f64 (f64 (of_int f) * f64 (of_int 1000000 / 10 ^ k)) = of_int (f * 10 ^ (6 - k))"
    using assms(1,2) f64_of_int [of "f * 10 ^ (6 - k)"] f64_of_int [of f] f64_of_int [of "10 ^ (6 - k)"]
    by simp
  then show ?thesis
    unfolding scaled_fraction_def by (simp only: go_trunc_of_int)
qed

lemma not_digit: "\<not> is_digit CHR ''.''" "\<not> is_digit CHR ''m''" "\<not> is_digit CHR ''s''"
  by (simp_all add: is_digit_def)

lemma takeWhile_digits:
  assumes "list_all is_digit xs" "\<not> is_digit c"
  shows "takeWhile is_digit (xs @ c # rest) = xs" "dropWhile is_digit (xs @ c # rest) = c # rest"
  using assms by (simp_all add: takeWhile_append2 dropWhile_append2 list_all_iff)

lemma duration_term_decimal:
  assumes a: "list_all is_digit a" "a \<noteq> []" "length a \<le> 9" and f: "list_all is_digit f" "length f \<le> 6"
  shows "duration_term (decimal a f @ ''ms'') = Some (digits_value a * 1000000 + digits_value f * 10 ^ (6 - length f), [])"
proof -
  let ?s = "decimal a f @ ''ms''"
  have s: "?s = a @ CHR ''.'' # f @ ''ms''"
    by (simp add: decimal_def)
  have "digits_value a < 10 ^ length a" "0 \<le> digits_value a"
    using digits_value_bounds [OF a(1)] by auto
  moreover have "(10::int) ^ length a \<le> 10 ^ 9"
    using a(3) by (intro power_increasing) auto
  ultimately have va: "0 \<le> digits_value a" "digits_value a < 10 ^ 9"
    by linarith+
  have li: "leadingInt ?s = Some (digits_value a, CHR ''.'' # f @ ''ms'')"
    using va unfolding s by (simp add: leadingInt_def takeWhile_digits [OF a(1) not_digit(1)])
  have "fraction_digits 0 0 False f = (digits_value f, length f)"
    using fraction_digits_short [OF f(1), of 0 0] f(2) by (simp add: digits_value_def)
  then have df: "duration_fraction (CHR ''.'' # f @ ''ms'') = (digits_value f, length f, f \<noteq> [], ''ms'')"
    using takeWhile_digits [OF f(1) not_digit(2), of "''s''"] by simp
  have vf: "0 \<le> digits_value f" "digits_value f < 10 ^ length f"
    using digits_value_bounds [OF f(1)] by auto
  note sf = scaled_fraction_exact [OF vf f(2)]
  have "digits_value f * 10 ^ (6 - length f) < 10 ^ length f * 10 ^ (6 - length f)"
    using vf(2) by (intro mult_strict_right_mono) simp_all
  also have "\<dots> = (10::int) ^ 6"
    using f(2) by (simp flip: power_add)
  finally have "digits_value a * 1000000 + digits_value f * 10 ^ (6 - length f) \<le> max_int64"
    using va by simp
  moreover have "(if 0 < digits_value f then scaled_fraction (digits_value f) (length f) 1000000 else 0) =
      digits_value f * 10 ^ (6 - length f)"
    using sf vf(1) by simp
  ultimately show ?thesis
    using li df va a(2) takeWhile_digits(1) [OF a(1) not_digit(1), of "f @ ''ms''"]
    by (simp add: duration_term_def s [symmetric] unit_of_def not_digit)
qed

lemma ParseDuration_decimal:
  assumes a: "list_all is_digit a" "a \<noteq> []" "length a \<le> 9" and f: "list_all is_digit f" "length f \<le> 6"
  shows "ParseDuration (decimal a f @ ''ms'') = Some (digits_value a * 1000000 + digits_value f * 10 ^ (6 - length f))"
proof -
  let ?s = "decimal a f @ ''ms''"
  obtain c cs where c: "?s = c # cs" "is_digit c" "cs \<noteq> []"
    using a(1,2) by (cases a) (auto simp: decimal_def)
  have "digits_value a * 1000000 + digits_value f * 10 ^ (6 - length f) \<le> max_int64"
    using duration_term_decimal [OF assms] by (auto simp: duration_term_def Let_def split: option.splits prod.splits if_splits)
  then have "duration_sum 0 ?s = Some (digits_value a * 1000000 + digits_value f * 10 ^ (6 - length f))"
    using duration_term_decimal [OF assms] c(1)
    by (subst duration_sum.simps) (simp add: duration_sum.simps [of _ "[]"])
  then show ?thesis
    using c is_digit_no_sign [OF c(2)] by (simp add: ParseDuration_def)
qed

lemma ParseDuration_whole:
  assumes a: "list_all is_digit a" "a \<noteq> []" "length a \<le> 9"
  shows "ParseDuration (a @ ''ms'') = Some (digits_value a * 1000000)"
proof -
  let ?s = "a @ ''ms''"
  obtain c cs where c: "?s = c # cs" "is_digit c" "cs \<noteq> []"
    using a(1,2) by (cases a) auto
  have "digits_value a < 10 ^ length a" "0 \<le> digits_value a"
    using digits_value_bounds [OF a(1)] by auto
  moreover have "(10::int) ^ length a \<le> 10 ^ 9"
    using a(3) by (intro power_increasing) auto
  ultimately have va: "0 \<le> digits_value a" "digits_value a < 10 ^ 9"
    by linarith+
  have tw: "takeWhile is_digit ?s = a" "dropWhile is_digit ?s = ''ms''"
    using takeWhile_digits [OF a(1) not_digit(2), of "''s''"] by simp_all
  have "duration_term ?s = Some (digits_value a * 1000000, [])"
    using va a(2) by (simp add: duration_term_def leadingInt_def tw Let_def unit_of_def not_digit)
  then have "duration_sum 0 ?s = Some (digits_value a * 1000000)"
    using c(1) va by (subst duration_sum.simps) (simp add: duration_sum.simps [of _ "[]"])
  then show ?thesis
    using c is_digit_no_sign [OF c(2)] by (simp add: ParseDuration_def)
qed

lemma Find_parses:
  assumes "sources l from = Some i" "sources l to = Some j" "PingData l i = Some row" "row j = Some pd" "pd \<noteq> []"
    and "ParseDuration (pd @ ''ms'') = Some d"
  shows "latency_Find from to l = Inr d"
  using assms by (simp add: latency_Find_def map_get_def)

lemma Find_decimal:
  assumes "sources l from = Some i" "sources l to = Some j" "PingData l i = Some row" "row j = Some (decimal a f)"
    and "list_all is_digit a" "a \<noteq> []" "length a \<le> 9" "list_all is_digit f" "length f \<le> 6"
  shows "latency_Find from to l = Inr (digits_value a * 1000000 + digits_value f * 10 ^ (6 - length f))"
  using assms(1-4) ParseDuration_decimal [OF assms(5-9)] by (intro Find_parses [of l "from" i "to" j row "decimal a f"]) (simp_all add: decimal_def)

lemma Find_missing:
  assumes "case PingData l (map_get (sources l) from) of None \<Rightarrow> True | Some row \<Rightarrow> map_get row (map_get (sources l) to) = []"
  shows "latency_Find from to l = Inr 580000"
proof -
  have "ParseDuration (decimal ''0'' ''58'' @ ''ms'') = Some 580000"
    using ParseDuration_decimal [of "''0''" "''58''"] by (simp add: is_digit_def digits_value_def)
  then show ?thesis
    using assms by (auto simp: latency_Find_def map_get_def defaultAvgLatency_def decimal_def split: option.splits)
qed

section \<open>Properties\<close>

definition ex_latencies :: LatencyData where
  "ex_latencies = fill_sources \<lparr>PingData = [''7'' \<mapsto> [''18'' \<mapsto> ''91.395'']], SourcesList = [(''7'', ''Amsterdam''), (''18'', ''Atlanta'')],
     sources = Map.empty\<rparr>"

subsection \<open>The file\<close>

text \<open>
  The syntax tree of a file of the form of \<open>latencies.json\<close>. Every entry of \<open>pingData\<close> has its own further members before and after
  its average latency, which is a string or null; so has every entry of \<open>sourcesList\<close>, around its id and name; and the
  whole file has further members after the two that the program reads. A tree says nothing of the layout of the text.
\<close>

definition skipped :: "string list \<Rightarrow> (string \<times> json) list \<Rightarrow> bool" where
  "skipped names fs \<longleftrightarrow> (\<forall>f \<in> set fs. match_field names (unquote (fst f)) = None)"

record ping_entry =
  pe_to :: string
  pe_before :: "(string \<times> json) list"
  pe_avg :: "string option"
  pe_after :: "(string \<times> json) list"

record source_entry =
  se_before :: "(string \<times> json) list"
  se_id :: string
  se_name :: string
  se_after :: "(string \<times> json) list"

definition ping_json :: "ping_entry \<Rightarrow> string \<times> json" where
  "ping_json e = (quote (pe_to e), JObj (pe_before e @
     (''avg'', case pe_avg e of None \<Rightarrow> JNull | Some a \<Rightarrow> JStr (quote a)) # pe_after e))"

definition row_json :: "string \<times> ping_entry list \<Rightarrow> string \<times> json" where
  "row_json r = (quote (fst r), JObj (map ping_json (snd r)))"

definition source_json :: "source_entry \<Rightarrow> json" where
  "source_json e = JObj (se_before e @ (''id'', JStr (quote (se_id e))) # (''name'', JStr (quote (se_name e))) # se_after e)"

definition latency_json :: "(string \<times> ping_entry list) list \<Rightarrow> source_entry list \<Rightarrow> (string \<times> json) list \<Rightarrow> json" where
  "latency_json rows srcs rest = JObj ((''pingData'', JObj (map row_json rows)) # (''sourcesList'', JArr (map source_json srcs)) # rest)"

text \<open>The further members have other names than the fields of the program's structs, and the names and numbers are ASCII.\<close>

definition ping_ok :: "ping_entry \<Rightarrow> bool" where
  "ping_ok e \<longleftrightarrow> ascii (pe_to e) \<and> skipped [''Avg''] (pe_before e) \<and> skipped [''Avg''] (pe_after e) \<and>
     (case pe_avg e of None \<Rightarrow> True | Some a \<Rightarrow> ascii a)"

definition source_ok :: "source_entry \<Rightarrow> bool" where
  "source_ok e \<longleftrightarrow> ascii (se_id e) \<and> ascii (se_name e) \<and> skipped [''Id'', ''Name''] (se_before e) \<and> skipped [''Id'', ''Name''] (se_after e)"

definition latency_file_ok :: "(string \<times> ping_entry list) list \<Rightarrow> source_entry list \<Rightarrow> (string \<times> json) list \<Rightarrow> bool" where
  "latency_file_ok rows srcs rest \<longleftrightarrow> list_all (\<lambda>r. ascii (fst r) \<and> list_all ping_ok (snd r)) rows \<and> list_all source_ok srcs \<and>
     skipped [''PingData'', ''SourcesList''] rest"

text \<open>The table that the program reads from it.\<close>

definition ping_avg :: "ping_entry \<Rightarrow> string" where
  "ping_avg e = (case pe_avg e of None \<Rightarrow> [] | Some a \<Rightarrow> a)"

definition ping_row :: "ping_entry list \<Rightarrow> (string \<rightharpoonup> string)" where
  "ping_row row = map_of (rev (map (\<lambda>e. (pe_to e, ping_avg e)) row))"

definition file_table :: "(string \<times> ping_entry list) list \<Rightarrow> source_entry list \<Rightarrow> LatencyData" where
  "file_table rows srcs = \<lparr>PingData = map_of (rev (map (\<lambda>r. (fst r, ping_row (snd r))) rows)),
     SourcesList = map (\<lambda>e. (se_id e, se_name e)) srcs, sources = map_of (rev (map (\<lambda>e. (se_name e, se_id e)) srcs))\<rparr>"

lemma decode_fields_skipped:
  "skipped names fs \<Longrightarrow> decode_fields names store fs old = Inr old"
  "skipped names fs \<Longrightarrow> decode_fields names store (fs @ gs) old = decode_fields names store gs old"
  by (induction fs) (auto simp: skipped_def)

lemma plain_keys:
  "unquote ''avg'' = ''avg''" "unquote ''id'' = ''id''" "unquote ''name'' = ''name''" "unquote ''pingData'' = ''pingData''"
  "unquote ''sourcesList'' = ''sourcesList''"
  by (simp_all add: unquote_plain)

lemma field_keys:
  "match_field [''Avg''] ''avg'' = Some ''Avg''" "match_field [''Id'', ''Name''] ''id'' = Some ''Id''"
  "match_field [''Id'', ''Name''] ''name'' = Some ''Name''"
  "match_field [''PingData'', ''SourcesList''] ''pingData'' = Some ''PingData''"
  "match_field [''PingData'', ''SourcesList''] ''sourcesList'' = Some ''SourcesList''"
  by code_simp+

lemma decode_entries_map_of:
  assumes "\<And>x. x \<in> set xs \<Longrightarrow> unquote (fst (enc x)) = key x \<and> dec (snd (enc x)) zero = Inr (val x)"
  shows "decode_entries dec zero (map enc xs) m = Inr (m ++ map_of (rev (map (\<lambda>x. (key x, val x)) xs)))"
  using assms
proof (induction xs arbitrary: m)
  case (Cons x xs)
  then show ?case
    by (cases "enc x") (fastforce simp: map_add_assoc)
qed simp

lemma decode_ping:
  assumes "ping_ok e"
  shows "unquote (fst (ping_json e)) = pe_to e \<and> decode_Avg (snd (ping_json e)) [] = Inr (ping_avg e)"
  using assms by (auto simp: ping_ok_def ping_json_def ping_avg_def decode_Avg_def plain_keys field_keys unquote_quote
      decode_fields_skipped split: option.splits)

lemma decode_rows:
  assumes "list_all (\<lambda>r. ascii (fst r) \<and> list_all ping_ok (snd r)) rows"
  shows "decode_entries (decode_map decode_Avg []) Map.empty (map row_json rows) m =
    Inr (m ++ map_of (rev (map (\<lambda>r. (fst r, ping_row (snd r))) rows)))"
proof (rule decode_entries_map_of)
  fix r assume "r \<in> set rows"
  then have r: "ascii (fst r)" "\<And>e. e \<in> set (snd r) \<Longrightarrow> ping_ok e"
    using assms by (auto simp: list_all_iff)
  then show "unquote (fst (row_json r)) = fst r \<and> decode_map decode_Avg [] (snd (row_json r)) Map.empty = Inr (ping_row (snd r))"
    using decode_entries_map_of [of "snd r" ping_json pe_to decode_Avg "[]" ping_avg Map.empty, OF decode_ping]
    by (simp add: row_json_def unquote_quote ping_row_def)
qed

lemma decode_sources:
  "list_all source_ok srcs \<Longrightarrow>
   decode_elements decode_source ([], []) (map source_json srcs) [] = Inr (map (\<lambda>e. (se_id e, se_name e)) srcs)"
  by (induction srcs)
    (simp_all add: source_ok_def source_json_def decode_source_def source_store_def plain_keys field_keys unquote_quote decode_fields_skipped)

lemma foldl_sources: "foldl (\<lambda>m i. m(snd i \<mapsto> fst i)) m srcs = m ++ map_of (rev (map (\<lambda>x. (snd x, fst x)) srcs))"
  by (induction srcs arbitrary: m) (simp_all add: map_add_assoc)

lemma ReadLatencyDataFromJson_file:
  assumes "latency_file_ok rows srcs rest" "json_parse raw = Some (latency_json rows srcs rest)"
  shows "ReadLatencyDataFromJson raw = Inr (file_table rows srcs)"
proof -
  have ok: "list_all (\<lambda>r. ascii (fst r) \<and> list_all ping_ok (snd r)) rows" "list_all source_ok srcs"
    "skipped [''PingData'', ''SourcesList''] rest"
    using assms(1) by (simp_all add: latency_file_ok_def)
  show ?thesis
    using assms(2) decode_rows [OF ok(1), of Map.empty] decode_sources [OF ok(2)]
    by (simp add: ReadLatencyDataFromJson_def Unmarshal_def latency_json_def decode_LatencyData_def LatencyData_store_def plain_keys field_keys
        decode_fields_skipped(1) [OF ok(3)] fill_sources_def foldl_sources file_table_def comp_def)
qed

lemma map_of_rev_distinct: "distinct (map fst xs) \<Longrightarrow> (k, v) \<in> set xs \<Longrightarrow> map_of (rev xs) k = Some v"
  using map_of_is_SomeI [of "rev xs" k v] by (simp flip: rev_map)

text \<open>
  C24. From the file to the latency. Let the text, in whatever layout, parse to a tree of the form of \<open>latencies.json\<close>, with different
  source ids in \<open>pingData\<close> and different city names, and let \<open>e\<close> be the entry from the city \<open>from\<close> to the city \<open>to\<close>. Then
  \<open>ReadLatencyDataFromJson\<close> returns a table in which \<open>Find\<close> gives: when the average of \<open>e\<close> is a decimal number of
  milliseconds with up to nine digits before the point and up to six after it, exactly that number in nanoseconds, in spite of the
  \<open>float64\<close> arithmetic of \<open>ParseDuration\<close>; when it is a whole number, that number; when it is null, the default of 0.58 ms.
\<close>

theorem file_latency_exact:
  assumes "json_parse raw = Some (latency_json rows srcs rest)" "latency_file_ok rows srcs rest"
    and "distinct (map fst rows)" "(i, row) \<in> set rows" "distinct (map pe_to row)" "e \<in> set row" "pe_to e = j"
    and "distinct (map se_name srcs)" "s \<in> set srcs" "se_id s = i" "d \<in> set srcs" "se_id d = j"
  shows "\<exists>l. ReadLatencyDataFromJson raw = Inr l \<and>
    (\<forall>a f. pe_avg e = Some (decimal a f) \<and> list_all is_digit a \<and> a \<noteq> [] \<and> length a \<le> 9 \<and> list_all is_digit f \<and> length f \<le> 6 \<longrightarrow>
       latency_Find (se_name s) (se_name d) l = Inr (digits_value a * 1000000 + digits_value f * 10 ^ (6 - length f))) \<and>
    (\<forall>a. pe_avg e = Some a \<and> list_all is_digit a \<and> a \<noteq> [] \<and> length a \<le> 9 \<longrightarrow>
       latency_Find (se_name s) (se_name d) l = Inr (digits_value a * 1000000)) \<and>
    (pe_avg e = None \<longrightarrow> latency_Find (se_name s) (se_name d) l = Inr 580000)"
proof -
  let ?l = "file_table rows srcs"
  have names: "distinct (map fst (map (\<lambda>e. (se_name e, se_id e)) srcs))" "distinct (map fst (map (\<lambda>r. (fst r, ping_row (snd r))) rows))"
    "distinct (map fst (map (\<lambda>e. (pe_to e, ping_avg e)) row))"
    using assms(3,5,8) by (simp_all add: comp_def)
  have "sources ?l (se_name s) = Some i" "sources ?l (se_name d) = Some j"
    using map_of_rev_distinct [OF names(1)] assms(9-12) by (force simp: file_table_def)+
  moreover have row: "PingData ?l i = Some (ping_row row)"
    using map_of_rev_distinct [OF names(2)] assms(4) by (force simp: file_table_def)
  moreover have to: "ping_row row j = Some (ping_avg e)"
    using map_of_rev_distinct [OF names(3)] assms(6,7) by (force simp: ping_row_def)
  ultimately have find: "latency_Find (se_name s) (se_name d) ?l = Inr t" if "ping_avg e \<noteq> []" "ParseDuration (ping_avg e @ ''ms'') = Some t" for t
    using Find_parses [of ?l _ i _ j] that by blast
  have "latency_Find (se_name s) (se_name d) ?l = Inr 580000" if "pe_avg e = None"
    using that row to \<open>sources ?l (se_name s) = Some i\<close> \<open>sources ?l (se_name d) = Some j\<close>
    by (intro Find_missing) (simp add: map_get_def ping_avg_def)
  then show ?thesis
    using ReadLatencyDataFromJson_file [OF assms(2,1)] find ParseDuration_decimal ParseDuration_whole
    by (intro exI [of _ ?l]) (auto simp: ping_avg_def decimal_def)
qed

text \<open>An excerpt of the file, with its layout.\<close>

definition nl :: string where
  "nl = [CHR 0x0A]"

definition dq :: "string \<Rightarrow> string" where
  "dq s = CHR 0x22 # s @ [CHR 0x22]"

definition ex_member :: "string \<Rightarrow> string \<Rightarrow> string" where
  "ex_member k v = ''                '' @ dq k @ '': '' @ v"

definition ex_latency_file :: string where
  "ex_latency_file = ''{'' @ nl @ ''    '' @ dq ''pingData'' @ '': {'' @ nl @ ''        '' @ dq ''7'' @ '': {'' @ nl @
     ''            '' @ dq ''7'' @ '': {'' @ nl @ ex_member ''avg'' ''null'' @ '','' @ nl @ ex_member ''max'' (dq ''0.073'') @ '','' @ nl @
       ex_member ''id'' (dq ''7'') @ nl @ ''            },'' @ nl @
     ''            '' @ dq ''18'' @ '': {'' @ nl @ ex_member ''avg'' (dq ''91.395'') @ '','' @ nl @ ex_member ''id'' (dq ''7'') @ '','' @ nl @
       ex_member ''country'' (dq ''Netherlands'') @ '','' @ nl @ ex_member ''destination_id'' (dq ''18'') @ nl @ ''            }'' @ nl @
     ''        }'' @ nl @ ''    },'' @ nl @
     ''    '' @ dq ''sourcesList'' @ '': ['' @ nl @ ''        {'' @ nl @ ex_member ''id'' (dq ''7'') @ '','' @ nl @ ex_member ''name'' (dq ''Amsterdam'') @ nl @
     ''        },'' @ nl @ ''        {'' @ nl @ ex_member ''id'' (dq ''18'') @ '','' @ nl @ ex_member ''name'' (dq ''Atlanta'') @ nl @
     ''        }'' @ nl @ ''    ],'' @ nl @ ''    '' @ dq ''destinationsList'' @ '': []'' @ nl @ ''}''"

definition ex_row :: "ping_entry list" where
  "ex_row =
     [\<lparr>pe_to = ''7'', pe_before = [], pe_avg = None, pe_after = [(''max'', JStr ''0.073''), (''id'', JStr ''7'')]\<rparr>,
      \<lparr>pe_to = ''18'', pe_before = [], pe_avg = Some ''91.395'',
       pe_after = [(''id'', JStr ''7''), (''country'', JStr ''Netherlands''), (''destination_id'', JStr ''18'')]\<rparr>]"

definition ex_source_list :: "source_entry list" where
  "ex_source_list = [\<lparr>se_before = [], se_id = ''7'', se_name = ''Amsterdam'', se_after = []\<rparr>,
     \<lparr>se_before = [], se_id = ''18'', se_name = ''Atlanta'', se_after = []\<rparr>]"

lemma ex_latency_file_tree:
  "json_parse ex_latency_file = Some (latency_json [(''7'', ex_row)] ex_source_list [(''destinationsList'', JArr [])])"
  "latency_file_ok [(''7'', ex_row)] ex_source_list [(''destinationsList'', JArr [])]"
  by code_simp+

theorem file_latency_exact_witness:
  "\<exists>l. ReadLatencyDataFromJson ex_latency_file = Inr l \<and> latency_Find ''Amsterdam'' ''Atlanta'' l = Inr 91395000"
proof -
  obtain l where l: "ReadLatencyDataFromJson ex_latency_file = Inr l"
    "\<forall>a f. Some ''91.395'' = Some (decimal a f) \<and> list_all is_digit a \<and> a \<noteq> [] \<and> length a \<le> 9 \<and> list_all is_digit f \<and> length f \<le> 6 \<longrightarrow>
       latency_Find ''Amsterdam'' ''Atlanta'' l = Inr (digits_value a * 1000000 + digits_value f * 10 ^ (6 - length f))"
    using file_latency_exact [OF ex_latency_file_tree, of "''7''" ex_row "ex_row ! 1" "''18''" "ex_source_list ! 0" "ex_source_list ! 1"]
    by (auto simp: ex_row_def ex_source_list_def)
  have "latency_Find ''Amsterdam'' ''Atlanta'' l = Inr 91395000"
    using l(2) [rule_format, of "''91''" "''395''"] by (simp add: decimal_def is_digit_def digits_value_def)
  then show ?thesis
    using l(1) by blast
qed

end
