(* ===== verification/Rfc3339.thy ===== *)
theory Rfc3339
  imports NetLatency Strconv "HOL-Library.Monad_Syntax"
begin

text \<open>
  What the program uses of \<open>time.Time\<close> as text (as of Go 1.17): \<open>Format(time.RFC3339)\<close>, by which the benchmark's
  encoder writes the time of a log entry, and \<open>Parse\<close> with the same layout, by which the statistics read it.

  A time is the number of nanoseconds since 1970 (theory \<open>NetLatency\<close>). Formatting depends on the offset of the
  local time zone at that time, in seconds, an argument here.
\<close>

section \<open>The calendar\<close>

definition isLeap :: "int \<Rightarrow> bool" where
  "isLeap year \<longleftrightarrow> year mod 4 = 0 \<and> (year mod 100 \<noteq> 0 \<or> year mod 400 = 0)"

definition daysBefore :: "int list" where
  "daysBefore = [0, 31, 59, 90, 120, 151, 181, 212, 243, 273, 304, 334, 365]"

definition daysIn :: "int \<Rightarrow> int \<Rightarrow> int" where
  "daysIn month year = (if month = 2 \<and> isLeap year then 29 else daysBefore ! nat month - daysBefore ! nat (month - 1))"

text \<open>Days from 1 January of the year 1 to the start of a year.\<close>

definition days_to_year :: "int \<Rightarrow> int" where
  "days_to_year year =
     (let y = year - 1; n400 = y div 400; y = y - 400 * n400; n100 = y div 100; y = y - 100 * n100; n4 = y div 4; y = y - 4 * n4
      in 146097 * n400 + 36524 * n100 + 1461 * n4 + 365 * y)"

definition yday_of :: "int \<Rightarrow> int \<Rightarrow> int \<Rightarrow> int" where
  "yday_of year month day = daysBefore ! nat (month - 1) + (if isLeap year \<and> month \<ge> 3 then 1 else 0) + day - 1"

definition days_of_date :: "int \<Rightarrow> int \<Rightarrow> int \<Rightarrow> int" where
  "days_of_date year month day = days_to_year year + yday_of year month day"

text \<open>\<open>absDate\<close>: the year and the day in it.\<close>

definition year_of_days :: "int \<Rightarrow> int \<times> int" where
  "year_of_days d =
     (let n400 = d div 146097; d = d - 146097 * n400;
          n100 = d div 36524; n100 = n100 - n100 div 4; d = d - 36524 * n100;
          n4 = d div 1461; d = d - 1461 * n4;
          n1 = d div 365; n1 = n1 - n1 div 4; d = d - 365 * n1
      in (400 * n400 + 100 * n100 + 4 * n4 + n1 + 1, d))"

definition month_of_yday :: "int \<Rightarrow> int \<Rightarrow> int \<times> int" where
  "month_of_yday year yday =
     (if isLeap year \<and> yday = 59 then (2, 29)
      else let day = (if isLeap year \<and> yday > 59 then yday - 1 else yday);
               month = day div 31; last = daysBefore ! nat (month + 1)
           in if day \<ge> last then (month + 2, day - last + 1) else (month + 1, day - daysBefore ! nat month + 1))"

definition date_of_days :: "int \<Rightarrow> int \<times> int \<times> int" where
  "date_of_days d = (case year_of_days d of (year, yday) \<Rightarrow> (year, month_of_yday year yday))"

text \<open>The digits of a day number in the cycles of 400, 100, 4 years and 1 year.\<close>

definition cycle_digits :: "int \<Rightarrow> int \<Rightarrow> int \<Rightarrow> int \<Rightarrow> int \<Rightarrow> bool" where
  "cycle_digits n400 n100 n4 n1 yday \<longleftrightarrow> 0 \<le> n100 \<and> n100 \<le> 3 \<and> 0 \<le> n4 \<and> n4 \<le> 24 \<and> 0 \<le> n1 \<and> n1 \<le> 3 \<and> 0 \<le> yday \<and> yday \<le> 365 \<and>
     (yday = 365 \<longrightarrow> n1 = 3 \<and> (n4 = 24 \<longrightarrow> n100 = 3))"

lemma capped_digit:
  fixes d a :: int
  assumes "0 \<le> d" "d \<le> 4 * a" "0 < a"
  shows "0 \<le> d div a - d div a div 4 \<and> d div a - d div a div 4 \<le> 3 \<and> 0 \<le> d - a * (d div a - d div a div 4) \<and>
    d - a * (d div a - d div a div 4) \<le> a \<and> (d - a * (d div a - d div a div 4) = a \<longrightarrow> d = 4 * a)"
proof (cases "d = 4 * a")
  case True
  then show ?thesis
    using assms(3) by simp
next
  case False
  then have "a * (d div a) < a * 4"
    using assms mult_div_mod_eq [of a d] pos_mod_sign [of a d] by linarith
  then have "d div a < 4"
    using assms(3) by simp
  moreover have "0 \<le> d div a"
    using assms by (simp add: pos_imp_zdiv_nonneg_iff)
  moreover have "d - a * (d div a) = d mod a"
    by (simp add: minus_mult_div_eq_mod)
  moreover have "d mod a \<le> a" "d mod a \<noteq> a" "0 \<le> d mod a"
    using pos_mod_bound [OF assms(3), of d] pos_mod_sign [OF assms(3), of d] by linarith+
  ultimately show ?thesis
    by simp
qed

lemma year_of_days_digits:
  "\<exists>n400 n100 n4 n1 yday. cycle_digits n400 n100 n4 n1 yday \<and> d = 146097 * n400 + 36524 * n100 + 1461 * n4 + 365 * n1 + yday \<and>
     year_of_days d = (400 * n400 + 100 * n100 + 4 * n4 + n1 + 1, yday)"
proof -
  define n400 where "n400 = d div 146097"
  define d400 where "d400 = d - 146097 * n400"
  define n100 where "n100 = d400 div 36524 - d400 div 36524 div 4"
  define d100 where "d100 = d400 - 36524 * n100"
  define n4 where "n4 = d100 div 1461"
  define d4 where "d4 = d100 - 1461 * n4"
  define n1 where "n1 = d4 div 365 - d4 div 365 div 4"
  define d1 where "d1 = d4 - 365 * n1"
  have "d400 = d mod 146097"
    by (simp add: d400_def n400_def minus_mult_div_eq_mod)
  then have d400: "0 \<le> d400" "d400 \<le> 4 * 36524"
    using pos_mod_bound [of 146097 d] by simp_all
  then have n100: "0 \<le> n100" "n100 \<le> 3" "0 \<le> d100" "d100 \<le> 36524" "d100 = 36524 \<longrightarrow> n100 = 3"
    using capped_digit [of d400 36524] unfolding d100_def n100_def by auto
  have "d4 = d100 mod 1461"
    by (simp add: d4_def n4_def minus_mult_div_eq_mod)
  then have d4: "0 \<le> d4" "d4 \<le> 4 * 365"
    using pos_mod_bound [of 1461 d100] by simp_all
  have "n4 < 25" "0 \<le> n4"
    using n100 by (simp_all add: n4_def div_less_iff_less_mult pos_imp_zdiv_nonneg_iff)
  moreover have "0 \<le> n1" "n1 \<le> 3" "0 \<le> d1" "d1 \<le> 365" "d1 = 365 \<longrightarrow> d4 = 4 * 365"
    using capped_digit [of d4 365] d4 unfolding d1_def n1_def by auto
  moreover from this have "n1 = 3" "n4 = 24 \<longrightarrow> d100 = 36524" if "d1 = 365"
    using that n100(4) by (simp_all add: n1_def d4_def)
  ultimately have "cycle_digits n400 n100 n4 n1 d1"
    using n100 by (auto simp: cycle_digits_def)
  moreover have "d = 146097 * n400 + 36524 * n100 + 1461 * n4 + 365 * n1 + d1"
    unfolding d1_def d4_def d100_def d400_def by simp
  moreover have "year_of_days d = (400 * n400 + 100 * n100 + 4 * n4 + n1 + 1, d1)"
    by (simp only: year_of_days_def Let_def d1_def d4_def d100_def d400_def n1_def n4_def n100_def n400_def)
  ultimately show ?thesis
    by blast
qed

lemma days_to_year_digits:
  assumes "cycle_digits n400 n100 n4 n1 yday"
  shows "days_to_year (400 * n400 + 100 * n100 + 4 * n4 + n1 + 1) = 146097 * n400 + 36524 * n100 + 1461 * n4 + 365 * n1"
proof -
  let ?y = "400 * n400 + 100 * n100 + 4 * n4 + n1"
  have "?y div 400 = n400"
    using assms by (intro int_div_pos_eq [of _ _ _ "100 * n100 + 4 * n4 + n1"]) (auto simp: cycle_digits_def)
  moreover have "(100 * n100 + 4 * n4 + n1) div 100 = n100"
    using assms by (intro int_div_pos_eq [of _ _ _ "4 * n4 + n1"]) (auto simp: cycle_digits_def)
  moreover have "(4 * n4 + n1) div 4 = n4"
    using assms by (intro int_div_pos_eq [of _ _ _ n1]) (auto simp: cycle_digits_def)
  ultimately show ?thesis
    by (simp add: days_to_year_def Let_def)
qed

lemma leap_digits:
  assumes "cycle_digits n400 n100 n4 n1 yday" "yday = 365"
  shows "isLeap (400 * n400 + 100 * n100 + 4 * n4 + n1 + 1)"
proof -
  have n1: "n1 = 3" and n: "0 \<le> n4" "n4 \<le> 24" "n4 = 24 \<longrightarrow> n100 = 3"
    using assms by (auto simp: cycle_digits_def)
  have "400 * n400 + 100 * n100 + 4 * n4 + n1 + 1 = 4 * (100 * n400 + 25 * n100 + n4 + 1)"
    using n1 by simp
  then have "(400 * n400 + 100 * n100 + 4 * n4 + n1 + 1) mod 4 = 0"
    by (simp only: mod_mult_self1_is_0)
  moreover have "(400 * n400 + 100 * n100 + 4 * n4 + n1 + 1) mod 400 = 0" if "n4 = 24"
  proof -
    have "400 * n400 + 100 * n100 + 4 * n4 + n1 + 1 = 400 * (n400 + 1)"
      using n1 n that by simp
    then show ?thesis
      by (simp only: mod_mult_self1_is_0)
  qed
  moreover have "(400 * n400 + 100 * n100 + 4 * n4 + n1 + 1) mod 100 = 4 * n4 + 4" if "n4 \<noteq> 24"
    using n n1 that by (intro int_mod_pos_eq [of _ _ "4 * n400 + n100"]) auto
  ultimately show ?thesis
    using n by (cases "n4 = 24") (auto simp: isLeap_def)
qed

lemma year_of_days_correct:
  assumes "year_of_days d = (year, yday)"
  shows "days_to_year year + yday = d" "0 \<le> yday" "yday < (if isLeap year then 366 else 365)"
proof -
  obtain n400 n100 n4 n1 where c: "cycle_digits n400 n100 n4 n1 yday" "d = 146097 * n400 + 36524 * n100 + 1461 * n4 + 365 * n1 + yday"
    "year = 400 * n400 + 100 * n100 + 4 * n4 + n1 + 1"
    using year_of_days_digits [of d] assms by auto
  then show "days_to_year year + yday = d"
    using days_to_year_digits [OF c(1)] by simp
  have "yday = 365 \<longrightarrow> isLeap year" "0 \<le> yday" "yday \<le> 365"
    using c(1) leap_digits [OF c(1)] c(3) by (auto simp: cycle_digits_def)
  then show "0 \<le> yday" "yday < (if isLeap year then 366 else 365)"
    by auto
qed

text \<open>The months of a year, checked day by day.\<close>

definition month_ok :: "int \<Rightarrow> int \<Rightarrow> bool" where
  "month_ok year yday \<longleftrightarrow> (case month_of_yday year yday of (month, day) \<Rightarrow>
     1 \<le> month \<and> month \<le> 12 \<and> 1 \<le> day \<and> day \<le> daysIn month year \<and> yday_of year month day = yday)"

lemma month_ok_leap: "list_all (month_ok 4) [0..365]" and month_ok_common: "list_all (month_ok 1) [0..364]"
  by code_simp+

lemma month_ok_cong: "isLeap y \<longleftrightarrow> isLeap z \<Longrightarrow> month_ok y = month_ok z"
  by (auto simp: month_ok_def month_of_yday_def yday_of_def daysIn_def fun_eq_iff)

lemma month_of_yday_correct:
  assumes "0 \<le> yday" "yday < (if isLeap year then 366 else 365)"
  shows "month_ok year yday"
proof (cases "isLeap year")
  case True
  then have "month_ok year = month_ok 4"
    by (intro month_ok_cong) (simp add: isLeap_def)
  then show ?thesis
    using month_ok_leap assms True by (simp add: list_all_iff)
next
  case False
  then have "month_ok year = month_ok 1"
    by (intro month_ok_cong) (simp add: isLeap_def)
  then show ?thesis
    using month_ok_common assms False by (simp add: list_all_iff)
qed

lemma date_of_days_correct:
  assumes "date_of_days d = (year, month, day)"
  shows "days_of_date year month day = d" "1 \<le> month" "month \<le> 12" "1 \<le> day" "day \<le> daysIn month year"
proof -
  obtain yday where y: "year_of_days d = (year, yday)" "month_of_yday year yday = (month, day)"
    using assms by (auto simp: date_of_days_def split: prod.splits)
  note c = year_of_days_correct [OF y(1)]
  show "days_of_date year month day = d" "1 \<le> month" "month \<le> 12" "1 \<le> day" "day \<le> daysIn month year"
    using month_of_yday_correct [OF c(2,3)] c(1) y(2) by (auto simp: month_ok_def days_of_date_def)
qed

section \<open>Format\<close>

text \<open>\<open>appendInt\<close>: the digits, padded with zeros to the width.\<close>

definition append_int :: "nat \<Rightarrow> int \<Rightarrow> string" where
  "append_int w x =
     (let ds = digits_of (nat \<bar>x\<bar>)
      in (if x < 0 then ''-'' else []) @ replicate (w - length ds) (CHR ''0'') @ ds)"

lemma append_int_code [code]:
  "append_int w x = (let ds = int_digits \<bar>x\<bar> in (if x < 0 then ''-'' else []) @ replicate (w - length ds) (CHR ''0'') @ ds)"
  using int_digits_of [of "nat \<bar>x\<bar>"] by (simp add: append_int_def)

definition zone_text :: "int \<Rightarrow> string" where
  "zone_text offset =
     (if offset = 0 then ''Z''
      else let zone = offset sdiv 60
           in (if zone < 0 then CHR ''-'' else CHR ''+'') # append_int 2 (\<bar>zone\<bar> div 60) @ '':'' @ append_int 2 (\<bar>zone\<bar> mod 60))"

definition format_RFC3339 :: "int \<Rightarrow> int \<Rightarrow> string" where
  "format_RFC3339 offset t =
     (let sec = t div second + offset; clock = sec mod 86400
      in case date_of_days (sec div 86400 + 719162) of (year, month, day) \<Rightarrow>
           append_int 4 year @ ''-'' @ append_int 2 month @ ''-'' @ append_int 2 day @ ''T'' @
           append_int 2 (clock div 3600) @ '':'' @ append_int 2 (clock mod 3600 div 60) @ '':'' @ append_int 2 (clock mod 60) @ zone_text offset)"

section \<open>Parse\<close>

definition digit :: "char \<Rightarrow> int" where
  "digit c = of_char c - 48"

text \<open>One or two digits; exactly two when \<open>fixed\<close>.\<close>

fun getnum :: "bool \<Rightarrow> string \<Rightarrow> (int \<times> string) option" where
  "getnum fixed [] = None"
| "getnum fixed (c # cs) =
     (if \<not> is_digit c then None
      else case cs of d # rest \<Rightarrow> if is_digit d then Some (digit c * 10 + digit d, rest) else if fixed then None else Some (digit c, cs)
           | [] \<Rightarrow> if fixed then None else Some (digit c, []))"

text \<open>\<open>atoi\<close> of the package \<open>time\<close>, which also reads a sign.\<close>

definition time_atoi :: "string \<Rightarrow> int option" where
  "time_atoi s =
     (let (neg, rest) = (case s of c # cs \<Rightarrow> if c = CHR ''-'' \<or> c = CHR ''+'' then (c = CHR ''-'', cs) else (False, s) | [] \<Rightarrow> (False, s))
      in if list_all is_digit rest \<and> digits_value rest < 2 ^ 63 then Some (if neg then - digits_value rest else digits_value rest) else None)"

definition skip_char :: "char \<Rightarrow> string \<Rightarrow> string option" where
  "skip_char c s = (case s of d # rest \<Rightarrow> if d = c then Some rest else None | [] \<Rightarrow> None)"

definition in_range :: "int \<Rightarrow> int \<Rightarrow> int \<Rightarrow> unit option" where
  "in_range lo hi x = (if lo \<le> x \<and> x \<le> hi then Some () else None)"

definition parse_date :: "string \<Rightarrow> ((int \<times> int \<times> int) \<times> string) option" where
  "parse_date s =
     (if length s < 4 \<or> \<not> is_digit (s ! 0) then None
      else do {
        year \<leftarrow> time_atoi (take 4 s);
        s \<leftarrow> skip_char (CHR ''-'') (drop 4 s);
        (month, s) \<leftarrow> getnum True s;
        in_range 1 12 month;
        s \<leftarrow> skip_char (CHR ''-'') s;
        (day, s) \<leftarrow> getnum True s;
        Some ((year, month, day), s)
      })"

text \<open>Seconds may have a fraction, after a period or a comma, although the layout has none.\<close>

definition parse_fraction :: "string \<Rightarrow> (int \<times> string) option" where
  "parse_fraction s =
     (case s of p # d # rest \<Rightarrow>
        if (p = CHR ''.'' \<or> p = CHR '','') \<and> is_digit d
        then let ds = takeWhile is_digit (d # rest)
             in if digits_value ds \<ge> 10 ^ 9 then None else Some (digits_value ds * 10 ^ (9 - length ds), dropWhile is_digit (d # rest))
        else Some (0, s)
      | _ \<Rightarrow> Some (0, s))"

definition parse_clock :: "string \<Rightarrow> ((int \<times> int) \<times> string) option" where
  "parse_clock s =
     do {
       (hour, s) \<leftarrow> getnum False s;
       in_range 0 23 hour;
       s \<leftarrow> skip_char (CHR '':'') s;
       (mn, s) \<leftarrow> getnum True s;
       in_range 0 59 mn;
       s \<leftarrow> skip_char (CHR '':'') s;
       (sec, s) \<leftarrow> getnum True s;
       in_range 0 59 sec;
       (nsec, s) \<leftarrow> parse_fraction s;
       Some ((hour * 3600 + mn * 60 + sec, nsec), s)
     }"

definition parse_zone :: "string \<Rightarrow> (int \<times> string) option" where
  "parse_zone s =
     (case s of [] \<Rightarrow> None
      | c # rest \<Rightarrow>
          if c = CHR ''Z'' then Some (0, rest)
          else if length s < 6 \<or> s ! 3 \<noteq> CHR '':'' then None
          else do {
            hr \<leftarrow> time_atoi (take 2 (drop 1 s));
            mm \<leftarrow> time_atoi (take 2 (drop 4 s));
            if c = CHR ''+'' then Some ((hr * 60 + mm) * 60, drop 6 s)
            else if c = CHR ''-'' then Some (- ((hr * 60 + mm) * 60), drop 6 s)
            else None
          })"

definition parse_RFC3339 :: "string \<Rightarrow> int option" where
  "parse_RFC3339 s =
     do {
       ((year, month, day), s) \<leftarrow> parse_date s;
       s \<leftarrow> skip_char (CHR ''T'') s;
       ((clock, nsec), s) \<leftarrow> parse_clock s;
       (offset, s) \<leftarrow> parse_zone s;
       (if s \<noteq> [] then None else Some ());
       in_range 1 (daysIn month year) day;
       Some (((days_of_date year month day - 719162) * 86400 + clock - offset) * second + nsec)
     }"

section \<open>Round trip\<close>

lemma length_digits_of: "0 < w \<Longrightarrow> n < 10 ^ w \<Longrightarrow> length (digits_of n) \<le> w"
proof (induction n arbitrary: w rule: digits_of.induct)
  case (1 n)
  show ?case
  proof (cases "n < 10")
    case True
    then show ?thesis
      using 1 by (simp add: digits_of.simps [of n])
  next
    case False
    then have "1 < w"
      using "1.prems" by (cases "w = 1") auto
    then obtain v where v: "w = Suc v" "0 < v"
      by (cases w) auto
    then have "n div 10 < 10 ^ v"
      using "1.prems" by (simp add: less_mult_imp_div_less mult.commute)
    then show ?thesis
      using "1.IH" [OF False v(2)] False v by (simp add: digits_of.simps [of n])
  qed
qed

lemma digits_value_zeros: "digits_value (replicate k (CHR ''0'') @ ds) = digits_value ds"
  by (induction k) (simp_all add: digits_value_def)

lemma append_int_digits:
  assumes "0 < w" "0 \<le> x" "x < 10 ^ w"
  shows "length (append_int w x) = w" "list_all is_digit (append_int w x)" "digits_value (append_int w x) = x"
proof -
  have "nat x < nat (10 ^ w)"
    using assms by (simp only: nat_less_eq_zless)
  then have "nat x < 10 ^ w"
    by (simp add: nat_power_eq)
  then have "length (digits_of (nat x)) \<le> w"
    by (rule length_digits_of [OF assms(1)])
  then show "length (append_int w x) = w"
    using assms(2) by (simp add: append_int_def Let_def)
  show "list_all is_digit (append_int w x)"
    using assms(2) digits_of_digits [of "nat x"] by (auto simp: append_int_def Let_def list_all_iff is_digit_def)
  show "digits_value (append_int w x) = x"
    using assms(2) by (simp add: append_int_def Let_def digits_value_zeros digits_value_of)
qed

lemma append_int_2:
  assumes "0 \<le> x" "x < 100"
  obtains c d where "append_int 2 x = [c, d]" "is_digit c" "is_digit d" "digit c * 10 + digit d = x"
proof -
  note a = append_int_digits [of 2 x]
  obtain c d where "append_int 2 x = [c, d]"
    using a(1) assms by (auto simp: length_Suc_conv numeral_2_eq_2)
  then show thesis
    using that [of c d] a assms by (simp add: digits_value_def digit_def)
qed

lemma getnum_append_int: "0 \<le> x \<Longrightarrow> x < 100 \<Longrightarrow> getnum fixed (append_int 2 x @ rest) = Some (x, rest)"
  by (rule append_int_2 [of x]) auto

lemma time_atoi_digits:
  assumes "list_all is_digit s" "s \<noteq> []" "digits_value s < 2 ^ 63"
  shows "time_atoi s = Some (digits_value s)"
proof -
  obtain c cs where "s = c # cs" "is_digit c"
    using assms by (cases s) auto
  then show ?thesis
    using assms is_digit_no_sign [of c] by (auto simp: time_atoi_def Let_def)
qed

lemma time_atoi_append_int:
  assumes "0 < w" "w \<le> 4" "0 \<le> x" "x < 10 ^ w"
  shows "time_atoi (append_int w x) = Some x"
proof -
  note a = append_int_digits [OF assms(1,3,4)]
  have "(10::int) ^ w \<le> 10 ^ 4"
    using assms(2) by (intro power_increasing) auto
  then have "x < 10 ^ 4"
    using assms(4) by linarith
  then have "x < 2 ^ 63"
    by simp
  then show ?thesis
    using time_atoi_digits [of "append_int w x"] a assms(1) by (metis length_greater_0_conv)
qed

lemma skip_char_Cons [simp]: "skip_char c (c # s) = Some s"
  by (simp add: skip_char_def)

lemma parse_date_format:
  assumes "0 \<le> year" "year < 10000" "1 \<le> month" "month \<le> 12" "1 \<le> day" "day \<le> 31"
  shows "parse_date (append_int 4 year @ CHR ''-'' # append_int 2 month @ CHR ''-'' # append_int 2 day @ s) = Some ((year, month, day), s)"
proof -
  note y = append_int_digits [of 4 year]
  have "is_digit (append_int 4 year ! 0)"
    using y assms by (simp add: list_all_length)
  then show ?thesis
    using y assms getnum_append_int [of _ True] time_atoi_append_int [of 4 year]
    by (simp add: parse_date_def nth_append in_range_def)
qed

lemma parse_clock_format:
  assumes "0 \<le> h" "h < 24" "0 \<le> m" "m < 60" "0 \<le> sec" "sec < 60" "s \<noteq> [] \<Longrightarrow> hd s \<notin> {CHR ''.'', CHR '',''}"
  shows "parse_clock (append_int 2 h @ CHR '':'' # append_int 2 m @ CHR '':'' # append_int 2 sec @ s) = Some ((h * 3600 + m * 60 + sec, 0), s)"
proof -
  have "parse_fraction s = Some (0, s)"
    using assms(7) by (auto simp: parse_fraction_def split: list.splits)
  then show ?thesis
    using assms getnum_append_int by (simp add: parse_clock_def in_range_def)
qed

lemma parse_zone_text:
  assumes "length a = 2" "length b = 2" "time_atoi a = Some hr" "time_atoi b = Some mm"
  shows "parse_zone (CHR ''+'' # a @ CHR '':'' # b) = Some ((hr * 60 + mm) * 60, [])"
    "parse_zone (CHR ''-'' # a @ CHR '':'' # b) = Some (- ((hr * 60 + mm) * 60), [])"
proof -
  obtain a1 a2 b1 b2 where "a = [a1, a2]" "b = [b1, b2]"
    using assms(1,2) by (auto simp: length_Suc_conv numeral_2_eq_2)
  then show "parse_zone (CHR ''+'' # a @ CHR '':'' # b) = Some ((hr * 60 + mm) * 60, [])"
    "parse_zone (CHR ''-'' # a @ CHR '':'' # b) = Some (- ((hr * 60 + mm) * 60), [])"
    using assms(3,4) by (simp_all add: parse_zone_def)
qed

lemma parse_zone_format:
  assumes "offset mod 60 = 0" "\<bar>offset\<bar> < 360000"
  shows "parse_zone (zone_text offset) = Some (offset, [])" "zone_text offset \<noteq> [] \<and> hd (zone_text offset) \<notin> {CHR ''.'', CHR '',''}"
proof -
  obtain z where z: "offset = 60 * z"
    using assms(1) by auto
  then have s: "offset sdiv 60 = z"
    by (simp add: signed_divide_int_def sgn_if abs_mult)
  have b: "0 \<le> \<bar>z\<bar> div 60" "\<bar>z\<bar> div 60 < 100" "0 \<le> \<bar>z\<bar> mod 60" "\<bar>z\<bar> mod 60 < 100"
    using assms(2) z by (simp_all add: pos_imp_zdiv_nonneg_iff div_less_iff_less_mult)
  note h = append_int_digits [of 2 "\<bar>z\<bar> div 60"] append_int_digits [of 2 "\<bar>z\<bar> mod 60"]
  have "time_atoi (append_int 2 (\<bar>z\<bar> div 60)) = Some (\<bar>z\<bar> div 60)" "time_atoi (append_int 2 (\<bar>z\<bar> mod 60)) = Some (\<bar>z\<bar> mod 60)"
    using b by (simp_all add: time_atoi_append_int)
  note p = parse_zone_text [OF _ _ this]
  have "(\<bar>z\<bar> div 60 * 60 + \<bar>z\<bar> mod 60) * 60 = \<bar>offset\<bar>"
    using z by (simp add: abs_mult)
  moreover have "zone_text offset =
      (if offset = 0 then ''Z'' else (if z < 0 then CHR ''-'' else CHR ''+'') # append_int 2 (\<bar>z\<bar> div 60) @ CHR '':'' # append_int 2 (\<bar>z\<bar> mod 60))"
    unfolding zone_text_def s by (simp add: Let_def)
  moreover have "length (append_int 2 (\<bar>z\<bar> div 60)) = 2" "length (append_int 2 (\<bar>z\<bar> mod 60)) = 2"
    using h(1,4) b by simp_all
  moreover have "z < 0 \<longleftrightarrow> offset < 0"
    using z by simp
  ultimately show "parse_zone (zone_text offset) = Some (offset, [])"
    using p by (cases "offset = 0") (simp add: parse_zone_def, cases "offset < 0", simp_all)
  show "zone_text offset \<noteq> [] \<and> hd (zone_text offset) \<notin> {CHR ''.'', CHR '',''}"
    by (auto simp: zone_text_def Let_def)
qed

lemma daysIn_31: "1 \<le> month \<Longrightarrow> month \<le> 12 \<Longrightarrow> daysIn month year \<le> 31"
proof -
  assume "1 \<le> month" "month \<le> 12"
  then have "month \<in> set [1..12]"
    by simp
  then show "daysIn month year \<le> 31"
    by (auto simp: upto_rec1 daysIn_def daysBefore_def)
qed

lemma clock_digits:
  fixes x :: int
  assumes "0 \<le> x" "x < 86400"
  shows "x div 3600 < 24" "0 \<le> x div 3600" "x mod 3600 div 60 < 60" "0 \<le> x mod 3600 div 60" "x mod 60 < 60" "0 \<le> x mod 60"
    "x div 3600 * 3600 + x mod 3600 div 60 * 60 + x mod 60 = x"
proof -
  show "x div 3600 < 24" "0 \<le> x div 3600" "x mod 60 < 60" "0 \<le> x mod 60"
    using assms by (simp_all add: div_less_iff_less_mult pos_imp_zdiv_nonneg_iff)
  show "x mod 3600 div 60 < 60" "0 \<le> x mod 3600 div 60"
    by (simp_all add: div_less_iff_less_mult pos_imp_zdiv_nonneg_iff)
  have "x mod 60 = x mod 3600 mod 60"
    by (simp add: mod_mod_cancel)
  then show "x div 3600 * 3600 + x mod 3600 div 60 * 60 + x mod 60 = x"
    by (metis add.assoc div_mult_mod_eq)
qed

text \<open>The year a time falls into, in a zone.\<close>

definition year_at :: "int \<Rightarrow> int \<Rightarrow> int" where
  "year_at offset t = fst (date_of_days ((t div second + offset) div 86400 + 719162))"

lemma parse_format_RFC3339:
  assumes "offset mod 60 = 0" "\<bar>offset\<bar> < 360000" "0 \<le> year_at offset t" "year_at offset t < 10000"
  shows "parse_RFC3339 (format_RFC3339 offset t) = Some (t div second * second)"
proof -
  define sec where "sec = t div second + offset"
  obtain year month day where d: "date_of_days (sec div 86400 + 719162) = (year, month, day)"
    by (cases "date_of_days (sec div 86400 + 719162)")
  note c = date_of_days_correct [OF d]
  have y: "0 \<le> year" "year < 10000"
    using assms(3,4) d by (simp_all add: year_at_def sec_def)
  have x: "0 \<le> sec mod 86400" "sec mod 86400 < 86400"
    by simp_all
  note k = clock_digits [OF x]
  note z = parse_zone_format [OF assms(1,2)]
  have day: "day \<le> 31"
    using c(5) daysIn_31 [OF c(2,3), of year] by simp
  have "(days_of_date year month day - 719162) * 86400 + sec mod 86400 - offset = t div second"
    using c(1) by (simp add: sec_def)
  moreover have "format_RFC3339 offset t = append_int 4 year @ CHR ''-'' # append_int 2 month @ CHR ''-'' # append_int 2 day @ CHR ''T'' #
      append_int 2 (sec mod 86400 div 3600) @ CHR '':'' # append_int 2 (sec mod 86400 mod 3600 div 60) @ CHR '':'' #
      append_int 2 (sec mod 86400 mod 60) @ zone_text offset"
    by (simp only: format_RFC3339_def sec_def [symmetric] Let_def d prod.case append_Cons append_Nil)
  moreover have "in_range 1 (daysIn month year) day = Some ()"
    using c(4,5) by (simp add: in_range_def)
  ultimately show ?thesis
    using parse_date_format [OF y c(2,3,4) day] parse_clock_format [OF k(2,1,4,3,6,5), of "zone_text offset"] z
    unfolding parse_RFC3339_def k(7) by (simp only: bind.bind_lunit prod.case skip_char_Cons) simp
qed

end
