(* ===== verification/Flags.thy ===== *)
theory Flags
  imports Strconv "HOL-Library.Sublist"
begin

text \<open>
  What the commands use of the package \<open>flag\<close>: a flag set with \<open>ContinueOnError\<close> whose flags are strings and integers.

  A flag set is a function from the name of a flag to its setter; the setter of an integer flag fails when
  \<open>strconv.ParseInt\<close> with base 0 does (\<open>parse_int0\<close>).
\<close>

section \<open>strconv.ParseInt with base 0\<close>

definition lower :: "char \<Rightarrow> nat" where
  "lower c = (if between 65 90 (of_char c) then of_char c + 32 else of_char c)"

definition digit_value :: "char \<Rightarrow> nat option" where
  "digit_value c = (if is_digit c then Some (of_char c - 48) else if between 97 122 (lower c) then Some (lower c - 87) else None)"

text \<open>The base and the rest of an unsigned literal.\<close>

fun int_prefix :: "string \<Rightarrow> nat \<times> string" where
  "int_prefix (z # s) =
     (if z \<noteq> CHR ''0'' then (10, z # s)
      else case s of
             b # d # rest \<Rightarrow>
               if lower b = 98 then (2, d # rest) else if lower b = 111 then (8, d # rest)
               else if lower b = 120 then (16, d # rest) else (8, s)
           | _ \<Rightarrow> (8, s))"
| "int_prefix [] = (10, [])"

text \<open>The digits, with the underscores left out.\<close>

fun digits_in_base :: "nat \<Rightarrow> int \<Rightarrow> string \<Rightarrow> int option" where
  "digits_in_base b n [] = Some n"
| "digits_in_base b n (c # cs) =
     (if c = CHR ''_'' then digits_in_base b n cs
      else case digit_value c of
             Some d \<Rightarrow> if d < b then digits_in_base b (n * int b + int d) cs else None
           | None \<Rightarrow> None)"

text \<open>\<open>underscoreOK\<close>: an underscore stands between two digits, or between the prefix and a digit.\<close>

datatype saw = SawStart | SawDigit | SawUnderscore | SawOther

fun underscores_from :: "bool \<Rightarrow> saw \<Rightarrow> string \<Rightarrow> bool" where
  "underscores_from hex saw [] \<longleftrightarrow> saw \<noteq> SawUnderscore"
| "underscores_from hex saw (c # cs) \<longleftrightarrow>
     (if is_digit c \<or> hex \<and> between 97 102 (lower c) then underscores_from hex SawDigit cs
      else if c = CHR ''_'' then saw = SawDigit \<and> underscores_from hex SawUnderscore cs
      else saw \<noteq> SawUnderscore \<and> underscores_from hex SawOther cs)"

definition underscoreOK :: "string \<Rightarrow> bool" where
  "underscoreOK s =
     (case s of z # b # rest \<Rightarrow>
        if z = CHR ''0'' \<and> lower b \<in> {98, 111, 120} then underscores_from (lower b = 120) SawDigit rest
        else underscores_from False SawStart s
      | _ \<Rightarrow> underscores_from False SawStart s)"

definition parse_uint0 :: "string \<Rightarrow> int option" where
  "parse_uint0 s =
     (if s = [] then None
      else case int_prefix s of (b, ds) \<Rightarrow>
        (case digits_in_base b 0 ds of None \<Rightarrow> None
         | Some n \<Rightarrow> if CHR ''_'' \<in> set ds \<and> \<not> underscoreOK s then None else Some n))"

definition parse_int0 :: "string \<Rightarrow> int option" where
  "parse_int0 s =
     (let (neg, rest) = (case s of c # cs \<Rightarrow> if c = CHR ''-'' \<or> c = CHR ''+'' then (c = CHR ''-'', cs) else (False, s) | [] \<Rightarrow> (False, s))
      in case parse_uint0 rest of None \<Rightarrow> None
         | Some n \<Rightarrow> let v = (if neg then - n else n) in if int64_range v then Some v else None)"

section \<open>FlagSet.Parse\<close>

datatype flag_error =
    ErrHelp
  | BadFlagSyntax string
  | FlagNotDefined string
  | FlagNeedsArgument string
  | InvalidFlagValue string string

type_synonym 'p flag_set = "string \<Rightarrow> (string \<Rightarrow> 'p \<Rightarrow> 'p option) option"

definition StringVar :: "(string \<Rightarrow> 'p \<Rightarrow> 'p) \<Rightarrow> string \<Rightarrow> 'p \<Rightarrow> 'p option" where
  "StringVar upd v p = Some (upd v p)"

definition IntVar :: "(int \<Rightarrow> 'p \<Rightarrow> 'p) \<Rightarrow> string \<Rightarrow> 'p \<Rightarrow> 'p option" where
  "IntVar upd v p = map_option (\<lambda>n. upd n p) (parse_int0 v)"

definition split_value :: "string \<Rightarrow> string \<times> string option" where
  "split_value name =
     (case dropWhile (\<lambda>c. c \<noteq> CHR ''='') name of [] \<Rightarrow> (name, None) | _ # v \<Rightarrow> (takeWhile (\<lambda>c. c \<noteq> CHR ''='') name, Some v))"

text \<open>The result is the parameters and the arguments that are left.\<close>

function flag_Parse :: "'p flag_set \<Rightarrow> string list \<Rightarrow> 'p \<Rightarrow> flag_error + ('p \<times> string list)" where
  "flag_Parse flags [] p = Inr (p, [])"
| "flag_Parse flags (s # args) p =
     (if length s < 2 \<or> s ! 0 \<noteq> CHR ''-'' then Inr (p, s # args)
      else if s = ''--'' then Inr (p, args)
      else let name = drop (if s ! 1 = CHR ''-'' then 2 else 1) s
           in if name = [] \<or> name ! 0 = CHR ''-'' \<or> name ! 0 = CHR ''='' then Inl (BadFlagSyntax s)
              else case split_value name of (n, v) \<Rightarrow>
                (case flags n of
                   None \<Rightarrow> Inl (if n = ''help'' \<or> n = ''h'' then ErrHelp else FlagNotDefined n)
                 | Some setter \<Rightarrow>
                     (case v of
                        Some val \<Rightarrow> (case setter val p of None \<Rightarrow> Inl (InvalidFlagValue val n) | Some p' \<Rightarrow> flag_Parse flags args p')
                      | None \<Rightarrow>
                          (case args of [] \<Rightarrow> Inl (FlagNeedsArgument n)
                           | val # rest \<Rightarrow> (case setter val p of None \<Rightarrow> Inl (InvalidFlagValue val n) | Some p' \<Rightarrow> flag_Parse flags rest p')))))"
  by pat_completeness auto
termination
  by (relation "measure (\<lambda>(flags, args, p). length args)") auto

declare flag_Parse.simps(2) [simp del]

section \<open>Round trip\<close>

lemma digits_of_0: "digits_of 0 = ''0''"
  by code_simp

lemma digits_of_head:
  assumes "0 < n"
  shows "\<exists>c cs. digits_of n = c # cs \<and> c \<noteq> CHR ''0''"
  using assms
proof (induction n rule: digits_of.induct)
  case (1 n)
  show ?case
  proof (cases "n < 10")
    case True
    have "char_of (48 + n) \<noteq> CHR ''0''"
    proof
      assume "char_of (48 + n) = CHR ''0''"
      then have "of_char (char_of (48 + n) :: char) = (48 :: nat)"
        by simp
      then show False
        using True "1.prems" by simp
    qed
    then show ?thesis
      using True by (simp add: digits_of.simps [of n])
  next
    case False
    then have "0 < n div 10"
      by (simp add: div_greater_zero_iff)
    then obtain c cs where "digits_of (n div 10) = c # cs" "c \<noteq> CHR ''0''"
      using "1.IH" [OF False] by blast
    then show ?thesis
      using False by (simp add: digits_of.simps [of n])
  qed
qed

lemma digits_in_base_10: "list_all is_digit s \<Longrightarrow> digits_in_base 10 n s = Some (foldl (\<lambda>a c. a * 10 + (of_char c - 48)) n s)"
proof (induction s arbitrary: n)
  case (Cons c s)
  have "(48::nat) \<le> of_char c" "of_char c \<le> (57::nat)"
    using Cons.prems by (simp_all add: is_digit_def)
  moreover from this have "int (of_char c - 48) = of_char c - 48"
    by (simp add: of_nat_diff of_nat_of_char)
  moreover have "c \<noteq> CHR ''_''"
    using Cons.prems by (auto simp: is_digit_def)
  ultimately show ?case
    using Cons by (simp add: digit_value_def)
qed simp

lemma parse_uint0_digits_of: "parse_uint0 (digits_of n) = Some (int n)"
proof (cases "n = 0")
  case True
  then show ?thesis
    by (simp add: parse_uint0_def digits_of_0)
next
  case False
  then obtain c cs where c: "digits_of n = c # cs" "c \<noteq> CHR ''0''"
    using digits_of_head by blast
  have d: "list_all is_digit (digits_of n)"
    using digits_of_digits by blast
  then have "digits_in_base 10 0 (digits_of n) = Some (int n)"
    using digits_in_base_10 digits_value_of [of n] by (simp add: digits_value_def)
  moreover have "CHR ''_'' \<notin> set (digits_of n)"
    using d by (auto simp: list_all_iff is_digit_def)
  ultimately show ?thesis
    using c by (simp add: parse_uint0_def)
qed

lemma parse_int0_show_int:
  assumes "int64_range i"
  shows "parse_int0 (show_int i) = Some i"
proof (cases "i < 0")
  case True
  then show ?thesis
    using assms by (simp add: parse_int0_def show_int_def parse_uint0_digits_of)
next
  case False
  obtain c cs where c: "digits_of (nat i) = c # cs" "is_digit c"
    using digits_of_digits [of "nat i"] by (cases "digits_of (nat i)") auto
  then show ?thesis
    using False assms is_digit_no_sign [OF c(2)] parse_uint0_digits_of [of "nat i"] by (simp add: parse_int0_def show_int_def)
qed

text \<open>A flag name, and a flag written with its value.\<close>

definition flag_name :: "string \<Rightarrow> bool" where
  "flag_name n \<longleftrightarrow> n \<noteq> [] \<and> n ! 0 \<noteq> CHR ''-'' \<and> CHR ''='' \<notin> set n"

definition with_value :: "string \<Rightarrow> string \<Rightarrow> string" where
  "with_value n v = CHR ''-'' # n @ CHR ''='' # v"

lemma split_value_with: "CHR ''='' \<notin> set n \<Longrightarrow> split_value (n @ CHR ''='' # v) = (n, Some v)"
proof -
  assume "CHR ''='' \<notin> set n"
  then have "takeWhile (\<lambda>c. c \<noteq> CHR ''='') (n @ CHR ''='' # v) = n" "dropWhile (\<lambda>c. c \<noteq> CHR ''='') (n @ CHR ''='' # v) = CHR ''='' # v"
    by (auto simp: takeWhile_append dropWhile_append)
  then show ?thesis
    by (simp add: split_value_def)
qed

lemma flag_Parse_value:
  assumes "flag_name n" "flags n = Some setter" "setter v p = Some p'"
  shows "flag_Parse flags (with_value n v # args) p = flag_Parse flags args p'"
proof -
  obtain c cs where n: "n = c # cs" "c \<noteq> CHR ''-''" "c \<noteq> CHR ''=''"
    using assms(1) by (cases n) (auto simp: flag_name_def)
  have "split_value (n @ CHR ''='' # v) = (n, Some v)"
    using assms(1) by (simp add: split_value_with flag_name_def)
  then show ?thesis
    using assms n by (subst flag_Parse.simps) (simp add: with_value_def)
qed

lemma flag_Parse_IntVar:
  assumes "flag_name n" "flags n = Some (IntVar upd)" "int64_range i"
  shows "flag_Parse flags (with_value n (show_int i) # args) p = flag_Parse flags args (upd i p)"
  by (rule flag_Parse_value [where flags = flags and setter = "IntVar upd", OF assms(1,2)]) (simp add: IntVar_def parse_int0_show_int [OF assms(3)])

lemma flag_Parse_StringVar:
  assumes "flag_name n" "flags n = Some (StringVar upd)"
  shows "flag_Parse flags (with_value n v # args) p = flag_Parse flags args (upd v p)"
  by (rule flag_Parse_value [where flags = flags and setter = "StringVar upd", OF assms]) (simp add: StringVar_def)

end
