(* ===== verification/Stats.thy ===== *)
theory Stats
  imports Json Rfc3339 Flags Float64
begin

text \<open>
  \<open>cmd/stats/commands/stats_cmd.go\<close>: the statistics over the log of a benchmark.

  The command reads its flags, splits the log file into lines (\<open>bufio.Scanner\<close>), decodes each line with
  \<open>json.Unmarshal\<close> into the variable \<open>logLine\<close>, which the loop reuses, and collects the statistics. Times are
  nanoseconds as in the theory \<open>NetLatency\<close>. The statistics are a map from message id to record; the
  inner map \<open>durationStatistics\<close> belongs to one message only, so that an update through any copy of the
  record is an update of the entry. What is printed is a list of \<open>out\<close> values, with the numbers that
  the code formats; a \<open>float64\<close> division by zero is \<open>None\<close>.
\<close>

section \<open>Data\<close>

record Header =
  AgentsCount :: int
  ValidatorsCount :: int
  Topology_name :: string
  PeeringDegree :: int
  NonValidatorDegree :: int
  ConnectionCount :: int
  BenchDuration :: int
  MsgRate :: int

record Log =
  MsgID :: string
  Log_IsValidator :: bool
  AggregateStats :: bool
  Direction :: string
  Msg :: string
  From :: string
  Peer :: string
  Log_Topic :: string
  Time :: int

definition zero_Log :: Log where
  "zero_Log = \<lparr>MsgID = [], Log_IsValidator = False, AggregateStats = False, Direction = [], Msg = [], From = [],
     Peer = [], Log_Topic = [], Time = zero_time\<rparr>"

definition zero_Header :: Header where
  "zero_Header = \<lparr>AgentsCount = 0, ValidatorsCount = 0, Topology_name = [], PeeringDegree = 0, NonValidatorDegree = 0, ConnectionCount = 0,
     BenchDuration = 0, MsgRate = 0\<rparr>"

subsection \<open>Decoding\<close>

text \<open>\<open>Time.UnmarshalJSON\<close> parses the literal as it is written, without resolving escapes.\<close>

fun decode_time :: "int decoder" where
  "decode_time JNull old = Inr old"
| "decode_time (JStr raw) old = (case parse_RFC3339 raw of None \<Rightarrow> Inl DecodeError | Some t \<Rightarrow> Inr t)"
| "decode_time j old = Inl DecodeError"

definition Header_fields :: "string list" where
  "Header_fields = [''agentsCount'', ''validatorsCount'', ''topology'', ''peeringDegree'', ''nonValidatorDegree'', ''connectionCount'',
     ''benchDuration'', ''msgRate'']"

definition Header_store :: "string \<Rightarrow> Header decoder" where
  "Header_store n j h =
     (if n = ''agentsCount'' then map_sum id (\<lambda>v. h\<lparr>AgentsCount := v\<rparr>) (decode_int j (AgentsCount h))
      else if n = ''validatorsCount'' then map_sum id (\<lambda>v. h\<lparr>ValidatorsCount := v\<rparr>) (decode_int j (ValidatorsCount h))
      else if n = ''topology'' then map_sum id (\<lambda>v. h\<lparr>Topology_name := v\<rparr>) (decode_string j (Topology_name h))
      else if n = ''peeringDegree'' then map_sum id (\<lambda>v. h\<lparr>PeeringDegree := v\<rparr>) (decode_int j (PeeringDegree h))
      else if n = ''nonValidatorDegree'' then map_sum id (\<lambda>v. h\<lparr>NonValidatorDegree := v\<rparr>) (decode_int j (NonValidatorDegree h))
      else if n = ''connectionCount'' then map_sum id (\<lambda>v. h\<lparr>ConnectionCount := v\<rparr>) (decode_int j (ConnectionCount h))
      else if n = ''benchDuration'' then map_sum id (\<lambda>v. h\<lparr>BenchDuration := v\<rparr>) (decode_int j (BenchDuration h))
      else map_sum id (\<lambda>v. h\<lparr>MsgRate := v\<rparr>) (decode_int j (MsgRate h)))"

definition decode_Header :: "Header decoder" where
  "decode_Header = decode_struct Header_fields Header_store"

definition Log_fields :: "string list" where
  "Log_fields = [''msgID'', ''isValidator'', ''aggregateStats'', ''direction'', ''msg'', ''from'', ''peer'', ''topic'', ''time'']"

definition Log_store :: "string \<Rightarrow> Log decoder" where
  "Log_store n j l =
     (if n = ''msgID'' then map_sum id (\<lambda>v. l\<lparr>MsgID := v\<rparr>) (decode_string j (MsgID l))
      else if n = ''isValidator'' then map_sum id (\<lambda>v. l\<lparr>Log_IsValidator := v\<rparr>) (decode_bool j (Log_IsValidator l))
      else if n = ''aggregateStats'' then map_sum id (\<lambda>v. l\<lparr>AggregateStats := v\<rparr>) (decode_bool j (AggregateStats l))
      else if n = ''direction'' then map_sum id (\<lambda>v. l\<lparr>Direction := v\<rparr>) (decode_string j (Direction l))
      else if n = ''msg'' then map_sum id (\<lambda>v. l\<lparr>Msg := v\<rparr>) (decode_string j (Msg l))
      else if n = ''from'' then map_sum id (\<lambda>v. l\<lparr>From := v\<rparr>) (decode_string j (From l))
      else if n = ''peer'' then map_sum id (\<lambda>v. l\<lparr>Peer := v\<rparr>) (decode_string j (Peer l))
      else if n = ''topic'' then map_sum id (\<lambda>v. l\<lparr>Log_Topic := v\<rparr>) (decode_string j (Log_Topic l))
      else map_sum id (\<lambda>v. l\<lparr>Time := v\<rparr>) (decode_time j (Time l)))"

definition decode_Log :: "Log decoder" where
  "decode_Log = decode_struct Log_fields Log_store"

subsection \<open>Lines\<close>

text \<open>\<open>bufio.Scanner\<close> with \<open>ScanLines\<close>: a line loses its newline and one carriage return before it. A line that does not
  fit into the buffer of 64 KiB ends the scan (the error is not looked at).\<close>

definition maxScanTokenSize :: nat where
  "maxScanTokenSize = 65536"

definition dropCR :: "string \<Rightarrow> string" where
  "dropCR line = (if line \<noteq> [] \<and> last line = CHR 0x0D then butlast line else line)"

function scan_tokens :: "string \<Rightarrow> string list" where
  "scan_tokens s =
     (if s = [] then []
      else let line = takeWhile (\<lambda>c. c \<noteq> CHR 0x0A) s
           in if length line \<ge> maxScanTokenSize then []
              else dropCR line # scan_tokens (drop (Suc (length line)) s))"
  by pat_completeness auto
termination
  by (relation "measure length") auto

declare scan_tokens.simps [simp del]

record stats =
  totalNodesReceivedMsg :: int
  totalValidatorNodesReceivedMsg :: int
  msgID :: string
  msgSentTime :: int
  lastMsgReceivedTime :: int
  lastValidatorReceivedMsg :: int
  durationStatistics :: "int \<rightharpoonup> int"
  sumDurations :: int
  sumValidatorsDurations :: int

section \<open>Collecting\<close>

definition incrementNodesCount :: "int \<Rightarrow> (int \<rightharpoonup> int) \<Rightarrow> (int \<rightharpoonup> int)" where
  "incrementNodesCount duration m = (case m duration of Some k \<Rightarrow> m(duration \<mapsto> k + 1) | None \<Rightarrow> m(duration \<mapsto> 1))"

text \<open>The loop over \<open>durations\<close> (lines 161 to 165).\<close>

primrec count_durations :: "int list \<Rightarrow> int \<Rightarrow> (int \<rightharpoonup> int) \<Rightarrow> (int \<rightharpoonup> int)" where
  "count_durations [] valDuration m = m"
| "count_durations (d # ds) valDuration m =
     count_durations ds valDuration (if valDuration \<le> d then incrementNodesCount d m else m)"

text \<open>A received message for a known id (lines 136 to 166).\<close>

definition receive_stats :: "int list \<Rightarrow> Log \<Rightarrow> stats \<Rightarrow> stats" where
  "receive_stats durations l r =
     (let receivedTime = Time l;
          r = r\<lparr>totalNodesReceivedMsg := totalNodesReceivedMsg r + 1\<rparr>;
          r = (if lastMsgReceivedTime r < receivedTime then r\<lparr>lastMsgReceivedTime := receivedTime\<rparr> else r);
          duration = time_Sub receivedTime (msgSentTime r);
          r = r\<lparr>sumDurations := wrap64 (sumDurations r + duration)\<rparr>
      in if Log_IsValidator l
         then let r = (if lastValidatorReceivedMsg r < receivedTime then r\<lparr>lastValidatorReceivedMsg := receivedTime\<rparr> else r);
                  valDuration = time_Sub receivedTime (msgSentTime r);
                  r = r\<lparr>sumValidatorsDurations := wrap64 (sumValidatorsDurations r + valDuration)\<rparr>;
                  r = r\<lparr>totalValidatorNodesReceivedMsg := totalValidatorNodesReceivedMsg r + 1\<rparr>
              in r\<lparr>durationStatistics := count_durations durations valDuration (durationStatistics r)\<rparr>
         else r)"

definition new_stats :: "Log \<Rightarrow> stats" where
  "new_stats l = \<lparr>totalNodesReceivedMsg = 0, totalValidatorNodesReceivedMsg = 0, msgID = MsgID l, msgSentTime = Time l,
     lastMsgReceivedTime = zero_time, lastValidatorReceivedMsg = zero_time, durationStatistics = Map.empty,
     sumDurations = 0, sumValidatorsDurations = 0\<rparr>"

definition addStatistics :: "int list \<Rightarrow> Log \<Rightarrow> int \<times> (string \<rightharpoonup> stats) \<Rightarrow> (int \<times> (string \<rightharpoonup> stats)) go" where
  "addStatistics durations l = (\<lambda>(msgNumber, result).
     if Direction l = ''sent''
     then (case result (MsgID l) of
             Some _ \<Rightarrow> Inl (Explicit ''Error, sent time already exists.'')
           | None \<Rightarrow> Inr (msgNumber + 1, result(MsgID l \<mapsto> new_stats l)))
     else if Direction l = ''received''
     then (case result (MsgID l) of
             Some r \<Rightarrow> Inr (msgNumber, result(MsgID l \<mapsto> receive_stats durations l r))
           | None \<Rightarrow> Inr (msgNumber, result))
     else Inr (msgNumber, result))"

text \<open>The scan loop (lines 103 to 114); \<open>Inl e\<close> inside is the early return on a line that does not decode.\<close>

fun scan_lines :: "int list \<Rightarrow> Log \<Rightarrow> int \<times> (string \<rightharpoonup> stats) \<Rightarrow> string list \<Rightarrow> (json_error + int \<times> (string \<rightharpoonup> stats)) go" where
  "scan_lines durations logLine acc [] = Inr (Inr acc)"
| "scan_lines durations logLine acc (line # rest) =
     (case Unmarshal decode_Log line logLine of
        Inl e \<Rightarrow> Inr (Inl e)
      | Inr logLine \<Rightarrow>
          if AggregateStats logLine
          then go_bind (addStatistics durations logLine acc) (\<lambda>acc'. scan_lines durations logLine acc' rest)
          else scan_lines durations logLine acc rest)"

section \<open>Printing\<close>

datatype out =
    OTopology string
  | OBenchDuration int
  | OMsgRate int
  | OPeeringDegree int
  | ONonValidatorDegree int
  | OConnectionsCount int
  | OTotals int int
  | OMessage string int "rat option" int "rat option" int int int int int
  | OThreshold int int int "rat option"
  | OAverageAll int int "rat option"
  | OAverageValidators int int "rat option"
  | OMaxMissing int
  | OMissing int "rat option" int
  | ODuration int int "rat option"
  | ONoValidator int "rat option"
  | OOpenError error
  | OHeaderError json_error
  | OLogError json_error

text \<open>\<open>float64(x) / float64(y)\<close>.\<close>

definition fdiv :: "int \<Rightarrow> int \<Rightarrow> rat option" where
  "fdiv x y = (if y = 0 then None else Some (f64 (f64 (of_int x) / f64 (of_int y))))"

definition print_header :: "Header \<Rightarrow> out list" where
  "print_header h =
     [OTopology (Topology_name h), OBenchDuration (wrap64 (BenchDuration h * second)), OMsgRate (MsgRate h),
      OPeeringDegree (PeeringDegree h)] @
     (if NonValidatorDegree h \<ge> 0 then [ONonValidatorDegree (NonValidatorDegree h)] else []) @
     (if ConnectionCount h \<ge> 0 then [OConnectionsCount (ConnectionCount h)] else []) @
     [OTotals (AgentsCount h) (ValidatorsCount h)]"

text \<open>The lines of one message (lines 247 to 286).\<close>

definition print_message :: "int list \<Rightarrow> Header \<Rightarrow> stats \<Rightarrow> out list" where
  "print_message durations h s =
     (let maxDuration = time_Sub (lastValidatorReceivedMsg s) (msgSentTime s);
          percentageReceived = fdiv (wrap64 (totalNodesReceivedMsg s * 100)) (AgentsCount h)
      in [OMessage (msgID s) (totalNodesReceivedMsg s) percentageReceived (wrap64 (AgentsCount h - totalNodesReceivedMsg s))
            (map_option (\<lambda>p. f64 (100 - p)) percentageReceived) (msgSentTime s) (lastMsgReceivedTime s)
            (time_Sub (lastMsgReceivedTime s) (msgSentTime s)) (lastValidatorReceivedMsg s)
            (time_Sub (lastValidatorReceivedMsg s) (msgSentTime s))] @
         map (\<lambda>d. let n = (case durationStatistics s d of None \<Rightarrow> 0 | Some n \<Rightarrow> n)
              in OThreshold d n (ValidatorsCount h) (map_option (\<lambda>q. f64 (q * 100)) (fdiv n (ValidatorsCount h))))
           (filter (\<lambda>d. d \<le> maxDuration) durations) @
         [OAverageAll (totalNodesReceivedMsg s) (AgentsCount h)
            (if totalNodesReceivedMsg s = 0 then None else Some (f64 (Seconds (sumDurations s) / f64 (of_int (totalNodesReceivedMsg s))))),
          OAverageValidators (totalValidatorNodesReceivedMsg s) (ValidatorsCount h)
            (if totalValidatorNodesReceivedMsg s = 0 then None
             else Some (f64 (Seconds (sumValidatorsDurations s) / f64 (of_int (totalValidatorNodesReceivedMsg s)))))])"

text \<open>The three accumulators of the loop over the messages (lines 254 to 264).\<close>

record totals =
  validatorDurationMessages :: "(int \<times> int) list"
  totalValidatorsNotReceivedAllMsg :: int
  maxValidatorsNotReceivedMessage :: int

fun increment_al :: "int \<Rightarrow> (int \<times> int) list \<Rightarrow> (int \<times> int) list" where
  "increment_al k [] = [(k, 1)]"
| "increment_al k ((d, n) # al) = (if d = k then (d, n + 1) # al else (d, n) # increment_al k al)"

definition count_message :: "Header \<Rightarrow> totals \<Rightarrow> stats \<Rightarrow> totals" where
  "count_message h t s =
     (let t = (if totalValidatorNodesReceivedMsg s = ValidatorsCount h
               then t\<lparr>validatorDurationMessages := increment_al (time_Sub (lastValidatorReceivedMsg s) (msgSentTime s)) (validatorDurationMessages t)\<rparr>
               else t)
      in if totalValidatorNodesReceivedMsg s < ValidatorsCount h
         then let notReceived = ValidatorsCount h - totalValidatorNodesReceivedMsg s
              in t\<lparr>totalValidatorsNotReceivedAllMsg := totalValidatorsNotReceivedAllMsg t + 1,
                   maxValidatorsNotReceivedMessage := (if maxValidatorsNotReceivedMessage t < notReceived then notReceived else maxValidatorsNotReceivedMessage t)\<rparr>
         else t)"

definition print_totals :: "int \<Rightarrow> totals \<Rightarrow> out list" where
  "print_totals msgNumber t =
     [OMaxMissing (maxValidatorsNotReceivedMessage t),
      OMissing (totalValidatorsNotReceivedAllMsg t) (fdiv (100 * totalValidatorsNotReceivedAllMsg t) msgNumber) msgNumber] @
     map (\<lambda>(d, n). if d \<ge> 0 then ODuration (go_trunc (Seconds d)) n (fdiv (100 * n) msgNumber) else ONoValidator n (fdiv (100 * n) msgNumber))
       (sort_key fst (validatorDurationMessages t))"

text \<open>\<open>order\<close> lists the statistics in the order of the \<open>range\<close> over the map. \<open>sort.Slice\<close> may leave equal sent
  times in any order: as \<open>order\<close> is arbitrary, a stable sort of it covers every outcome.\<close>

definition printStats :: "int list \<Rightarrow> int \<Rightarrow> stats list \<Rightarrow> Header \<Rightarrow> out list" where
  "printStats durations msgNumber order h =
     (let sortedStats = sort_key msgSentTime order
      in print_header h @ concat (map (print_message durations h) sortedStats) @
         print_totals msgNumber (foldl (count_message h)
           \<lparr>validatorDurationMessages = [], totalValidatorsNotReceivedAllMsg = 0, maxValidatorsNotReceivedMessage = 0\<rparr> sortedStats))"

section \<open>The command\<close>

text \<open>The package variable \<open>durations\<close> is extended by every call.\<close>

definition extend_durations :: "int \<Rightarrow> int list \<Rightarrow> int list" where
  "extend_durations maxDurationInSeconds durations = durations @ map (\<lambda>i. wrap64 (i * second)) [1..maxDurationInSeconds]"

text \<open>\<open>file\<close> is the outcome of \<open>os.Open\<close> and of reading: the contents. \<open>order_of\<close> is the iteration order
  of the final map. Without a first line the header is decoded from no bytes.\<close>

definition RunStats :: "((string \<rightharpoonup> stats) \<Rightarrow> stats list) \<Rightarrow> error + string \<Rightarrow> int \<Rightarrow> int list \<Rightarrow> (out list \<times> int list) go" where
  "RunStats order_of file maxDurationInSeconds durations =
     (case file of Inl e \<Rightarrow> Inr ([OOpenError e], durations)
      | Inr contents \<Rightarrow>
          let durations = extend_durations maxDurationInSeconds durations; tokens = scan_tokens contents
          in (case Unmarshal decode_Header (case tokens of [] \<Rightarrow> [] | first # _ \<Rightarrow> first) zero_Header of
                Inl e \<Rightarrow> Inr ([OHeaderError e], durations)
              | Inr header \<Rightarrow>
                  go_bind (scan_lines durations zero_Log (0, Map.empty) (drop 1 tokens)) (\<lambda>r.
                    case r of Inl e \<Rightarrow> Inr ([OLogError e], durations)
                    | Inr (msgNumber, result) \<Rightarrow> Inr (printStats durations msgNumber (order_of result) header, durations))))"

record StatsCommand =
  filePath :: string
  maxDuration :: int

definition StatsCommand_NewFlagSet :: "StatsCommand flag_set" where
  "StatsCommand_NewFlagSet = map_of
     [(''path'', StringVar (\<lambda>v p. p\<lparr>filePath := v\<rparr>)), (''duration'', IntVar (\<lambda>v p. p\<lparr>maxDuration := v\<rparr>))]"

definition StatsCommand_defaults :: StatsCommand where
  "StatsCommand_defaults = \<lparr>filePath = [], maxDuration = 25\<rparr>"

text \<open>\<open>StatsCommand.Run\<close>: the exit code and the output of the statistics.\<close>

definition is_space :: "char \<Rightarrow> bool" where
  "is_space c \<longleftrightarrow> c \<in> set [CHR '' '', CHR 0x09, CHR 0x0A, CHR 0x0B, CHR 0x0C, CHR 0x0D]"

text \<open>The encodings of the white space beyond ASCII, for \<open>strings.TrimSpace(s) == ""\<close>.\<close>

definition wide_spaces :: "string list" where
  "wide_spaces = [[CHR 0xC2, CHR 0x85], [CHR 0xC2, CHR 0xA0], [CHR 0xE1, CHR 0x9A, CHR 0x80]] @
     map (\<lambda>b. [CHR 0xE2, CHR 0x80, char_of b]) ([0x80..<0x8B] @ [0xA8, 0xA9, 0xAF :: nat]) @
     [[CHR 0xE2, CHR 0x81, CHR 0x9F], [CHR 0xE3, CHR 0x80, CHR 0x80]]"

fun trims_to_empty :: "string \<Rightarrow> bool" where
  "trims_to_empty [] \<longleftrightarrow> True"
| "trims_to_empty (c # cs) \<longleftrightarrow>
     (if is_space c then trims_to_empty cs
      else if take 2 (c # cs) \<in> set wide_spaces then trims_to_empty (drop 1 cs)
      else take 3 (c # cs) \<in> set wide_spaces \<and> trims_to_empty (drop 2 cs))"

definition StatsCommand_Run :: "((string \<rightharpoonup> stats) \<Rightarrow> stats list) \<Rightarrow> (string \<Rightarrow> error + string) \<Rightarrow>
    string list \<Rightarrow> int list \<Rightarrow> (int \<times> out list \<times> int list) go" where
  "StatsCommand_Run order_of open_file args durations =
     (case flag_Parse StatsCommand_NewFlagSet args StatsCommand_defaults of
        Inl e \<Rightarrow> Inr (1, [], durations)
      | Inr (fc, rest) \<Rightarrow>
          if trims_to_empty (filePath fc) then Inr (1, [], durations)
          else go_bind (RunStats order_of (open_file (filePath fc)) (maxDuration fc) durations) (\<lambda>(o1, ds). Inr (0, o1, ds)))"

section \<open>The reference statistics\<close>

text \<open>
  What the statistics of a message should be, read off the list of aggregated entries: the first entry
  that sends the id gives the sent time, and the entries after it that receive the id are counted.
\<close>

definition is_sent :: "string \<Rightarrow> Log \<Rightarrow> bool" where
  "is_sent i l \<longleftrightarrow> Direction l = ''sent'' \<and> MsgID l = i"

definition is_received :: "string \<Rightarrow> Log \<Rightarrow> bool" where
  "is_received i l \<longleftrightarrow> Direction l = ''received'' \<and> MsgID l = i"

definition sent_ids :: "Log list \<Rightarrow> string list" where
  "sent_ids ls = map MsgID (filter (\<lambda>l. Direction l = ''sent'') ls)"

definition receipts :: "string \<Rightarrow> Log list \<Rightarrow> Log list" where
  "receipts i ls = filter (is_received i) (dropWhile (\<lambda>l. \<not> is_sent i l) ls)"

definition latest :: "int list \<Rightarrow> int" where
  "latest ts = foldl max zero_time ts"

definition in_time :: "int list \<Rightarrow> int \<Rightarrow> Log list \<Rightarrow> (int \<rightharpoonup> int)" where
  "in_time durations sent vs = (\<lambda>d.
     let n = count_list durations d * length (filter (\<lambda>l. time_Sub (Time l) sent \<le> d) vs)
     in if n = 0 then None else Some (int n))"

definition stats_ref :: "int list \<Rightarrow> string \<Rightarrow> int \<Rightarrow> Log list \<Rightarrow> stats" where
  "stats_ref durations i sent rs =
     (let vs = filter Log_IsValidator rs
      in \<lparr>totalNodesReceivedMsg = int (length rs), totalValidatorNodesReceivedMsg = int (length vs), msgID = i,
          msgSentTime = sent, lastMsgReceivedTime = latest (map Time rs), lastValidatorReceivedMsg = latest (map Time vs),
          durationStatistics = in_time durations sent vs,
          sumDurations = wrap64 (\<Sum>l\<leftarrow>rs. time_Sub (Time l) sent),
          sumValidatorsDurations = wrap64 (\<Sum>l\<leftarrow>vs. time_Sub (Time l) sent)\<rparr>)"

definition result_ref :: "int list \<Rightarrow> Log list \<Rightarrow> string \<rightharpoonup> stats" where
  "result_ref durations ls i =
     (case find (is_sent i) ls of None \<Rightarrow> None | Some l \<Rightarrow> Some (stats_ref durations i (Time l) (receipts i ls)))"

subsection \<open>One entry\<close>

lemma count_durations_apply:
  "count_durations ds v m d =
     (let n = (if v \<le> d then count_list ds d else 0)
      in if n = 0 then m d else Some ((case m d of None \<Rightarrow> 0 | Some k \<Rightarrow> k) + int n))"
  by (induction ds arbitrary: m) (auto simp: incrementNodesCount_def Let_def split: option.splits)

lemma in_time_snoc:
  "count_durations ds (time_Sub (Time l) t) (in_time ds t vs) = in_time ds t (vs @ [l])"
  by (rule ext) (auto simp: count_durations_apply in_time_def Let_def algebra_simps)

lemma latest_snoc: "latest (ts @ [t]) = (if latest ts < t then t else latest ts)"
  by (simp add: latest_def)

lemma stats_ref_snoc: "stats_ref ds i t (rs @ [l]) = receive_stats ds l (stats_ref ds i t rs)"
  by (cases "Log_IsValidator l")
    (simp_all add: stats_ref_def receive_stats_def Let_def in_time_snoc latest_snoc add.commute)

lemma stats_ref_Nil: "stats_ref ds (MsgID l) (Time l) [] = new_stats l"
  by (simp add: stats_ref_def new_stats_def in_time_def latest_def wrap64_def)

lemma find_append: "find P (xs @ ys) = (case find P xs of None \<Rightarrow> find P ys | Some x \<Rightarrow> Some x)"
  by (induction xs) auto

lemma sent_ids_iff: "i \<in> set (sent_ids ls) \<longleftrightarrow> find (is_sent i) ls \<noteq> None"
  by (auto simp: sent_ids_def find_None_iff is_sent_def)

lemma not_sent_and_received: "is_received i l \<Longrightarrow> \<not> is_sent j l"
  by (simp add: is_sent_def is_received_def)

lemma receipts_unsent: "find (is_sent i) ls = None \<Longrightarrow> receipts i ls = []"
proof -
  assume "find (is_sent i) ls = None"
  then have "dropWhile (\<lambda>l. \<not> is_sent i l) ls = []"
    by (simp add: dropWhile_eq_Nil_conv find_None_iff)
  then show ?thesis
    by (simp only: receipts_def filter.simps)
qed

lemma receipts_snoc:
  "receipts i (ls @ [l]) =
     (if find (is_sent i) ls \<noteq> None \<and> is_received i l then receipts i ls @ [l] else receipts i ls)"
proof (cases "\<exists>x\<in>set ls. is_sent i x")
  case True
  then show ?thesis
    by (auto simp: receipts_def dropWhile_append find_None_iff)
next
  case False
  then have "find (is_sent i) ls = None"
    by (simp add: find_None_iff)
  moreover have "dropWhile (\<lambda>l. \<not> is_sent i l) (ls @ [l]) = (if is_sent i l then [l] else [])"
    using False by (simp add: dropWhile_append)
  ultimately show ?thesis
    using not_sent_and_received [of i l i] by (auto simp: receipts_unsent) (auto simp: receipts_def)
qed

lemma result_ref_snoc:
  "result_ref ds (ls @ [l]) i =
     (if is_sent i l \<and> i \<notin> set (sent_ids ls) then Some (new_stats l)
      else if is_received i l then map_option (receive_stats ds l) (result_ref ds ls i)
      else result_ref ds ls i)"
proof (cases "find (is_sent i) ls")
  case None
  have "stats_ref ds i (Time l) [] = new_stats l" if "is_sent i l"
    using that stats_ref_Nil [of ds l] by (simp add: is_sent_def)
  then show ?thesis
    using None by (simp add: result_ref_def find_append receipts_snoc receipts_unsent sent_ids_iff not_sent_and_received)
next
  case (Some l0)
  then show ?thesis
    by (simp add: result_ref_def find_append receipts_snoc sent_ids_iff stats_ref_snoc)
qed

lemma result_ref_None: "result_ref ds ls i = None \<longleftrightarrow> i \<notin> set (sent_ids ls)"
  by (simp add: result_ref_def sent_ids_iff split: option.split)

lemma addStatistics_ref:
  "addStatistics ds l (n, result_ref ds ls) =
     (if Direction l = ''sent'' \<and> MsgID l \<in> set (sent_ids ls) then Inl (Explicit ''Error, sent time already exists.'')
      else Inr (n + (if Direction l = ''sent'' then 1 else 0), result_ref ds (ls @ [l])))"
proof (cases "Direction l = ''sent''")
  case True
  then have "result_ref ds (ls @ [l]) = (result_ref ds ls)(MsgID l \<mapsto> new_stats l)" if "MsgID l \<notin> set (sent_ids ls)"
    using that by (auto simp: fun_eq_iff result_ref_snoc is_sent_def is_received_def)
  then show ?thesis
    using True result_ref_None [of ds ls "MsgID l"]
    by (cases "result_ref ds ls (MsgID l)") (simp_all add: addStatistics_def)
next
  case False
  then have "result_ref ds (ls @ [l]) i =
      (if Direction l = ''received'' \<and> i = MsgID l then map_option (receive_stats ds l) (result_ref ds ls i) else result_ref ds ls i)" for i
    by (auto simp: result_ref_snoc is_sent_def is_received_def)
  then show ?thesis
    using False by (auto simp: addStatistics_def fun_eq_iff split: option.split)
qed

subsection \<open>The whole log\<close>

primrec add_all :: "int list \<Rightarrow> Log list \<Rightarrow> int \<times> (string \<rightharpoonup> stats) \<Rightarrow> (int \<times> (string \<rightharpoonup> stats)) go" where
  "add_all ds [] acc = Inr acc"
| "add_all ds (l # ls) acc = go_bind (addStatistics ds l acc) (add_all ds ls)"

text \<open>The decoded lines up to the first one that does not decode, and its error.\<close>

primrec decode_lines :: "Log \<Rightarrow> string list \<Rightarrow> Log list \<times> json_error option" where
  "decode_lines l [] = ([], None)"
| "decode_lines l (line # rest) =
     (case Unmarshal decode_Log line l of Inl e \<Rightarrow> ([], Some e)
      | Inr l' \<Rightarrow> (case decode_lines l' rest of (ls, err) \<Rightarrow> (l' # ls, err)))"

lemma add_all_ref_from:
  "distinct (sent_ids ls) \<Longrightarrow>
   add_all ds ls' (int (length (sent_ids ls)), result_ref ds ls) =
     (if distinct (sent_ids (ls @ ls')) then Inr (int (length (sent_ids (ls @ ls'))), result_ref ds (ls @ ls'))
      else Inl (Explicit ''Error, sent time already exists.''))"
proof (induction ls' arbitrary: ls)
  case (Cons l ls')
  have snoc: "sent_ids (ls @ [l]) = sent_ids ls @ (if Direction l = ''sent'' then [MsgID l] else [])"
    by (simp add: sent_ids_def)
  have split: "sent_ids (ls @ l # ls') = sent_ids (ls @ [l]) @ sent_ids ls'"
    by (simp add: sent_ids_def)
  show ?case
  proof (cases "distinct (sent_ids (ls @ [l]))")
    case True
    with Cons.prems have "addStatistics ds l (int (length (sent_ids ls)), result_ref ds ls) =
        Inr (int (length (sent_ids (ls @ [l]))), result_ref ds (ls @ [l]))"
      by (auto simp: addStatistics_ref snoc)
    then show ?thesis
      using Cons.IH [OF True] by simp
  next
    case False
    with Cons.prems have "Direction l = ''sent''" "MsgID l \<in> set (sent_ids ls)"
      by (auto simp: snoc split: if_splits)
    moreover have "\<not> distinct (sent_ids (ls @ l # ls'))"
      using False split by simp
    ultimately show ?thesis
      by (simp add: addStatistics_ref)
  qed
qed simp

lemma add_all_ref:
  "add_all ds ls (0, Map.empty) =
     (if distinct (sent_ids ls) then Inr (int (length (sent_ids ls)), result_ref ds ls)
      else Inl (Explicit ''Error, sent time already exists.''))"
proof -
  have "result_ref ds [] = Map.empty"
    by (simp add: result_ref_def fun_eq_iff)
  then show ?thesis
    using add_all_ref_from [of "[]" ds ls] by (simp add: sent_ids_def)
qed

lemma scan_lines_decoded:
  "scan_lines ds l acc lines =
     (case decode_lines l lines of (ls, err) \<Rightarrow>
        go_bind (add_all ds (filter AggregateStats ls) acc) (\<lambda>r. Inr (case err of Some e \<Rightarrow> Inl e | None \<Rightarrow> Inr r)))"
proof (induction lines arbitrary: l acc)
  case (Cons line lines)
  show ?case
  proof (cases "Unmarshal decode_Log line l")
    case (Inr l')
    then show ?thesis
      using Cons [of l'] by (cases "decode_lines l' lines"; cases "addStatistics ds l' acc") (simp_all del: go_bind_Inr_iff)
  qed simp
qed simp

lemma RunStats_decoded:
  "RunStats order_of (Inr contents) m ds0 =
     (let ds = extend_durations m ds0; tokens = scan_tokens contents
      in case Unmarshal decode_Header (case tokens of [] \<Rightarrow> [] | first # _ \<Rightarrow> first) zero_Header of
           Inl e \<Rightarrow> Inr ([OHeaderError e], ds)
         | Inr h \<Rightarrow>
             (case decode_lines zero_Log (drop 1 tokens) of (ls, err) \<Rightarrow>
                let ls = filter AggregateStats ls
                in if \<not> distinct (sent_ids ls) then Inl (Explicit ''Error, sent time already exists.'')
                   else case err of
                          Some e \<Rightarrow> Inr ([OLogError e], ds)
                        | None \<Rightarrow> Inr (printStats ds (int (length (sent_ids ls))) (order_of (result_ref ds ls)) h, ds)))"
proof -
  obtain ls err where d: "decode_lines zero_Log (drop 1 (scan_tokens contents)) = (ls, err)"
    by fastforce
  show ?thesis
    by (cases "Unmarshal decode_Header (case scan_tokens contents of [] \<Rightarrow> [] | first # _ \<Rightarrow> first) zero_Header"; cases err)
      (simp_all add: RunStats_def scan_lines_decoded add_all_ref Let_def d [unfolded One_nat_def])
qed

text \<open>
  C10. The whole command on any file equals the reference: when the first line decodes as a header, the number of messages is
  the number of aggregated \<open>sent\<close> entries, the statistics of every id are the counts, latest times, threshold
  counts and sums of the \<open>received\<close> entries after its \<open>sent\<close> entry; a line that does not decode ends the run
  with an error and no statistics, and the command panics exactly when an id is sent twice before that.
\<close>

theorem RunStats_reference:
  "RunStats order_of (Inr contents) m ds0 =
     (let ds = extend_durations m ds0; tokens = scan_tokens contents
      in case Unmarshal decode_Header (case tokens of [] \<Rightarrow> [] | first # _ \<Rightarrow> first) zero_Header of
           Inl e \<Rightarrow> Inr ([OHeaderError e], ds)
         | Inr h \<Rightarrow>
             (case decode_lines zero_Log (drop 1 tokens) of (ls, err) \<Rightarrow>
                let ls = filter AggregateStats ls
                in if \<not> distinct (sent_ids ls) then Inl (Explicit ''Error, sent time already exists.'')
                   else case err of
                          Some e \<Rightarrow> Inr ([OLogError e], ds)
                        | None \<Rightarrow> Inr (printStats ds (int (length (sent_ids ls))) (order_of (result_ref ds ls)) h, ds)))"
  by (rule RunStats_decoded)

subsection \<open>Thresholds\<close>

lemma count_list_distinct: "distinct xs \<Longrightarrow> x \<in> set xs \<Longrightarrow> count_list xs x = 1"
  by (induction xs) (auto simp: count_list_0_iff)

lemma extend_durations_range:
  assumes "m * second < 2 ^ 63"
  shows "extend_durations m [] = map (\<lambda>i. i * second) [1..m]"
  using assms by (auto simp: extend_durations_def intro!: wrap64_id)

lemma stats_ref_simps [simp]:
  "msgSentTime (stats_ref ds i t rs) = t"
  "totalNodesReceivedMsg (stats_ref ds i t rs) = int (length rs)"
  "totalValidatorNodesReceivedMsg (stats_ref ds i t rs) = int (length (filter Log_IsValidator rs))"
  "durationStatistics (stats_ref ds i t rs) = in_time ds t (filter Log_IsValidator rs)"
  by (simp_all add: stats_ref_def Let_def)

lemma result_ref_Some: "result_ref ds ls i = Some s \<Longrightarrow> s = stats_ref ds i (msgSentTime s) (receipts i ls)"
  by (auto simp: result_ref_def split: option.splits)

text \<open>The entries of a log that are aggregated.\<close>

definition aggregated :: "string list \<Rightarrow> Log list" where
  "aggregated lines = filter AggregateStats (fst (decode_lines zero_Log lines))"

lemma scan_lines_result:
  assumes "scan_lines ds zero_Log (0, Map.empty) lines = Inr (Inr (msgNumber, result))" "result i = Some s"
  shows "\<exists>l. find (is_sent i) (aggregated lines) = Some l \<and> s = stats_ref ds i (Time l) (receipts i (aggregated lines))"
proof -
  obtain ls err where d: "decode_lines zero_Log lines = (ls, err)"
    by fastforce
  then have "result = result_ref ds (aggregated lines)"
    using assms(1) by (auto simp: scan_lines_decoded add_all_ref aggregated_def split: if_splits option.splits)
  then show ?thesis
    using assms(2) by (auto simp: result_ref_def split: option.splits)
qed

lemma threshold_lines:
  "OThreshold d n v q \<in> set (print_message ds h s) \<longleftrightarrow>
     d \<in> set ds \<and> d \<le> time_Sub (lastValidatorReceivedMsg s) (msgSentTime s) \<and> n = (case durationStatistics s d of None \<Rightarrow> 0 | Some n \<Rightarrow> n) \<and>
     v = ValidatorsCount h \<and> q = map_option (\<lambda>q. f64 (q * 100)) (fdiv n (ValidatorsCount h))"
  by (auto simp: print_message_def Let_def)

text \<open>
  C25. The thresholds of the statistics. When the scan of the lines of a log ends with the statistics \<open>s\<close> for the message \<open>i\<close>, then an
  aggregated entry sent it, and the line that the output has for the message and the threshold of \<open>k\<close> seconds (it has one exactly when the last
  validator received it \<open>k\<close> seconds after it was sent or later) gives the number of entries after it by which a validator received the message at most
  \<open>k\<close> seconds after it was sent.
\<close>

theorem threshold_count:
  assumes "1 \<le> k" "k \<le> m" "m * second < 2 ^ 63"
    and "scan_lines (extend_durations m []) zero_Log (0, Map.empty) lines = Inr (Inr (msgNumber, result))" "result i = Some s"
  shows "\<exists>sent. find (is_sent i) (aggregated lines) = Some sent \<and>
    (\<forall>n. (\<exists>v q. OThreshold (k * second) n v q \<in> set (print_message (extend_durations m []) h s)) \<longleftrightarrow>
       k * second \<le> time_Sub (lastValidatorReceivedMsg s) (Time sent) \<and>
       n = int (length (filter (\<lambda>l. Log_IsValidator l \<and> time_Sub (Time l) (Time sent) \<le> k * second) (receipts i (aggregated lines)))))"
proof -
  let ?ds = "extend_durations m []"
  obtain sent where sent: "find (is_sent i) (aggregated lines) = Some sent" "s = stats_ref ?ds i (Time sent) (receipts i (aggregated lines))"
    using scan_lines_result [OF assms(4,5)] by blast
  have ds: "distinct ?ds" "k * second \<in> set ?ds"
    using assms(1-3) by (auto simp: extend_durations_range distinct_map inj_on_def)
  then have "count_list ?ds (k * second) = 1"
    by (rule count_list_distinct)
  then have "(case durationStatistics s (k * second) of None \<Rightarrow> 0 | Some n \<Rightarrow> n) =
      int (length (filter (\<lambda>l. Log_IsValidator l \<and> time_Sub (Time l) (Time sent) \<le> k * second) (receipts i (aggregated lines))))"
    by (simp add: sent(2) in_time_def Let_def)
  then show ?thesis
    using sent(1) ds(2) by (intro exI [of _ sent]) (auto simp: threshold_lines sent(2))
qed

definition example_entry :: "string \<Rightarrow> int \<Rightarrow> bool \<Rightarrow> Log" where
  "example_entry dir t v = zero_Log\<lparr>MsgID := ''m'', Direction := dir, AggregateStats := True, Log_IsValidator := v, Time := t\<rparr>"

text \<open>A log with a message that one validator receives in the second in which it is sent and another one three seconds later.\<close>

definition example_line :: "string \<Rightarrow> string \<Rightarrow> string" where
  "example_line dir t = json_print (JObj [(''time'', JStr (''2022-01-31T12:00:0'' @ t @ ''Z'')), (''direction'', JStr dir), (''msgID'', JStr ''m''),
     (''aggregateStats'', JBool True), (''isValidator'', JBool True)])"

definition example_lines :: "string list" where
  "example_lines = [example_line ''sent'' ''0'', example_line ''received'' ''0'', example_line ''received'' ''3'']"

lemma example_lines_decoded:
  "decode_lines zero_Log example_lines =
     ([example_entry ''sent'' 1643630400000000000 True, example_entry ''received'' 1643630400000000000 True,
       example_entry ''received'' 1643630403000000000 True], None)"
  by code_simp

theorem threshold_count_witness:
  "\<exists>msgNumber result s v q. scan_lines (extend_durations 3 []) zero_Log (0, Map.empty) example_lines = Inr (Inr (msgNumber, result)) \<and>
     result ''m'' = Some s \<and> OThreshold (2 * second) 1 v q \<in> set (print_message (extend_durations 3 []) zero_Header s)"
proof -
  note entries = example_lines_decoded example_entry_def
  let ?ds = "extend_durations 3 []"
  have ls: "aggregated example_lines = fst (decode_lines zero_Log example_lines)"
    by (simp add: aggregated_def entries)
  have scan: "scan_lines ?ds zero_Log (0, Map.empty) example_lines = Inr (Inr (1, result_ref ?ds (aggregated example_lines)))"
    by (simp add: scan_lines_decoded add_all_ref ls) (simp add: entries sent_ids_def)
  obtain s where s: "result_ref ?ds (aggregated example_lines) ''m'' = Some s" "lastValidatorReceivedMsg s = 1643630403000000000"
    by (simp add: ls result_ref_def entries is_sent_def stats_ref_def receipts_def is_received_def latest_def zero_time_def)
  have "\<exists>v q. OThreshold (2 * second) 1 v q \<in> set (print_message ?ds zero_Header s)"
    using threshold_count [OF _ _ _ scan s(1), of 2 zero_Header]
    by (simp add: ls s(2) entries is_sent_def is_received_def receipts_def time_Sub_def sat64_def)
  then show ?thesis
    using scan s(1) by blast
qed

subsection \<open>The summary\<close>

definition all_received :: "Header \<Rightarrow> stats \<Rightarrow> bool" where
  "all_received h s \<longleftrightarrow> totalValidatorNodesReceivedMsg s = ValidatorsCount h"

definition validators_after :: "stats \<Rightarrow> int" where
  "validators_after s = time_Sub (lastValidatorReceivedMsg s) (msgSentTime s)"

definition tally :: "int list \<Rightarrow> (int \<rightharpoonup> int)" where
  "tally xs = (\<lambda>d. if d \<in> set xs then Some (int (count_list xs d)) else None)"

lemma increment_al_map_of: "map_of (increment_al k al) = (map_of al)(k \<mapsto> (case map_of al k of None \<Rightarrow> 1 | Some n \<Rightarrow> n + 1))"
  by (induction k al rule: increment_al.induct) (auto simp: fun_eq_iff split: option.split)

lemma increment_al_keys: "set (map fst (increment_al k al)) = insert k (set (map fst al))"
  by (induction k al rule: increment_al.induct) auto

lemma increment_al_distinct: "distinct (map fst al) \<Longrightarrow> distinct (map fst (increment_al k al))"
proof (induction k al rule: increment_al.induct)
  case (2 k d n al)
  then show ?case
    using increment_al_keys [of k al] by auto
qed simp

lemma tally_snoc: "tally (xs @ [k]) = (tally xs)(k \<mapsto> (case tally xs k of None \<Rightarrow> 1 | Some n \<Rightarrow> n + 1))"
  by (auto simp: tally_def fun_eq_iff count_list_0_iff)

lemma tally_perm: "mset xs = mset ys \<Longrightarrow> tally xs = tally ys"
  by (auto simp: tally_def fun_eq_iff dest: mset_eq_setD simp flip: count_mset)

definition summary :: "Header \<Rightarrow> stats list \<Rightarrow> totals" where
  "summary h ss = foldl (count_message h)
     \<lparr>validatorDurationMessages = [], totalValidatorsNotReceivedAllMsg = 0, maxValidatorsNotReceivedMessage = 0\<rparr> ss"

lemma summary_durations:
  "map_of (validatorDurationMessages (summary h ss)) = tally (map validators_after (filter (all_received h) ss)) \<and>
   distinct (map fst (validatorDurationMessages (summary h ss)))"
proof (induction ss rule: rev_induct)
  case Nil
  then show ?case
    by (simp add: summary_def tally_def fun_eq_iff)
next
  case (snoc s ss)
  have "summary h (ss @ [s]) = count_message h (summary h ss) s"
    by (simp add: summary_def)
  moreover have "validatorDurationMessages (count_message h t s) =
      (if all_received h s then increment_al (validators_after s) (validatorDurationMessages t) else validatorDurationMessages t)" for t
    by (simp add: count_message_def all_received_def validators_after_def Let_def)
  ultimately show ?case
    using snoc.IH by (simp add: increment_al_map_of increment_al_distinct tally_snoc)
qed

lemma summary_missing:
  "totalValidatorsNotReceivedAllMsg (summary h ss) =
     int (length (filter (\<lambda>s. totalValidatorNodesReceivedMsg s < ValidatorsCount h) ss))"
  by (induction ss rule: rev_induct) (simp_all add: summary_def count_message_def Let_def)

lemma summary_max:
  "maxValidatorsNotReceivedMessage (summary h ss) =
     Max (insert 0 ((\<lambda>s. ValidatorsCount h - totalValidatorNodesReceivedMsg s) ` set ss))"
proof (induction ss rule: rev_induct)
  case (snoc s ss)
  let ?A = "(\<lambda>s. ValidatorsCount h - totalValidatorNodesReceivedMsg s) ` set ss"
  have pos: "0 \<le> Max (insert 0 ?A)"
    by simp
  have "insert 0 (insert x ?A) = insert x (insert 0 ?A)" for x
    by auto
  then have "Max (insert 0 (insert x ?A)) = max x (Max (insert 0 ?A))" for x
    by (simp only: Max_insert finite_insert finite_imageI finite_set insert_not_empty simp_thms)
  moreover have "maxValidatorsNotReceivedMessage (count_message h t s) =
      (if totalValidatorNodesReceivedMsg s < ValidatorsCount h
       then max (ValidatorsCount h - totalValidatorNodesReceivedMsg s) (maxValidatorsNotReceivedMessage t)
       else maxValidatorsNotReceivedMessage t)" for t
    by (simp add: count_message_def Let_def)
  moreover have "max (ValidatorsCount h - totalValidatorNodesReceivedMsg s) (Max (insert 0 ?A)) = Max (insert 0 ?A)"
    if "\<not> totalValidatorNodesReceivedMsg s < ValidatorsCount h"
    using that pos by linarith
  ultimately show ?case
    using snoc.IH by (simp add: summary_def)
qed (simp add: summary_def)

lemma tally_total:
  "distinct (map fst al) \<Longrightarrow> map_of al = tally xs \<Longrightarrow> (\<Sum>p\<leftarrow>al. snd p) = int (length xs)"
proof -
  assume d: "distinct (map fst al)" and m: "map_of al = tally xs"
  have keys: "set (map fst al) = set xs"
  proof -
    have "dom (map_of al) = set xs"
      by (auto simp: m tally_def split: if_splits)
    then show ?thesis
      by (simp add: dom_map_of_conv_image_fst)
  qed
  have "(\<Sum>p\<leftarrow>al. snd p) = (\<Sum>p\<leftarrow>al. int (count_list xs (fst p)))"
  proof (rule arg_cong [where f = sum_list], rule map_cong [OF refl])
    fix p assume "p \<in> set al"
    then have "map_of al (fst p) = Some (snd p)"
      using d by simp
    then show "snd p = int (count_list xs (fst p))"
      by (simp add: m tally_def split: if_splits)
  qed
  also have "\<dots> = (\<Sum>k\<in>set xs. int (count_list xs k))"
    using d keys sum_list_distinct_conv_sum_set [of "map fst al" "\<lambda>k. int (count_list xs k)"] by (simp add: comp_def)
  also have "\<dots> = int (length xs)"
    using sum_count_set [of xs "set xs"] by (simp flip: of_nat_sum)
  finally show ?thesis .
qed

text \<open>
  C26. What is printed: the header, the messages ordered by the time they were sent, the largest number of
  validators that missed a message, the number of messages that some validator missed, and a table whose
  row for the duration \<open>d\<close> counts the messages that every validator had received exactly \<open>d\<close> after the sending.
  The rows are in increasing order of the duration, and rows and missed messages together count every message
  once when no message was received more often than there are validators.
\<close>

theorem printStats_summary:
  assumes "\<forall>s \<in> set order. totalValidatorNodesReceivedMsg s \<le> ValidatorsCount h"
  shows "\<exists>msgs rows missed.
    printStats ds n order h = print_header h @ concat (map (print_message ds h) msgs) @
      [OMaxMissing (Max (insert 0 ((\<lambda>s. ValidatorsCount h - totalValidatorNodesReceivedMsg s) ` set order))),
       OMissing missed (fdiv (100 * missed) n) n] @
      map (\<lambda>(d, c). if d \<ge> 0 then ODuration (go_trunc (Seconds d)) c (fdiv (100 * c) n) else ONoValidator c (fdiv (100 * c) n)) rows
    \<and> mset msgs = mset order \<and> sorted (map msgSentTime msgs)
    \<and> sorted_wrt (<) (map fst rows) \<and> map_of rows = tally (map validators_after (filter (all_received h) order))
    \<and> missed = int (length (filter (\<lambda>s. totalValidatorNodesReceivedMsg s < ValidatorsCount h) order))
    \<and> missed + (\<Sum>r\<leftarrow>rows. snd r) = int (length order)"
proof -
  let ?msgs = "sort_key msgSentTime order"
  let ?al = "validatorDurationMessages (summary h ?msgs)"
  let ?rows = "sort_key fst ?al"
  let ?less = "\<lambda>s. totalValidatorNodesReceivedMsg s < ValidatorsCount h"
  let ?missed = "int (length (filter ?less order))"
  have perm: "mset ?msgs = mset order"
    by simp
  then have tally_perm: "tally (map validators_after (filter (all_received h) ?msgs)) =
      tally (map validators_after (filter (all_received h) order))"
    by (intro tally_perm) (simp add: mset_filter)
  have al: "map_of ?al = tally (map validators_after (filter (all_received h) order))" "distinct (map fst ?al)"
    using summary_durations [of h ?msgs] tally_perm by simp_all
  have rows: "map_of ?rows = tally (map validators_after (filter (all_received h) order))" "distinct (map fst ?rows)"
  proof -
    show d: "distinct (map fst ?rows)"
      using al(2) by (metis distinct_map distinct_sort set_sort)
    show "map_of ?rows = tally (map validators_after (filter (all_received h) order))"
      using map_of_eqI al d by (metis distinct_map map_of_inject_set set_sort)
  qed
  have "sorted_wrt (<) (map fst ?rows)"
    using rows(2) by (simp add: strict_sorted_iff)
  moreover have "length (filter ?less ?msgs) = length (filter ?less order)"
    by (simp add: filter_sort)
  moreover have "?missed + (\<Sum>r\<leftarrow>?rows. snd r) = int (length order)"
  proof -
    have "filter (all_received h) order = filter (\<lambda>s. \<not> ?less s) order"
      using assms by (intro filter_cong) (auto simp: all_received_def)
    then show ?thesis
      using tally_total [OF rows(2,1)] sum_length_filter_compl [of ?less order] by (simp flip: of_nat_add)
  qed
  moreover have "maxValidatorsNotReceivedMessage (summary h ?msgs) =
      Max (insert 0 ((\<lambda>s. ValidatorsCount h - totalValidatorNodesReceivedMsg s) ` set order))"
    by (simp add: summary_max)
  ultimately show ?thesis
    using rows(1) perm
    by (intro exI [of _ ?msgs] exI [of _ ?rows] exI [of _ ?missed])
      (simp add: printStats_def print_totals_def summary_missing Let_def flip: summary_def)
qed

definition example_header :: Header where
  "example_header = \<lparr>AgentsCount = 3, ValidatorsCount = 2, Topology_name = ''cluster.LinearTopology'', PeeringDegree = 2,
     NonValidatorDegree = -1, ConnectionCount = -1, BenchDuration = 40, MsgRate = 900\<rparr>"

definition example_order :: "stats list" where
  "example_order =
     [stats_ref [] ''b'' (2 * second) [example_entry ''received'' (3 * second) True],
      stats_ref [] ''a'' second [example_entry ''received'' (2 * second) True, example_entry ''received'' (4 * second) True]]"

theorem printStats_summary_witness:
  "\<exists>msgs rows. printStats [] 2 example_order example_header =
      print_header example_header @ concat (map (print_message [] example_header) msgs) @
      [OMaxMissing 1, OMissing 1 (fdiv 100 2) 2] @
      map (\<lambda>(d, c). if d \<ge> 0 then ODuration (go_trunc (Seconds d)) c (fdiv (100 * c) 2) else ONoValidator c (fdiv (100 * c) 2)) rows
    \<and> 1 + (\<Sum>r\<leftarrow>rows. snd r) = int (length example_order)"
proof -
  have "\<forall>s \<in> set example_order. totalValidatorNodesReceivedMsg s \<le> ValidatorsCount example_header"
    by (simp add: example_order_def example_header_def example_entry_def)
  moreover have "Max (insert 0 ((\<lambda>s. ValidatorsCount example_header - totalValidatorNodesReceivedMsg s) ` set example_order)) = 1"
    by (simp add: example_order_def example_header_def example_entry_def)
  moreover have "length (filter (\<lambda>s. totalValidatorNodesReceivedMsg s < ValidatorsCount example_header) example_order) = 1"
    by (simp add: example_order_def example_header_def example_entry_def)
  ultimately show ?thesis
    using printStats_summary [of example_order example_header "[]" 2] by auto
qed

subsection \<open>The reused variable\<close>

lemma decode_plain_line:
  assumes "json_parse line = Some (JObj [(''time'', JStr raw), (''msg'', JStr txt)])" "parse_RFC3339 raw = Some t"
  shows "Unmarshal decode_Log line l = Inr (l\<lparr>Msg := unquote txt, Time := t\<rparr>)"
proof -
  have "unquote ''time'' = ''time''" "unquote ''msg'' = ''msg''"
    by (simp_all add: unquote_plain)
  then show ?thesis
    using assms by (simp add: Unmarshal_def decode_Log_def match_field_def Log_fields_def Log_store_def)
qed

text \<open>
  C40. \<open>json.Unmarshal\<close> decodes every line into the same variable, so a line without the fields of a message
  repeats the message entry before it: after an aggregated \<open>received\<close> entry of a known id, a line that holds
  only a time and a text counts one more node as having received the message.
\<close>

theorem stale_line_counted_again:
  assumes "AggregateStats l" "Direction l = ''received''" "result (MsgID l) = Some s"
    and "json_parse line = Some (JObj [(''time'', JStr raw), (''msg'', JStr txt)])" "parse_RFC3339 raw = Some t"
  shows "\<exists>s'. scan_lines ds l (n, result) [line] = Inr (Inr (n, result(MsgID l \<mapsto> s')))
    \<and> totalNodesReceivedMsg s' = totalNodesReceivedMsg s + 1"
  using assms(1-3) decode_plain_line [OF assms(4,5), of l]
  by (auto simp: addStatistics_def receive_stats_def Let_def simp del: go_bind_Inr_iff)

theorem stale_line_counted_again_witness:
  "\<exists>s'. scan_lines [] (example_entry ''received'' second True) (1, [''m'' \<mapsto> stats_ref [] ''m'' 0 [example_entry ''received'' second True]])
     [json_print (JObj [(''time'', JStr ''2022-01-31T12:00:00+01:00''), (''msg'', JStr ''agent successfully subscribed'')])] =
       Inr (Inr (1, [''m'' \<mapsto> s'])) \<and> totalNodesReceivedMsg s' = 2"
proof -
  let ?j = "JObj [(''time'', JStr ''2022-01-31T12:00:00+01:00''), (''msg'', JStr ''agent successfully subscribed'')]"
  let ?l = "example_entry ''received'' second True" and ?s = "stats_ref [] ''m'' 0 [example_entry ''received'' second True]"
  have "json_wf ?j maxNestingDepth"
    by (simp add: maxNestingDepth_def)
  then have "json_parse (json_print ?j) = Some ?j"
    by (rule json_parse_print)
  moreover have "parse_RFC3339 ''2022-01-31T12:00:00+01:00'' = Some 1643626800000000000"
    by code_simp
  moreover have "AggregateStats ?l" "Direction ?l = ''received''" "[''m'' \<mapsto> ?s] (MsgID ?l) = Some ?s"
    by (simp_all add: example_entry_def)
  ultimately show ?thesis
    using stale_line_counted_again [of ?l "[''m'' \<mapsto> ?s]" ?s "json_print ?j"] by (fastforce simp: example_entry_def)
qed

end
