(* ===== verification/MessageLoop.thy ===== *)
theory MessageLoop
  imports Observer Agent NetLatency Float64
begin

text \<open>
  \<open>cluster/message_loop.go\<close>: the two messaging loops.

  A loop starts one goroutine per agent, publishes ticks through the observer subject until its timeout and
  waits for the goroutines. The bodies of the goroutines of \<open>ConstantRateMessaging\<close> and of the leader and
  the others of \<open>HotstuffMessaging\<close> are the same select loop; they differ in the condition under which a
  tick makes the agent send (\<open>lc_sends\<close>). The whole loop is a step relation on the state \<open>msg_loop\<close>: the main
  goroutine, the agents' goroutines and the clock interleave in any order. The observer part of the state
  is the \<open>osys\<close> of the theory \<open>Observer\<close>; an \<open>Update\<close> is its three writes, with steps of others in between.

  The context can be cancelled at any time (\<open>cancel\<close>); from then on the case \<open>ctx.Done()\<close> of every select is ready. The
  source gives that case an empty body, so the select runs again (\<open>main_done\<close>, \<open>agent_done\<close>).
  \<open>lp_sends\<close> records what was sent and is not program state.
\<close>

section \<open>Data\<close>

text \<open>The subject holds an \<open>interface{}\<close>: a \<open>time.Time\<close> at first, then \<open>time.Duration\<close>s.\<close>

datatype tick = TimeVal int | DurationVal int

record ConstantRateMessaging =
  Rate :: int
  LogDuration :: int
  Timeout :: int
  MessageSize :: int

record HotstuffMessaging =
  h_LogDuration :: int
  h_Timeout :: int
  h_MessageSize :: int

definition onEvenSecond :: "int \<Rightarrow> bool" where
  "onEvenSecond d \<longleftrightarrow> go_trunc (Seconds d) smod 2 = 0"

definition shouldAggregate :: "int \<Rightarrow> int \<Rightarrow> int \<Rightarrow> bool" where
  "shouldAggregate msgTime start_time duration \<longleftrightarrow> msgTime < start_time + duration"

text \<open>What distinguishes the two loops: the agents in the order of their goroutines, the tick rate, and when
  goroutine \<open>i\<close> sends on the value of its stream.\<close>

record loop_code =
  lc_agents :: "GossipAgent list"
  lc_rate :: int
  lc_log :: int
  lc_timeout :: int
  lc_size :: int
  lc_sends :: "nat \<Rightarrow> tick \<Rightarrow> bool go"

definition constant_rate_code :: "ConstantRateMessaging \<Rightarrow> GossipAgent list \<Rightarrow> loop_code" where
  "constant_rate_code c agents = \<lparr>lc_agents = agents, lc_rate = Rate c, lc_log = LogDuration c, lc_timeout = Timeout c,
     lc_size = MessageSize c, lc_sends = (\<lambda>i v. Inr True)\<rparr>"

text \<open>\<open>rand.Intn\<close> panics for zero agents; \<open>n\<close> is the draw before the reduction. The leader has goroutine 0. The
  \<open>append\<close> reuses the array of \<open>agents\<close>, which is not read afterwards.\<close>

definition hotstuff_code :: "HotstuffMessaging \<Rightarrow> nat \<Rightarrow> GossipAgent list \<Rightarrow> loop_code go" where
  "hotstuff_code h n agents =
     (if agents = [] then Inl (InvalidArgument ''Intn'')
      else let randIdx = n mod length agents
           in go_bind (slice_at agents randIdx) (\<lambda>leader.
                let rest = take randIdx agents @ drop (randIdx + 1) agents
                in Inr \<lparr>lc_agents = leader # rest, lc_rate = second, lc_log = h_LogDuration h, lc_timeout = h_Timeout h,
                     lc_size = h_MessageSize h,
                     lc_sends = (\<lambda>i v. case v of TimeVal t \<Rightarrow> Inl TypeAssertion
                       | DurationVal currentTime \<Rightarrow>
                           Inr (if i = 0 then \<not> onEvenSecond currentTime else onEvenSecond currentTime))\<rparr>))"

section \<open>The loop\<close>

text \<open>The main goroutine: starting the others, the three first lines of \<open>startUpdatingSubject\<close>, its select
  loop (with the time of the ticker's creation, \<open>start\<close> and the end of the timer), inside \<open>Update\<close>, waiting.\<close>

datatype main_pc =
    MSpawn
  | MTicker
  | MClock int
  | MTimer int int
  | MSelect int int int
  | MUpdate int int int
  | MWait
  | MReturned int int

text \<open>An agent's goroutine: before \<open>Observe\<close>, at the select, after a tick that makes it send, with the flag for
  \<open>SendMessage\<close> (and the time it was computed at), with the outcome of \<open>SendMessage\<close>, returned.\<close>

datatype agent_pc =
    AStart
  | ASelect
  | ADecide tick
  | ASend tick bool int
  | ASent bool
  | AExit

record sent_msg =
  sm_agent :: nat
  sm_value :: tick
  sm_useful :: bool
  sm_time :: int
  sm_ok :: bool

record msg_loop =
  lp_obs :: "tick osys"
  lp_pcs :: "agent_pc list"
  lp_main :: main_pc
  lp_now :: int
  lp_start :: int
  lp_stop :: bool
  lp_cancelled :: bool
  lp_wg :: int
  lp_published :: int
  lp_failed :: int
  lp_log :: "entry list"
  lp_sends :: "sent_msg list"

definition loop_init :: "int \<Rightarrow> msg_loop" where
  "loop_init t = \<lparr>lp_obs = osys_init (TimeVal zero_time) [], lp_pcs = [], lp_main = MSpawn, lp_now = t, lp_start = zero_time,
     lp_stop = False, lp_cancelled = False, lp_wg = 0, lp_published = 0, lp_failed = 0, lp_log = [], lp_sends = []\<rparr>"

definition set_pc :: "nat \<Rightarrow> agent_pc \<Rightarrow> msg_loop \<Rightarrow> msg_loop" where
  "set_pc i pc s = s\<lparr>lp_pcs := (lp_pcs s)[i := pc]\<rparr>"

definition at_pc_of :: "msg_loop \<Rightarrow> nat \<Rightarrow> agent_pc \<Rightarrow> bool" where
  "at_pc_of s i pc \<longleftrightarrow> i < length (lp_pcs s) \<and> lp_pcs s ! i = pc"

text \<open>The results are the next state or a panic.\<close>

definition main_update :: "msg_loop \<Rightarrow> msg_loop go" where
  "main_update s =
     (let ob = lp_obs s
      in case lp_main s of
           MUpdate c st e \<Rightarrow>
             (case os_phase ob of
                Idle \<Rightarrow> Inr s
              | Linked v \<Rightarrow>
                  go_bind (state_close (subject_state (os_subject ob)) (os_heap ob)) (\<lambda>h.
                    Inr (s\<lparr>lp_obs := ob\<lparr>os_heap := h, os_phase := Closed, history := history ob @ [v]\<rparr>\<rparr>))
              | Closed \<Rightarrow>
                  go_bind (load (os_heap ob) (subject_state (os_subject ob))) (\<lambda>cl.
                    Inr (s\<lparr>lp_obs := ob\<lparr>os_subject := (os_subject ob)\<lparr>subject_state := st_next cl\<rparr>, os_phase := Idle\<rparr>,
                           lp_main := MSelect c st e\<rparr>)))
         | _ \<Rightarrow> Inr s)"

definition agent_advance :: "loop_code \<Rightarrow> nat \<Rightarrow> stream \<Rightarrow> msg_loop \<Rightarrow> msg_loop go" where
  "agent_advance code i st s =
     (let ob = lp_obs s
      in go_bind (stream_Next st (os_heap ob)) (\<lambda>(v, st').
           let s' = s\<lparr>lp_obs := ob\<lparr>os_streams := (os_streams ob)(i \<mapsto> st'), seen := (seen ob)(i := seen ob i @ [v])\<rparr>\<rparr>
           in go_bind (stream_Value st' (os_heap ob)) (\<lambda>current.
              go_bind (lc_sends code i current) (\<lambda>b. Inr (if b then set_pc i (ADecide current) s' else s')))))"

definition send_ok :: "message_error + error option \<Rightarrow> bool" where
  "send_ok r \<longleftrightarrow> r = Inr None"

definition agent_send :: "libp2p \<Rightarrow> (nat \<Rightarrow> byte) \<Rightarrow> byte list \<Rightarrow> loop_code \<Rightarrow> nat \<Rightarrow> tick \<Rightarrow> bool \<Rightarrow> int \<Rightarrow> msg_loop \<Rightarrow> msg_loop go" where
  "agent_send lib rnd uuid code i v useful t s =
     go_bind (SendMessage lib rnd uuid (lp_now s) (lc_size code) useful (lc_agents code ! i)) (\<lambda>(err, es).
       Inr ((set_pc i (ASent (send_ok err)) s)\<lparr>lp_log := lp_log s @ es,
         lp_sends := lp_sends s @ [\<lparr>sm_agent = i, sm_value = v, sm_useful = useful, sm_time = t, sm_ok = send_ok err\<rparr>]\<rparr>))"

inductive loop_step :: "libp2p \<Rightarrow> (nat \<Rightarrow> byte) \<Rightarrow> loop_code \<Rightarrow> msg_loop \<Rightarrow> msg_loop go \<Rightarrow> bool" for lib rnd code where
  clock: "lp_now s \<le> t \<Longrightarrow> loop_step lib rnd code s (Inr (s\<lparr>lp_now := t\<rparr>))"
| cancel: "loop_step lib rnd code s (Inr (s\<lparr>lp_cancelled := True\<rparr>))"
| main_done: "lp_main s = MSelect c st e \<Longrightarrow> lp_cancelled s \<Longrightarrow> loop_step lib rnd code s (Inr s)"
| agent_done: "at_pc_of s i ASelect \<Longrightarrow> lp_cancelled s \<Longrightarrow> loop_step lib rnd code s (Inr s)"
| spawn: "lp_main s = MSpawn \<Longrightarrow> length (lp_pcs s) < length (lc_agents code) \<Longrightarrow>
    loop_step lib rnd code s (Inr (s\<lparr>lp_pcs := lp_pcs s @ [AStart], lp_wg := lp_wg s + 1\<rparr>))"
| set_start: "lp_main s = MSpawn \<Longrightarrow> \<not> length (lp_pcs s) < length (lc_agents code) \<Longrightarrow>
    loop_step lib rnd code s (Inr (s\<lparr>lp_start := lp_now s, lp_main := MTicker\<rparr>))"
| new_ticker: "lp_main s = MTicker \<Longrightarrow>
    loop_step lib rnd code s (if lc_rate code \<le> 0 then Inl (Explicit ''non-positive interval for NewTicker'')
      else Inr (s\<lparr>lp_main := MClock (lp_now s)\<rparr>))"
| read_clock: "lp_main s = MClock c \<Longrightarrow> loop_step lib rnd code s (Inr (s\<lparr>lp_main := MTimer c (lp_now s)\<rparr>))"
| new_timer: "lp_main s = MTimer c st \<Longrightarrow>
    loop_step lib rnd code s (Inr (s\<lparr>lp_main := MSelect c st (lp_now s + lc_timeout code)\<rparr>))"
| tick: "lp_main s = MSelect c st e \<Longrightarrow> c + lc_rate code \<le> t \<Longrightarrow> t \<le> lp_now s \<Longrightarrow> elapsed = DurationVal (time_Sub t st) \<Longrightarrow>
    loop_step lib rnd code s
      (go_bind (state_link (subject_state (os_subject (lp_obs s))) elapsed (os_heap (lp_obs s))) (\<lambda>h.
         Inr (s\<lparr>lp_obs := (lp_obs s)\<lparr>os_heap := h, os_phase := Linked elapsed\<rparr>, lp_main := MUpdate c st e\<rparr>)))"
| update: "lp_main s = MUpdate c st e \<Longrightarrow> loop_step lib rnd code s (main_update s)"
| timeout: "lp_main s = MSelect c st e \<Longrightarrow> e \<le> lp_now s \<Longrightarrow>
    loop_step lib rnd code s (if lp_stop s then Inl CloseOfClosedChannel else Inr (s\<lparr>lp_stop := True, lp_main := MWait\<rparr>))"
| loop_returns: "lp_main s = MWait \<Longrightarrow> lp_wg s = 0 \<Longrightarrow>
    loop_step lib rnd code s (Inr (s\<lparr>lp_main := MReturned (lp_published s) (lp_failed s)\<rparr>))"
| observe: "at_pc_of s i AStart \<Longrightarrow> os_phase (lp_obs s) = Idle \<Longrightarrow>
    loop_step lib rnd code s (Inr ((set_pc i ASelect s)\<lparr>lp_obs := (lp_obs s)\<lparr>
      os_streams := (os_streams (lp_obs s))(i \<mapsto> subject_Observe (os_subject (lp_obs s), os_heap (lp_obs s))),
      start := (start (lp_obs s))(i := length (history (lp_obs s))), seen := (seen (lp_obs s))(i := [])\<rparr>\<rparr>))"
| stopped: "at_pc_of s i ASelect \<Longrightarrow> lp_stop s \<Longrightarrow>
    loop_step lib rnd code s (if lp_wg s \<le> 0 then Inl NegativeWaitGroup else Inr ((set_pc i AExit s)\<lparr>lp_wg := lp_wg s - 1\<rparr>))"
| advance: "at_pc_of s i ASelect \<Longrightarrow> os_streams (lp_obs s) i = Some st \<Longrightarrow> stream_Changes st (os_heap (lp_obs s)) = Inr True \<Longrightarrow>
    loop_step lib rnd code s (agent_advance code i st s)"
| decide: "at_pc_of s i (ADecide v) \<Longrightarrow>
    loop_step lib rnd code s (Inr (set_pc i (ASend v (shouldAggregate (lp_now s) (lp_start s) (lc_log code)) (lp_now s)) s))"
| send: "at_pc_of s i (ASend v useful t) \<Longrightarrow> length uuid = 16 \<Longrightarrow>
    loop_step lib rnd code s (agent_send lib rnd uuid code i v useful t s)"
| count_published: "at_pc_of s i (ASent True) \<Longrightarrow>
    loop_step lib rnd code s (Inr ((set_pc i ASelect s)\<lparr>lp_published := wrap64 (lp_published s + 1)\<rparr>))"
| count_failed: "at_pc_of s i (ASent False) \<Longrightarrow>
    loop_step lib rnd code s (Inr ((set_pc i ASelect s)\<lparr>lp_failed := wrap64 (lp_failed s + 1)\<rparr>))"

inductive loop_reach :: "libp2p \<Rightarrow> (nat \<Rightarrow> byte) \<Rightarrow> loop_code \<Rightarrow> int \<Rightarrow> msg_loop \<Rightarrow> bool" for lib rnd code t0 where
  init: "loop_reach lib rnd code t0 (loop_init t0)"
| step: "loop_reach lib rnd code t0 s \<Longrightarrow> loop_step lib rnd code s (Inr s') \<Longrightarrow> loop_reach lib rnd code t0 s'"

text \<open>The runs that go on from a state.\<close>

abbreviation loop_path :: "libp2p \<Rightarrow> (nat \<Rightarrow> byte) \<Rightarrow> loop_code \<Rightarrow> msg_loop \<Rightarrow> msg_loop \<Rightarrow> bool" where
  "loop_path lib rnd code \<equiv> (\<lambda>s s'. loop_step lib rnd code s (Inr s'))\<^sup>*\<^sup>*"

lemma loop_reach_path: "loop_path lib rnd code s s' \<Longrightarrow> loop_reach lib rnd code t0 s \<Longrightarrow> loop_reach lib rnd code t0 s'"
  by (induction rule: rtranclp_induct) (auto intro: loop_reach.step)

text \<open>What \<open>Loop\<close> returns.\<close>

definition ConstantRate_Loop ::
  "libp2p \<Rightarrow> (nat \<Rightarrow> byte) \<Rightarrow> ConstantRateMessaging \<Rightarrow> GossipAgent list \<Rightarrow> int \<Rightarrow> int \<times> int \<Rightarrow> msg_loop \<Rightarrow> bool" where
  "ConstantRate_Loop lib rnd c agents t0 = (\<lambda>(published, failed) s.
     loop_reach lib rnd (constant_rate_code c agents) t0 s \<and> lp_main s = MReturned published failed)"

definition Hotstuff_Loop ::
  "libp2p \<Rightarrow> (nat \<Rightarrow> byte) \<Rightarrow> HotstuffMessaging \<Rightarrow> nat \<Rightarrow> GossipAgent list \<Rightarrow> int \<Rightarrow> (int \<times> int) go \<Rightarrow> msg_loop \<Rightarrow> bool" where
  "Hotstuff_Loop lib rnd h n agents t0 result s \<longleftrightarrow>
     (case hotstuff_code h n agents of
        Inl p \<Rightarrow> result = Inl p
      | Inr code \<Rightarrow> (\<exists>published failed. result = Inr (published, failed) \<and> loop_reach lib rnd code t0 s \<and>
          lp_main s = MReturned published failed))"

section \<open>Control\<close>

fun updating :: "main_pc \<Rightarrow> bool" where
  "updating (MUpdate c st e) = True"
| "updating _ = False"

fun waiting :: "main_pc \<Rightarrow> bool" where
  "waiting MWait = True"
| "waiting (MReturned p f) = True"
| "waiting _ = False"

fun is_duration :: "tick \<Rightarrow> bool" where
  "is_duration (DurationVal d) = True"
| "is_duration (TimeVal t) = False"

text \<open>A sum over the program counters of the goroutines.\<close>

definition tot :: "(agent_pc \<Rightarrow> int) \<Rightarrow> msg_loop \<Rightarrow> int" where
  "tot f s = sum_list (map f (lp_pcs s))"

lemma pcs_sum_update:
  "i < length pcs \<Longrightarrow> pcs ! i = pc \<Longrightarrow> sum_list (map f (pcs[i := pc'])) = sum_list (map f pcs) - f pc + (f pc' :: int)"
  using sum_list_map_update [of i pcs f pc'] by auto

lemmas pc_defs = tot_def set_pc_def at_pc_of_def pcs_sum_update

lemma set_pc_simps [simp]:
  "lp_obs (set_pc i pc s) = lp_obs s" "lp_main (set_pc i pc s) = lp_main s" "lp_now (set_pc i pc s) = lp_now s"
  "lp_start (set_pc i pc s) = lp_start s" "lp_stop (set_pc i pc s) = lp_stop s" "lp_wg (set_pc i pc s) = lp_wg s"
  "lp_published (set_pc i pc s) = lp_published s" "lp_failed (set_pc i pc s) = lp_failed s" "lp_log (set_pc i pc s) = lp_log s"
  "lp_sends (set_pc i pc s) = lp_sends s" "length (lp_pcs (set_pc i pc s)) = length (lp_pcs s)"
  by (simp_all add: set_pc_def)

definition alive :: "agent_pc \<Rightarrow> int" where
  "alive pc = (if pc = AExit then 0 else 1)"

lemma main_update_cases:
  assumes "main_update s = Inr s'" "lp_main s = MUpdate c st e" "os_phase (lp_obs s) \<noteq> Idle"
  obtains (close) v h where "os_phase (lp_obs s) = Linked v"
      "state_close (subject_state (os_subject (lp_obs s))) (os_heap (lp_obs s)) = Inr h"
      "s' = s\<lparr>lp_obs := (lp_obs s)\<lparr>os_heap := h, os_phase := Closed, history := history (lp_obs s) @ [v]\<rparr>\<rparr>"
  | (assign) cl where "os_phase (lp_obs s) = Closed"
      "load (os_heap (lp_obs s)) (subject_state (os_subject (lp_obs s))) = Inr cl"
      "s' = s\<lparr>lp_obs := (lp_obs s)\<lparr>os_subject := (os_subject (lp_obs s))\<lparr>subject_state := st_next cl\<rparr>, os_phase := Idle\<rparr>,
              lp_main := MSelect c st e\<rparr>"
  using assms by (cases "os_phase (lp_obs s)") (auto simp: main_update_def Let_def)

lemma agent_advance_cases:
  assumes "agent_advance code i st s = Inr s'"
  obtains v st' current b where "stream_Next st (os_heap (lp_obs s)) = Inr (v, st')"
    "stream_Value st' (os_heap (lp_obs s)) = Inr current" "lc_sends code i current = Inr b"
    "s' = (let s1 = s\<lparr>lp_obs := (lp_obs s)\<lparr>os_streams := (os_streams (lp_obs s))(i \<mapsto> st'), seen := (seen (lp_obs s))(i := seen (lp_obs s) i @ [v])\<rparr>\<rparr>
           in if b then set_pc i (ADecide current) s1 else s1)"
  using assms by (auto simp: agent_advance_def Let_def)

lemma agent_send_cases:
  assumes "agent_send lib rnd uuid code i v useful t s = Inr s'"
  obtains err es where "SendMessage lib rnd uuid (lp_now s) (lc_size code) useful (lc_agents code ! i) = Inr (err, es)"
    "s' = (set_pc i (ASent (send_ok err)) s)\<lparr>lp_log := lp_log s @ es,
       lp_sends := lp_sends s @ [\<lparr>sm_agent = i, sm_value = v, sm_useful = useful, sm_time = t, sm_ok = send_ok err\<rparr>]\<rparr>"
  using assms by (auto simp: agent_send_def)

inductive_cases loop_step_InrE: "loop_step lib rnd code s (Inr s')"

lemmas loop_defs = main_update_def agent_advance_def agent_send_def Let_def Inr_go_bind_iff

definition phase_inv :: "msg_loop \<Rightarrow> bool" where
  "phase_inv s \<longleftrightarrow> (os_phase (lp_obs s) = Idle \<longleftrightarrow> \<not> updating (lp_main s))"

definition stop_inv :: "msg_loop \<Rightarrow> bool" where
  "stop_inv s \<longleftrightarrow> (lp_stop s \<longleftrightarrow> waiting (lp_main s)) \<and> (AExit \<in> set (lp_pcs s) \<longrightarrow> lp_stop s)"

definition spawn_inv :: "loop_code \<Rightarrow> msg_loop \<Rightarrow> bool" where
  "spawn_inv code s \<longleftrightarrow> length (lp_pcs s) \<le> length (lc_agents code) \<and>
     (lp_main s \<noteq> MSpawn \<longrightarrow> length (lp_pcs s) = length (lc_agents code))"

definition wg_inv :: "msg_loop \<Rightarrow> bool" where
  "wg_inv s \<longleftrightarrow> lp_wg s = tot alive s"

definition history_inv :: "msg_loop \<Rightarrow> bool" where
  "history_inv s \<longleftrightarrow> history (lp_obs s) \<noteq> [] \<and> list_all is_duration (tl (history (lp_obs s))) \<and>
     (case os_phase (lp_obs s) of Linked v \<Rightarrow> is_duration v | _ \<Rightarrow> True) \<and>
     (lp_main s = MSpawn \<longrightarrow> history (lp_obs s) = [TimeVal zero_time])"

lemma phase_inv_step: "loop_step lib rnd code s (Inr s') \<Longrightarrow> phase_inv s \<Longrightarrow> phase_inv s'"
  by (erule loop_step_InrE) (auto simp: phase_inv_def loop_defs split: phase.splits if_splits)

lemma spawn_inv_step: "loop_step lib rnd code s (Inr s') \<Longrightarrow> spawn_inv code s \<Longrightarrow> spawn_inv code s'"
  by (erule loop_step_InrE) (auto simp: spawn_inv_def loop_defs split: phase.splits if_splits)

lemma history_inv_step: "loop_step lib rnd code s (Inr s') \<Longrightarrow> history_inv s \<Longrightarrow> history_inv s'"
  by (erule loop_step_InrE) (auto simp: history_inv_def loop_defs split: phase.splits if_splits)

lemma wg_inv_step: "loop_step lib rnd code s (Inr s') \<Longrightarrow> wg_inv s \<Longrightarrow> wg_inv s'"
  by (erule loop_step_InrE) (auto simp: wg_inv_def alive_def pc_defs loop_defs split: phase.splits if_splits)

lemma stop_inv_step: "loop_step lib rnd code s (Inr s') \<Longrightarrow> stop_inv s \<Longrightarrow> stop_inv s'"
  by (erule loop_step_InrE)
    (auto simp: stop_inv_def set_pc_def loop_defs split: phase.splits if_splits dest!: set_update_subset_insert [THEN subsetD])

definition streams_inv :: "msg_loop \<Rightarrow> bool" where
  "streams_inv s \<longleftrightarrow> (\<forall>i < length (lp_pcs s). lp_pcs s ! i \<noteq> AStart \<longrightarrow> os_streams (lp_obs s) i \<noteq> None)"

lemma streams_inv_step: "loop_step lib rnd code s (Inr s') \<Longrightarrow> streams_inv s \<Longrightarrow> streams_inv s'"
  by (erule loop_step_InrE)
    (auto simp: streams_inv_def set_pc_def at_pc_of_def nth_append nth_list_update loop_defs split: phase.splits if_splits)

lemma obs_step:
  "loop_step lib rnd code s (Inr s') \<Longrightarrow> phase_inv s \<Longrightarrow> lp_obs s' = lp_obs s \<or> osys_step (lp_obs s) (lp_obs s')"
  by (erule loop_step_InrE)
    (auto simp: phase_inv_def loop_defs split: phase.splits if_splits
      intro: osys_step.link osys_step.close osys_step.assign osys_step.observe osys_step.advance)

text \<open>The control invariants together.\<close>

definition ctl_inv :: "loop_code \<Rightarrow> msg_loop \<Rightarrow> bool" where
  "ctl_inv code s \<longleftrightarrow> phase_inv s \<and> stop_inv s \<and> spawn_inv code s \<and> wg_inv s \<and> history_inv s \<and> streams_inv s \<and>
     osys_reach (TimeVal zero_time) [] (lp_obs s)"

lemma ctl_inv_step:
  assumes "loop_step lib rnd code s (Inr s')" "ctl_inv code s"
  shows "ctl_inv code s'"
proof -
  have "osys_reach (TimeVal zero_time) [] (lp_obs s')"
    using assms obs_step [OF assms(1)] osys_reach.step by (auto simp: ctl_inv_def)
  then show ?thesis
    using assms(2) phase_inv_step [OF assms(1)] stop_inv_step [OF assms(1)] spawn_inv_step [OF assms(1)]
      wg_inv_step [OF assms(1)] history_inv_step [OF assms(1)] streams_inv_step [OF assms(1)]
    by (simp add: ctl_inv_def)
qed

lemma ctl_inv_init: "ctl_inv code (loop_init t)"
proof -
  have "osys_reach (TimeVal zero_time) [] (osys_init (TimeVal zero_time) [])"
    by (rule osys_reach.init)
  then show ?thesis
    by (simp add: ctl_inv_def phase_inv_def stop_inv_def spawn_inv_def wg_inv_def history_inv_def streams_inv_def
        loop_init_def osys_init_def NewSubject_def newState_def tot_def)
qed

lemma loop_reach_ctl: "loop_reach lib rnd code t0 s \<Longrightarrow> ctl_inv code s"
  by (induction rule: loop_reach.induct) (auto intro: ctl_inv_init ctl_inv_step)

section \<open>What is sent and counted\<close>

definition sent_pc :: "bool \<Rightarrow> agent_pc \<Rightarrow> int" where
  "sent_pc b pc = (if pc = ASent b then 1 else 0)"

definition sent_count_inv :: "msg_loop \<Rightarrow> bool" where
  "sent_count_inv s \<longleftrightarrow>
     lp_published s = wrap64 (int (length (filter sm_ok (lp_sends s))) - tot (sent_pc True) s) \<and>
     lp_failed s = wrap64 (int (length (filter (\<lambda>m. \<not> sm_ok m) (lp_sends s))) - tot (sent_pc False) s)"

lemma sent_count_inv_step: "loop_step lib rnd code s (Inr s') \<Longrightarrow> sent_count_inv s \<Longrightarrow> sent_count_inv s'"
  by (erule loop_step_InrE)
    (auto simp: sent_count_inv_def sent_pc_def pc_defs loop_defs algebra_simps split: phase.splits if_splits)

text \<open>The ticks that goroutine \<open>i\<close> has taken and that make it send are the ones it has sent on, but the last
  one while it is on its way.\<close>

fun on_the_way :: "agent_pc \<Rightarrow> tick list" where
  "on_the_way (ADecide v) = [v]"
| "on_the_way (ASend v useful t) = [v]"
| "on_the_way _ = []"

definition pc_of :: "msg_loop \<Rightarrow> nat \<Rightarrow> agent_pc" where
  "pc_of s i = (if i < length (lp_pcs s) then lp_pcs s ! i else AStart)"

definition sent_by :: "nat \<Rightarrow> msg_loop \<Rightarrow> tick list" where
  "sent_by i s = map sm_value (filter (\<lambda>m. sm_agent m = i) (lp_sends s))"

definition sends_inv :: "loop_code \<Rightarrow> msg_loop \<Rightarrow> bool" where
  "sends_inv code s \<longleftrightarrow> (\<forall>i.
     filter (\<lambda>v. lc_sends code i v = Inr True) (seen (lp_obs s) i) = sent_by i s @ on_the_way (pc_of s i) \<and>
     (pc_of s i = AStart \<longrightarrow> seen (lp_obs s) i = []))"

lemma stream_Next_Value: "stream_Next st h = Inr (v, st') \<Longrightarrow> stream_Value st' h = Inr v"
  by (auto simp: stream_Next_def stream_Value_def Let_def)

lemma sends_inv_step: "loop_step lib rnd code s (Inr s') \<Longrightarrow> sends_inv code s \<Longrightarrow> sends_inv code s'"
  by (erule loop_step_InrE)
    (auto simp: sends_inv_def sent_by_def pc_of_def set_pc_def at_pc_of_def nth_append nth_list_update loop_defs
      dest: stream_Next_Value split: phase.splits if_splits)

section \<open>Time\<close>

fun main_time :: "loop_code \<Rightarrow> int \<Rightarrow> int \<Rightarrow> main_pc \<Rightarrow> bool" where
  "main_time code begin now MSpawn = True"
| "main_time code begin now MTicker = (begin \<le> now)"
| "main_time code begin now (MClock c) = (begin \<le> c \<and> c \<le> now)"
| "main_time code begin now (MTimer c st) = (begin \<le> c \<and> c \<le> st \<and> st \<le> now)"
| "main_time code begin now (MSelect c st e) = (begin \<le> c \<and> c \<le> st \<and> st \<le> now \<and> st + lc_timeout code \<le> e)"
| "main_time code begin now (MUpdate c st e) = (begin \<le> c \<and> c \<le> st \<and> st \<le> now \<and> st + lc_timeout code \<le> e)"
| "main_time code begin now MWait = (begin \<le> now \<and> begin + lc_timeout code \<le> now)"
| "main_time code begin now (MReturned p f) = (begin \<le> now \<and> begin + lc_timeout code \<le> now)"

definition clock_inv :: "loop_code \<Rightarrow> msg_loop \<Rightarrow> bool" where
  "clock_inv code s \<longleftrightarrow> main_time code (lp_start s) (lp_now s) (lp_main s)"

lemma main_time_later: "main_time code b now m \<Longrightarrow> now \<le> t \<Longrightarrow> main_time code b t m"
  by (cases m) auto

lemma main_time_started: "main_time code b now m \<Longrightarrow> m \<noteq> MSpawn \<Longrightarrow> b \<le> now"
  by (cases m) auto

lemma clock_inv_step: "loop_step lib rnd code s (Inr s') \<Longrightarrow> clock_inv code s \<Longrightarrow> clock_inv code s'"
  by (erule loop_step_InrE)
    (auto simp: clock_inv_def main_time_later loop_defs split: phase.splits if_splits)

fun pc_useful :: "loop_code \<Rightarrow> int \<Rightarrow> agent_pc \<Rightarrow> bool" where
  "pc_useful code begin (ASend v useful t) = (useful = (t < begin + lc_log code) \<and> begin \<le> t)"
| "pc_useful code begin _ = True"

fun pc_quiet :: "agent_pc \<Rightarrow> bool" where
  "pc_quiet AStart = True"
| "pc_quiet ASelect = True"
| "pc_quiet _ = False"

definition useful_inv :: "loop_code \<Rightarrow> msg_loop \<Rightarrow> bool" where
  "useful_inv code s \<longleftrightarrow>
     (\<forall>m \<in> set (lp_sends s). sm_useful m = (sm_time m < lp_start s + lc_log code) \<and> lp_start s \<le> sm_time m) \<and>
     (\<forall>pc \<in> set (lp_pcs s). pc_useful code (lp_start s) pc) \<and>
     (lp_main s = MSpawn \<longrightarrow> (\<forall>pc \<in> set (lp_pcs s). pc_quiet pc) \<and> lp_sends s = [])"

text \<open>Before \<open>start\<close> is set nothing is published, so no stream signals a change.\<close>

lemma no_change_before_start:
  assumes "ctl_inv code s" "lp_main s = MSpawn" "os_streams (lp_obs s) i = Some st"
  shows "stream_Changes st (os_heap (lp_obs s)) = Inr False"
proof -
  have "osys_inv (lp_obs s)"
    using assms(1) by (auto simp: ctl_inv_def intro: osys_reach_inv)
  then obtain as where as: "phase_ok (lp_obs s) as" "stream_ok (lp_obs s) as i st"
    using assms(3) unfolding osys_inv_def by blast
  have "history (lp_obs s) = [TimeVal zero_time]"
    using assms(1,2) by (simp add: ctl_inv_def history_inv_def)
  then show ?thesis
    using stream_ok_advance(1) [OF as] as(2) by (simp add: stream_ok_def)
qed

lemma useful_inv_step:
  assumes step: "loop_step lib rnd code s (Inr s')" and ctl: "ctl_inv code s" and clk: "clock_inv code s" and inv: "useful_inv code s"
  shows "useful_inv code s'"
proof -
  have began: "lp_start s \<le> lp_now s" if "lp_main s \<noteq> MSpawn"
    using clk that main_time_started by (auto simp: clock_inv_def)
  have busy: "lp_main s \<noteq> MSpawn" if "at_pc_of s i pc" "\<not> pc_quiet pc" for i pc
    using inv that by (auto simp: useful_inv_def at_pc_of_def)
  have mem: "pc \<in> set (lp_pcs s)" if "at_pc_of s i pc" for i pc
    using that by (auto simp: at_pc_of_def)
  note upd = set_update_subset_insert [THEN subsetD]
  from step show ?thesis
  proof cases
    case (advance i st)
    then have "lp_main s \<noteq> MSpawn"
      using no_change_before_start [OF ctl] by auto
    with advance inv show ?thesis
      by (auto simp: useful_inv_def set_pc_def loop_defs split: if_splits dest!: upd)
  next
    case (decide i v)
    with inv busy began show ?thesis
      by (auto simp: useful_inv_def set_pc_def shouldAggregate_def dest!: upd)
  next
    case (send i v useful t uuid)
    then have "lp_main s \<noteq> MSpawn"
      using busy by fastforce
    moreover have "pc_useful code (lp_start s) (ASend v useful t)"
      using mem [OF send(2)] inv unfolding useful_inv_def by blast
    ultimately have "lp_main s \<noteq> MSpawn" "pc_useful code (lp_start s) (ASend v useful t)"
      by auto
    with send inv show ?thesis
      by (auto simp: useful_inv_def set_pc_def loop_defs dest!: upd)
  next
    case (update c st e)
    with inv show ?thesis
      by (auto simp: useful_inv_def loop_defs split: phase.splits)
  next
    case (stopped i)
    moreover have "lp_main s \<noteq> MSpawn"
      using ctl stopped by (auto simp: ctl_inv_def stop_inv_def)
    ultimately show ?thesis
      using inv by (auto simp: useful_inv_def set_pc_def split: if_splits dest!: upd)
  next
    case (set_start)
    with inv show ?thesis
      by (auto simp: useful_inv_def) (metis pc_quiet.simps pc_useful.elims(3))
  qed (use inv busy in \<open>auto simp: useful_inv_def set_pc_def loop_defs split: if_splits dest!: upd\<close>)
qed

text \<open>All invariants together, in every reachable state.\<close>

definition msg_inv :: "loop_code \<Rightarrow> msg_loop \<Rightarrow> bool" where
  "msg_inv code s \<longleftrightarrow> ctl_inv code s \<and> sent_count_inv s \<and> sends_inv code s \<and> clock_inv code s \<and> useful_inv code s"

lemma msg_inv_init: "msg_inv code (loop_init t)"
  using ctl_inv_init [of code t]
  by (simp add: msg_inv_def sent_count_inv_def sends_inv_def clock_inv_def useful_inv_def loop_init_def osys_init_def NewSubject_def
      newState_def tot_def sent_by_def pc_of_def wrap64_def)

lemma msg_inv_step: "loop_step lib rnd code s (Inr s') \<Longrightarrow> msg_inv code s \<Longrightarrow> msg_inv code s'"
  using ctl_inv_step [of lib rnd code s s'] sent_count_inv_step [of lib rnd code s s'] sends_inv_step [of lib rnd code s s']
    clock_inv_step [of lib rnd code s s'] useful_inv_step [of lib rnd code s s']
  by (simp add: msg_inv_def)

lemma loop_reach_inv: "loop_reach lib rnd code t0 s \<Longrightarrow> msg_inv code s"
  by (induction rule: loop_reach.induct) (auto intro: msg_inv_init msg_inv_step)

lemma all_exited:
  assumes "wg_inv s" "lp_wg s = 0"
  shows "\<forall>pc \<in> set (lp_pcs s). pc = AExit"
proof -
  have "sum_list (map alive (lp_pcs s)) = 0"
    using assms by (simp add: wg_inv_def tot_def)
  moreover have "\<forall>x \<in> set (map alive (lp_pcs s)). 0 \<le> x"
    by (auto simp: alive_def)
  ultimately have "\<forall>x \<in> set (map alive (lp_pcs s)). x = 0"
    using sum_list_nonneg_eq_0_iff by blast
  then have "\<forall>pc \<in> set (lp_pcs s). alive pc = 0"
    by simp
  then show ?thesis
    by (metis alive_def zero_neq_one)
qed

text \<open>Once returned, nothing but the clock moves.\<close>

definition done_inv :: "msg_loop \<Rightarrow> bool" where
  "done_inv s \<longleftrightarrow> (\<forall>p f. lp_main s = MReturned p f \<longrightarrow> lp_wg s = 0 \<and> p = lp_published s \<and> f = lp_failed s)"

lemma done_inv_step: "loop_step lib rnd code s (Inr s') \<Longrightarrow> wg_inv s \<Longrightarrow> done_inv s \<Longrightarrow> done_inv s'"
proof -
  assume step: "loop_step lib rnd code s (Inr s')" and wg: "wg_inv s" and d: "done_inv s"
  have gone: "pc = AExit" if "at_pc_of s i pc" "lp_main s = MReturned p f" for i pc p f
    using all_exited [OF wg] d that by (auto simp: done_inv_def at_pc_of_def)
  from step d show "done_inv s'"
    by (cases rule: loop_step_InrE) (auto simp: done_inv_def loop_defs dest: gone split: phase.splits if_splits)
qed

lemma loop_reach_done: "loop_reach lib rnd code t0 s \<Longrightarrow> done_inv s"
proof (induction rule: loop_reach.induct)
  case (step s s')
  then show ?case
    using done_inv_step loop_reach_ctl [OF step(1)] by (simp add: ctl_inv_def)
qed (simp add: done_inv_def loop_init_def)

section \<open>Absence of panics\<close>

definition started :: "loop_code \<Rightarrow> bool" where
  "started code \<longleftrightarrow> (\<forall>a \<in> set (lc_agents code). Host a \<noteq> None \<and> Topic a \<noteq> None)"

definition decides_durations :: "loop_code \<Rightarrow> bool" where
  "decides_durations code \<longleftrightarrow> (\<forall>i d p. lc_sends code i (DurationVal d) \<noteq> Inl p)"

lemma SendMessage_started:
  "Host a \<noteq> None \<Longrightarrow> Topic a \<noteq> None \<Longrightarrow> \<exists>err es. SendMessage lib rnd uuid t sz useful a = Inr (err, es)"
  by (auto simp: SendMessage_def Let_def split: sum.split)

lemma agent_send_started:
  assumes "started code" "i < length (lc_agents code)"
  shows "\<exists>s'. agent_send lib rnd uuid code i v useful t s = Inr s'"
  using SendMessage_started [of "lc_agents code ! i" lib rnd uuid "lp_now s" "lc_size code" useful] assms
  by (fastforce simp: agent_send_def started_def)

lemma obs_phase_ok: "ctl_inv code s \<Longrightarrow> \<exists>as. phase_ok (lp_obs s) as \<and> (\<forall>k st. os_streams (lp_obs s) k = Some st \<longrightarrow> stream_ok (lp_obs s) as k st)"
proof -
  assume "ctl_inv code s"
  then have "osys_inv (lp_obs s)"
    by (auto simp: ctl_inv_def intro: osys_reach_inv)
  then show ?thesis
    by (simp add: osys_inv_def)
qed

lemma phase_ok_load:
  assumes "phase_ok ob as" "os_phase ob = Closed"
  shows "\<exists>cl. load (os_heap ob) (subject_state (os_subject ob)) = Inr cl"
proof -
  obtain bs a where c: "chain (os_heap ob) as (history ob)" "as = bs @ [a]" "bs \<noteq> []" "subject_state (os_subject ob) = Some (last bs)"
    using assms by (auto simp: phase_ok_def)
  then show ?thesis
    using chainD(5) [OF c(1), of "length bs - 1"] by (simp add: nth_append last_conv_nth)
qed

lemma main_update_total:
  assumes "ctl_inv code s" "lp_main s = MUpdate c st e"
  shows "\<exists>s'. main_update s = Inr s'"
proof -
  obtain as where as: "phase_ok (lp_obs s) as"
    using obs_phase_ok [OF assms(1)] by blast
  show ?thesis
    using phase_ok_no_panic(2) [OF as] phase_ok_load [OF as] assms(2)
    by (cases "os_phase (lp_obs s)") (fastforce simp: main_update_def Let_def)+
qed

lemma advance_total:
  assumes "ctl_inv code s" "decides_durations code" "os_streams (lp_obs s) i = Some st" "stream_Changes st (os_heap (lp_obs s)) = Inr True"
  shows "\<exists>s'. agent_advance code i st s = Inr s'"
proof -
  let ?ob = "lp_obs s"
  let ?n = "start ?ob i + length (seen ?ob i)"
  obtain as where as: "phase_ok ?ob as" "stream_ok ?ob as i st"
    using obs_phase_ok [OF assms(1)] assms(3) by blast
  have n: "?n < length (history ?ob)"
    using stream_ok_advance(1) [OF as] assms(4) by simp
  then obtain st' where nxt: "stream_Next st (os_heap ?ob) = Inr (history ?ob ! ?n, st')"
    using stream_ok_advance(2) [OF as] by blast
  obtain m where m: "?n = Suc m"
    using as(2) by (cases ?n) (auto simp: stream_ok_def)
  then have "history ?ob ! ?n = tl (history ?ob) ! m" "m < length (tl (history ?ob))"
    using n by (simp_all add: nth_tl)
  moreover have "list_all is_duration (tl (history ?ob))"
    using assms(1) by (simp add: ctl_inv_def history_inv_def)
  ultimately obtain d where "history ?ob ! ?n = DurationVal d"
    by (metis is_duration.elims(2) list_all_length)
  then show ?thesis
    using nxt stream_Next_Value [OF nxt] assms(2)
    by (cases "lc_sends code i (DurationVal d)") (auto simp: agent_advance_def decides_durations_def Let_def simp del: go_bind_Inr_iff)
qed

lemma alive_wg:
  assumes "wg_inv s" "at_pc_of s i pc" "pc \<noteq> AExit"
  shows "0 < lp_wg s"
proof -
  have "sum_list (map alive ((lp_pcs s)[i := AExit])) = lp_wg s - 1"
    using assms pcs_sum_update [of i "lp_pcs s" pc alive AExit] by (simp add: wg_inv_def tot_def at_pc_of_def alive_def)
  moreover have "0 \<le> sum_list (map alive pcs)" for pcs
    by (rule sum_list_nonneg) (auto simp: alive_def)
  ultimately show ?thesis
    by (metis diff_ge_0_iff_ge int_one_le_iff_zero_less)
qed

lemma no_panic:
  assumes "ctl_inv code s" "started code" "decides_durations code" "0 < lc_rate code" "loop_step lib rnd code s (Inl p)"
  shows False
  using assms(5)
proof cases
  case (tick c st e t elapsed)
  obtain as where as: "phase_ok (lp_obs s) as"
    using obs_phase_ok [OF assms(1)] by blast
  moreover have "os_phase (lp_obs s) = Idle"
    using assms(1) tick by (simp add: ctl_inv_def phase_inv_def)
  ultimately show ?thesis
    using phase_ok_no_panic(1) [of "lp_obs s" as elapsed] tick by auto
next
  case (update c st e)
  then show ?thesis
    using main_update_total [OF assms(1)] by fastforce
next
  case (timeout c st e)
  then show ?thesis
    using assms(1) by (auto simp: ctl_inv_def stop_inv_def split: if_splits)
next
  case (stopped i)
  then show ?thesis
    using alive_wg [of s i ASelect] assms(1) by (auto simp: ctl_inv_def split: if_splits)
next
  case (advance i st)
  then show ?thesis
    using advance_total [OF assms(1,3)] by fastforce
next
  case (send i v useful t uuid)
  then have "i < length (lc_agents code)"
    using assms(1) by (auto simp: ctl_inv_def spawn_inv_def at_pc_of_def)
  then show ?thesis
    using agent_send_started [OF assms(2), of i lib rnd uuid v useful t s] send(1) by force
qed (use assms(4) in \<open>auto split: if_splits\<close>)

section \<open>Completion\<close>

fun agent_rank :: "agent_pc \<Rightarrow> int" where
  "agent_rank AStart = 6"
| "agent_rank (ADecide v) = 5"
| "agent_rank (ASend v useful t) = 4"
| "agent_rank (ASent b) = 3"
| "agent_rank ASelect = 2"
| "agent_rank AExit = 0"

fun main_rank :: "nat \<Rightarrow> tick phase \<Rightarrow> int \<Rightarrow> main_pc \<Rightarrow> int" where
  "main_rank k ph now MSpawn = 100 + 10 * int k"
| "main_rank k ph now MTicker = 90"
| "main_rank k ph now (MClock c) = 80"
| "main_rank k ph now (MTimer c st) = 70"
| "main_rank k ph now (MUpdate c st e) = (if ph = Closed then 60 else 61)"
| "main_rank k ph now (MSelect c st e) = (if e \<le> now then 50 else 51)"
| "main_rank k ph now MWait = 10"
| "main_rank k ph now (MReturned p f) = 0"

definition loop_rank :: "loop_code \<Rightarrow> msg_loop \<Rightarrow> int" where
  "loop_rank code s = main_rank (length (lc_agents code) - length (lp_pcs s)) (os_phase (lp_obs s)) (lp_now s) (lp_main s) + tot agent_rank s"

lemma main_rank_nonneg: "0 \<le> main_rank k ph now m"
  by (cases m) auto

lemma agent_rank_nonneg: "0 \<le> agent_rank pc"
  by (cases pc) auto

lemma loop_rank_nonneg: "0 \<le> loop_rank code s"
  by (auto simp: loop_rank_def tot_def agent_rank_nonneg intro!: add_nonneg_nonneg main_rank_nonneg sum_list_nonneg)

lemma agent_progress:
  assumes ctl: "ctl_inv code s" and st: "started code" and pc: "at_pc_of s i pc" "pc \<noteq> AExit" and w: "lp_main s = MWait"
  shows "\<exists>s'. loop_step lib rnd code s (Inr s') \<and> loop_rank code s' < loop_rank code s"
proof (cases pc)
  case AStart
  have "os_phase (lp_obs s) = Idle"
    using ctl w by (simp add: ctl_inv_def phase_inv_def)
  from loop_step.observe [OF pc(1) [unfolded AStart] this, of lib rnd code] pc AStart show ?thesis
    by (intro exI conjI) (assumption, auto simp: loop_rank_def pc_defs w)
next
  case ASelect
  have "lp_stop s" "0 < lp_wg s"
    using ctl w alive_wg [OF _ pc] by (auto simp: ctl_inv_def stop_inv_def)
  then have "loop_step lib rnd code s (Inr ((set_pc i AExit s)\<lparr>lp_wg := lp_wg s - 1\<rparr>))"
    using loop_step.stopped [OF pc(1) [unfolded ASelect], of lib rnd code] by simp
  then show ?thesis
    using pc ASelect by (intro exI conjI) (assumption, auto simp: loop_rank_def pc_defs w)
next
  case (ADecide v)
  from loop_step.decide [OF pc(1) [unfolded ADecide], of lib rnd code] pc ADecide show ?thesis
    by (intro exI conjI) (assumption, auto simp: loop_rank_def pc_defs w)
next
  case (ASend v useful t)
  have "i < length (lc_agents code)"
    using ctl pc(1) by (auto simp: ctl_inv_def spawn_inv_def at_pc_of_def)
  then obtain s' where s': "agent_send lib rnd (replicate 16 0) code i v useful t s = Inr s'"
    using agent_send_started [OF st] by blast
  then have "loop_step lib rnd code s (Inr s')"
    using loop_step.send [OF pc(1) [unfolded ASend], of "replicate 16 0" lib rnd code] by simp
  moreover have "loop_rank code s' < loop_rank code s"
    using s' pc ASend by (elim agent_send_cases) (auto simp: loop_rank_def pc_defs w)
  ultimately show ?thesis
    by blast
next
  case (ASent b)
  have "\<exists>s'. loop_step lib rnd code s (Inr s') \<and> lp_pcs s' = (lp_pcs s)[i := ASelect] \<and> lp_main s' = MWait"
    using loop_step.count_published [of s i lib rnd code] loop_step.count_failed [of s i lib rnd code] pc(1) ASent w
    by (cases b) (fastforce simp: set_pc_def)+
  then show ?thesis
    using pc ASent by (fastforce simp: loop_rank_def pc_defs w)
qed (use pc in simp)

lemma waiting_progress:
  assumes "ctl_inv code s" "started code" "lp_main s = MWait"
  shows "\<exists>s'. loop_step lib rnd code s (Inr s') \<and> loop_rank code s' < loop_rank code s"
proof (cases "\<forall>pc \<in> set (lp_pcs s). pc = AExit")
  case True
  then have "map alive (lp_pcs s) = map (\<lambda>_. 0) (lp_pcs s)"
    by (auto simp: alive_def)
  then have "lp_wg s = 0"
    using assms(1) by (simp add: ctl_inv_def wg_inv_def tot_def del: map_eq_conv)
  from loop_step.loop_returns [OF assms(3) this, of lib rnd code] show ?thesis
    by (intro exI conjI) (assumption, auto simp: loop_rank_def tot_def assms(3))
next
  case False
  then obtain i where "i < length (lp_pcs s)" "lp_pcs s ! i \<noteq> AExit"
    by (auto simp: in_set_conv_nth)
  then show ?thesis
    using agent_progress [OF assms(1,2) _ _ assms(3), of i "lp_pcs s ! i"] by (auto simp: at_pc_of_def)
qed

lemma main_progress:
  assumes ctl: "ctl_inv code s" and r: "0 < lc_rate code" and m: "\<not> waiting (lp_main s)"
  shows "\<exists>s'. loop_step lib rnd code s (Inr s') \<and> loop_rank code s' < loop_rank code s"
proof (cases "lp_main s")
  case MSpawn
  then show ?thesis
    using loop_step.spawn [of s code lib rnd] loop_step.set_start [of s code lib rnd]
    by (cases "length (lp_pcs s) < length (lc_agents code)") (force simp: loop_rank_def tot_def)+
next
  case MTicker
  then show ?thesis
    using loop_step.new_ticker [of s lib rnd code] r by (force simp: loop_rank_def tot_def)
next
  case (MClock c)
  then show ?thesis
    using loop_step.read_clock [of s c lib rnd code] by (force simp: loop_rank_def tot_def)
next
  case (MTimer c st)
  then show ?thesis
    using loop_step.new_timer [of s c st lib rnd code] by (force simp: loop_rank_def tot_def)
next
  case (MSelect c st e)
  have "\<not> lp_stop s"
    using ctl MSelect by (simp add: ctl_inv_def stop_inv_def)
  then show ?thesis
    using loop_step.timeout [of s c st e lib rnd code] loop_step.clock [of s e lib rnd code] MSelect
    by (cases "e \<le> lp_now s") (force simp: loop_rank_def tot_def)+
next
  case (MUpdate c st e)
  obtain s' where s': "main_update s = Inr s'"
    using main_update_total [OF ctl MUpdate] by blast
  have "os_phase (lp_obs s) \<noteq> Idle"
    using ctl MUpdate by (simp add: ctl_inv_def phase_inv_def)
  then have "loop_rank code s' < loop_rank code s"
    by (rule main_update_cases [OF s' MUpdate]) (simp_all add: loop_rank_def tot_def MUpdate)
  then show ?thesis
    using loop_step.update [OF MUpdate, of lib rnd code] s' by auto
qed (use m in auto)

lemma loop_completes:
  assumes "ctl_inv code s" "started code" "0 < lc_rate code"
  shows "\<exists>s' p f. loop_path lib rnd code s s' \<and> lp_main s' = MReturned p f"
  using assms(1)
proof (induction "nat (loop_rank code s)" arbitrary: s rule: less_induct)
  case less
  show ?case
  proof (cases "\<exists>p f. lp_main s = MReturned p f")
    case False
    then have "lp_main s = MWait \<or> \<not> waiting (lp_main s)"
      by (cases "lp_main s") simp_all
    then obtain s' where s': "loop_step lib rnd code s (Inr s')" "loop_rank code s' < loop_rank code s"
      using main_progress [OF less.prems assms(3), of lib rnd] waiting_progress [OF less.prems assms(2), of lib rnd] by meson
    moreover have "nat (loop_rank code s') < nat (loop_rank code s)"
      using s'(2) loop_rank_nonneg [of code s'] by linarith
    ultimately show ?thesis
      using less.hyps [OF _ ctl_inv_step [OF s'(1) less.prems]] by (blast intro: converse_rtranclp_into_rtranclp)
  qed blast
qed

section \<open>Executing a schedule\<close>

text \<open>The step relation as an interpreter of actions, to run concrete schedules: \<open>None\<close> when the action is not
  possible.\<close>

datatype action =
    Clock int | Spawn | SetStart | NewTicker | ReadClock | NewTimer | Tick int | UpdateWrite | TimeoutFires | Return
  | Observe nat | Stopped nat | Advance nat | Decide nat | Send nat "byte list" | CountSent nat

fun act :: "libp2p \<Rightarrow> (nat \<Rightarrow> byte) \<Rightarrow> loop_code \<Rightarrow> action \<Rightarrow> msg_loop \<Rightarrow> msg_loop go option" where
  "act lib rnd code (Clock t) s = (if lp_now s \<le> t then Some (Inr (s\<lparr>lp_now := t\<rparr>)) else None)"
| "act lib rnd code Spawn s = (if lp_main s = MSpawn \<and> length (lp_pcs s) < length (lc_agents code)
     then Some (Inr (s\<lparr>lp_pcs := lp_pcs s @ [AStart], lp_wg := lp_wg s + 1\<rparr>)) else None)"
| "act lib rnd code SetStart s = (if lp_main s = MSpawn \<and> \<not> length (lp_pcs s) < length (lc_agents code)
     then Some (Inr (s\<lparr>lp_start := lp_now s, lp_main := MTicker\<rparr>)) else None)"
| "act lib rnd code NewTicker s = (if lp_main s = MTicker
     then Some (if lc_rate code \<le> 0 then Inl (Explicit ''non-positive interval for NewTicker'')
                else Inr (s\<lparr>lp_main := MClock (lp_now s)\<rparr>)) else None)"
| "act lib rnd code ReadClock s = (case lp_main s of MClock c \<Rightarrow> Some (Inr (s\<lparr>lp_main := MTimer c (lp_now s)\<rparr>)) | _ \<Rightarrow> None)"
| "act lib rnd code NewTimer s =
     (case lp_main s of MTimer c st \<Rightarrow> Some (Inr (s\<lparr>lp_main := MSelect c st (lp_now s + lc_timeout code)\<rparr>)) | _ \<Rightarrow> None)"
| "act lib rnd code (Tick t) s =
     (case lp_main s of MSelect c st e \<Rightarrow>
        if c + lc_rate code \<le> t \<and> t \<le> lp_now s
        then Some (let elapsed = DurationVal (time_Sub t st)
          in go_bind (state_link (subject_state (os_subject (lp_obs s))) elapsed (os_heap (lp_obs s))) (\<lambda>h.
               Inr (s\<lparr>lp_obs := (lp_obs s)\<lparr>os_heap := h, os_phase := Linked elapsed\<rparr>, lp_main := MUpdate c st e\<rparr>)))
        else None | _ \<Rightarrow> None)"
| "act lib rnd code UpdateWrite s = (case lp_main s of MUpdate c st e \<Rightarrow> Some (main_update s) | _ \<Rightarrow> None)"
| "act lib rnd code TimeoutFires s =
     (case lp_main s of MSelect c st e \<Rightarrow> if e \<le> lp_now s
        then Some (if lp_stop s then Inl CloseOfClosedChannel else Inr (s\<lparr>lp_stop := True, lp_main := MWait\<rparr>)) else None | _ \<Rightarrow> None)"
| "act lib rnd code Return s = (if lp_main s = MWait \<and> lp_wg s = 0
     then Some (Inr (s\<lparr>lp_main := MReturned (lp_published s) (lp_failed s)\<rparr>)) else None)"
| "act lib rnd code (Observe i) s = (if at_pc_of s i AStart \<and> os_phase (lp_obs s) = Idle
     then Some (Inr ((set_pc i ASelect s)\<lparr>lp_obs := (lp_obs s)\<lparr>
      os_streams := (os_streams (lp_obs s))(i \<mapsto> subject_Observe (os_subject (lp_obs s), os_heap (lp_obs s))),
      start := (start (lp_obs s))(i := length (history (lp_obs s))), seen := (seen (lp_obs s))(i := [])\<rparr>\<rparr>)) else None)"
| "act lib rnd code (Stopped i) s = (if at_pc_of s i ASelect \<and> lp_stop s
     then Some (if lp_wg s \<le> 0 then Inl NegativeWaitGroup else Inr ((set_pc i AExit s)\<lparr>lp_wg := lp_wg s - 1\<rparr>)) else None)"
| "act lib rnd code (Advance i) s =
     (case os_streams (lp_obs s) i of None \<Rightarrow> None
      | Some st \<Rightarrow> if at_pc_of s i ASelect \<and> stream_Changes st (os_heap (lp_obs s)) = Inr True
                   then Some (agent_advance code i st s) else None)"
| "act lib rnd code (Decide i) s =
     (case pc_of s i of ADecide v \<Rightarrow>
        Some (Inr (set_pc i (ASend v (shouldAggregate (lp_now s) (lp_start s) (lc_log code)) (lp_now s)) s)) | _ \<Rightarrow> None)"
| "act lib rnd code (Send i uuid) s =
     (case pc_of s i of ASend v useful t \<Rightarrow>
        if length uuid = 16 then Some (agent_send lib rnd uuid code i v useful t s) else None | _ \<Rightarrow> None)"
| "act lib rnd code (CountSent i) s =
     (case pc_of s i of ASent b \<Rightarrow>
        Some (Inr (if b then (set_pc i ASelect s)\<lparr>lp_published := wrap64 (lp_published s + 1)\<rparr>
                   else (set_pc i ASelect s)\<lparr>lp_failed := wrap64 (lp_failed s + 1)\<rparr>)) | _ \<Rightarrow> None)"

lemma act_step: "act lib rnd code a s = Some r \<Longrightarrow> loop_step lib rnd code s r"
proof (cases a)
  case NewTicker
  then show "act lib rnd code a s = Some r \<Longrightarrow> loop_step lib rnd code s r"
    using loop_step.new_ticker [of s lib rnd code] by (auto split: if_splits)
next
  case TimeoutFires
  then show "act lib rnd code a s = Some r \<Longrightarrow> loop_step lib rnd code s r"
    using loop_step.timeout [of s _ _ _ lib rnd code] by (auto split: if_splits main_pc.splits)
next
  case (Stopped i)
  then show "act lib rnd code a s = Some r \<Longrightarrow> loop_step lib rnd code s r"
    using loop_step.stopped [of s i lib rnd code] by (auto split: if_splits)
qed (auto simp: pc_of_def at_pc_of_def Let_def intro: loop_step.intros split: if_splits main_pc.splits agent_pc.splits option.splits)

primrec run :: "libp2p \<Rightarrow> (nat \<Rightarrow> byte) \<Rightarrow> loop_code \<Rightarrow> action list \<Rightarrow> msg_loop \<Rightarrow> msg_loop option" where
  "run lib rnd code [] s = Some s"
| "run lib rnd code (a # as) s = (case act lib rnd code a s of Some (Inr s') \<Rightarrow> run lib rnd code as s' | _ \<Rightarrow> None)"

lemma run_reach: "run lib rnd code as s = Some s' \<Longrightarrow> loop_reach lib rnd code t0 s \<Longrightarrow> loop_reach lib rnd code t0 s'"
  by (induction as arbitrary: s) (auto split: option.splits sum.splits dest: act_step intro: loop_reach.step)

section \<open>Until the timeout\<close>

lemma runs_until_timeout:
  assumes "loop_reach lib rnd code t0 s" "lp_stop s \<or> AExit \<in> set (lp_pcs s) \<or> waiting (lp_main s)"
  shows "lp_start s + lc_timeout code \<le> lp_now s"
proof -
  have inv: "ctl_inv code s" "clock_inv code s"
    using loop_reach_inv [OF assms(1)] by (simp_all add: msg_inv_def)
  then have "waiting (lp_main s)"
    using assms(2) by (auto simp: ctl_inv_def stop_inv_def)
  then show ?thesis
    using inv(2) by (cases "lp_main s") (auto simp: clock_inv_def)
qed

text \<open>The three writes of an \<open>Update\<close>, one after the other.\<close>

lemma tick_published:
  assumes ctl: "ctl_inv code s" and m: "lp_main s = MSelect c st e" and due: "c + lc_rate code \<le> lp_now s"
  shows "\<exists>s'. loop_path lib rnd code s s' \<and> lp_cancelled s' = lp_cancelled s \<and>
    history (lp_obs s') = history (lp_obs s) @ [DurationVal (time_Sub (lp_now s) st)]"
proof -
  let ?v = "DurationVal (time_Sub (lp_now s) st)" and ?ob = "lp_obs s"
  obtain as where as: "phase_ok ?ob as" "os_phase ?ob = Idle"
    using obs_phase_ok [OF ctl] ctl m by (auto simp: ctl_inv_def phase_inv_def)
  then obtain h where h: "state_link (subject_state (os_subject ?ob)) ?v (os_heap ?ob) = Inr h"
    using phase_ok_no_panic(1) [OF as] by blast
  let ?s1 = "s\<lparr>lp_obs := ?ob\<lparr>os_heap := h, os_phase := Linked ?v\<rparr>, lp_main := MUpdate c st e\<rparr>"
  have s1: "loop_step lib rnd code s (Inr ?s1)"
    using loop_step.tick [OF m due order_refl refl, of lib rnd] h by simp
  then have ctl1: "ctl_inv code ?s1"
    using ctl_inv_step ctl by blast
  then obtain s2 where s2: "main_update ?s1 = Inr s2"
    using main_update_total [OF ctl1] by auto
  then have "loop_step lib rnd code ?s1 (Inr s2)"
    using loop_step.update [of ?s1 c st e lib rnd code] by simp
  moreover have "history (lp_obs s2) = history ?ob @ [?v]" "lp_cancelled s2 = lp_cancelled s"
    using s2 by (auto simp: main_update_def Let_def)
  ultimately show ?thesis
    using s1 by (blast intro: rtranclp.rtrancl_into_rtrancl rtranclp.rtrancl_refl)
qed

section \<open>Catching up\<close>

text \<open>The steps by which an agent deals with the ticks that are published but that it has not sent on yet.\<close>

fun pc_lag :: "agent_pc \<Rightarrow> nat" where
  "pc_lag (ADecide v) = 3"
| "pc_lag (ASend v useful t) = 2"
| "pc_lag (ASent b) = 1"
| "pc_lag _ = 0"

definition agent_lag :: "msg_loop \<Rightarrow> nat \<Rightarrow> nat" where
  "agent_lag s i = 4 * (length (history (lp_obs s)) - (start (lp_obs s) i + length (seen (lp_obs s) i))) + pc_lag (lp_pcs s ! i)"

definition lag :: "msg_loop \<Rightarrow> nat" where
  "lag s = (\<Sum>i \<in> {i. i < length (lp_pcs s) \<and> lp_pcs s ! i \<noteq> AStart}. agent_lag s i)"

text \<open>What such steps keep: no tick is published, no time passes, and only the goroutine \<open>i\<close> moves.\<close>

definition only_agent :: "nat \<Rightarrow> msg_loop \<Rightarrow> msg_loop \<Rightarrow> bool" where
  "only_agent i s s' \<longleftrightarrow> history (lp_obs s') = history (lp_obs s) \<and> start (lp_obs s') = start (lp_obs s) \<and> lp_now s' = lp_now s \<and>
     lp_stop s' = lp_stop s \<and> length (lp_pcs s') = length (lp_pcs s) \<and> (lp_pcs s' ! i \<noteq> AStart) \<and>
     (\<forall>j. j \<noteq> i \<longrightarrow> lp_pcs s' ! j = lp_pcs s ! j \<and> seen (lp_obs s') j = seen (lp_obs s) j)"

lemma lag_decreases:
  assumes "only_agent i s s'" "i < length (lp_pcs s)" "lp_pcs s ! i \<noteq> AStart" "agent_lag s' i < agent_lag s i"
  shows "lag s' < lag s"
proof -
  have "{j. j < length (lp_pcs s') \<and> lp_pcs s' ! j \<noteq> AStart} = {j. j < length (lp_pcs s) \<and> lp_pcs s ! j \<noteq> AStart}" (is "?A' = ?A")
    using assms(1,3) unfolding only_agent_def by metis
  moreover have "(\<Sum>j \<in> ?A. agent_lag s' j) < (\<Sum>j \<in> ?A. agent_lag s j)"
  proof (rule sum_strict_mono_ex1)
    have "agent_lag s' j = agent_lag s j" if "j \<noteq> i" for j
      using assms(1) that by (simp add: only_agent_def agent_lag_def)
    then show "\<forall>j \<in> ?A. agent_lag s' j \<le> agent_lag s j"
      using assms(4) by (metis less_imp_le order_refl)
    show "\<exists>j \<in> ?A. agent_lag s' j < agent_lag s j"
      using assms(2-4) by auto
  qed simp
  ultimately show ?thesis
    by (simp add: lag_def)
qed

lemma lagging_agent_moves:
  assumes ctl: "ctl_inv code s" and st: "started code" and dec: "decides_durations code"
    and i: "i < length (lp_pcs s)" "lp_pcs s ! i \<noteq> AStart" and behind: "\<not> lp_stop s" "agent_lag s i \<noteq> 0"
  shows "\<exists>s'. loop_step lib rnd code s (Inr s') \<and> only_agent i s s' \<and> agent_lag s' i < agent_lag s i"
proof (cases "lp_pcs s ! i")
  case ASelect
  obtain stm where stm: "os_streams (lp_obs s) i = Some stm"
    using ctl i by (auto simp: ctl_inv_def streams_inv_def)
  then obtain as where as: "phase_ok (lp_obs s) as" "stream_ok (lp_obs s) as i stm"
    using obs_phase_ok [OF ctl] by blast
  have unread: "start (lp_obs s) i + length (seen (lp_obs s) i) < length (history (lp_obs s))"
    using behind(2) ASelect by (simp add: agent_lag_def)
  then have ch: "stream_Changes stm (os_heap (lp_obs s)) = Inr True"
    using stream_ok_advance(1) [OF as] by simp
  obtain s' where s': "agent_advance code i stm s = Inr s'"
    using advance_total [OF ctl dec stm ch] by blast
  then have "only_agent i s s' \<and> agent_lag s' i < agent_lag s i"
    by (rule agent_advance_cases) (use unread ASelect i in \<open>auto simp: only_agent_def agent_lag_def set_pc_def Let_def\<close>)
  then show ?thesis
    using loop_step.advance [of s i stm lib rnd code] stm ch s' ASelect i(1) by (auto simp: at_pc_of_def)
next
  case (ADecide v)
  then show ?thesis
    using loop_step.decide [of s i v lib rnd code] i(1)
    by (intro exI conjI) (auto simp: at_pc_of_def only_agent_def agent_lag_def set_pc_def)
next
  case (ASend v useful t)
  have "i < length (lc_agents code)"
    using ctl i(1) by (auto simp: ctl_inv_def spawn_inv_def)
  then obtain s' where s': "agent_send lib rnd (replicate 16 0) code i v useful t s = Inr s'"
    using agent_send_started [OF st] by blast
  then have "only_agent i s s' \<and> agent_lag s' i < agent_lag s i"
    by (rule agent_send_cases) (use ASend i in \<open>auto simp: only_agent_def agent_lag_def set_pc_def\<close>)
  then show ?thesis
    using loop_step.send [of s i v useful t "replicate 16 0" lib rnd code] s' ASend i(1) by (auto simp: at_pc_of_def)
next
  case (ASent b)
  let ?p = "(set_pc i ASelect s)\<lparr>lp_published := wrap64 (lp_published s + 1)\<rparr>" and ?f = "(set_pc i ASelect s)\<lparr>lp_failed := wrap64 (lp_failed s + 1)\<rparr>"
  have "loop_step lib rnd code s (Inr (if b then ?p else ?f))"
    using ASent i(1) loop_step.count_published [of s i lib rnd code] loop_step.count_failed [of s i lib rnd code] by (simp add: at_pc_of_def)
  moreover have "only_agent i s (if b then ?p else ?f) \<and> agent_lag (if b then ?p else ?f) i < agent_lag s i"
    using ASent i by (auto simp: only_agent_def agent_lag_def set_pc_def)
  ultimately show ?thesis
    by blast
next
  case AExit
  then show ?thesis
    using ctl behind(1) i(1) by (auto simp: ctl_inv_def stop_inv_def in_set_conv_nth)
qed (use i(2) in simp)

lemma agents_catch_up:
  assumes "ctl_inv code s" "started code" "decides_durations code" "\<not> lp_stop s"
  shows "\<exists>s'. loop_path lib rnd code s s' \<and> history (lp_obs s') = history (lp_obs s) \<and> start (lp_obs s') = start (lp_obs s) \<and>
    lp_now s' = lp_now s \<and> \<not> lp_stop s' \<and> length (lp_pcs s') = length (lp_pcs s) \<and>
    (\<forall>i < length (lp_pcs s). lp_pcs s ! i \<noteq> AStart \<longrightarrow> lp_pcs s' ! i \<noteq> AStart \<and> agent_lag s' i = 0)"
  using assms(1,4)
proof (induction "lag s" arbitrary: s rule: less_induct)
  case less
  show ?case
  proof (cases "\<forall>i < length (lp_pcs s). lp_pcs s ! i \<noteq> AStart \<longrightarrow> agent_lag s i = 0")
    case False
    then obtain i where i: "i < length (lp_pcs s)" "lp_pcs s ! i \<noteq> AStart" "agent_lag s i \<noteq> 0"
      by blast
    obtain s1 where s1: "loop_step lib rnd code s (Inr s1)" "only_agent i s s1" "agent_lag s1 i < agent_lag s i"
      using lagging_agent_moves [OF less.prems(1) assms(2,3) i(1,2) less.prems(2) i(3)] by blast
    have keeps: "lp_pcs s1 ! j \<noteq> AStart" if "lp_pcs s ! j \<noteq> AStart" for j
      using s1(2) that by (cases "j = i") (auto simp: only_agent_def)
    have "\<not> lp_stop s1"
      using s1(2) less.prems(2) by (simp add: only_agent_def)
    from less.hyps [OF lag_decreases [OF s1(2) i(1,2) s1(3)] ctl_inv_step [OF s1(1) less.prems(1)] this] obtain s' where
      "loop_path lib rnd code s1 s'" "history (lp_obs s') = history (lp_obs s1)" "start (lp_obs s') = start (lp_obs s1)"
      "lp_now s' = lp_now s1" "\<not> lp_stop s'" "length (lp_pcs s') = length (lp_pcs s1)"
      "\<forall>i < length (lp_pcs s1). lp_pcs s1 ! i \<noteq> AStart \<longrightarrow> lp_pcs s' ! i \<noteq> AStart \<and> agent_lag s' i = 0"
      by blast
    then show ?thesis
      using s1(1,2) keeps by (intro exI [of _ s'] conjI converse_rtranclp_into_rtranclp [of _ s s1]) (auto simp: only_agent_def)
  qed (use less.prems(2) in blast)
qed

text \<open>An agent that is not behind has sent on every tick it should have sent on.\<close>

lemma not_behind_sent:
  assumes ctl: "ctl_inv code s" and inv: "sends_inv code s" and i: "i < length (lp_pcs s)" "lp_pcs s ! i \<noteq> AStart" "agent_lag s i = 0"
  shows "sent_by i s = filter (\<lambda>v. lc_sends code i v = Inr True) (drop (start (lp_obs s) i) (history (lp_obs s)))"
proof -
  obtain stm where "os_streams (lp_obs s) i = Some stm"
    using ctl i by (auto simp: ctl_inv_def streams_inv_def)
  then obtain as where as: "phase_ok (lp_obs s) as" "stream_ok (lp_obs s) as i stm"
    using obs_phase_ok [OF ctl] by blast
  have "length (history (lp_obs s)) \<le> start (lp_obs s) i + length (seen (lp_obs s) i)"
    using i(3) by (simp add: agent_lag_def)
  then have "seen (lp_obs s) i = drop (start (lp_obs s) i) (history (lp_obs s))"
    using as(2) by (metis diff_le_self le_diff_conv length_drop stream_ok_def take_all add.commute)
  moreover have "on_the_way (pc_of s i) = []"
    using i by (cases "lp_pcs s ! i") (auto simp: pc_of_def agent_lag_def)
  moreover have "filter (\<lambda>v. lc_sends code i v = Inr True) (seen (lp_obs s) i) = sent_by i s @ on_the_way (pc_of s i)"
    using inv by (simp add: sends_inv_def)
  ultimately show ?thesis
    by simp
qed

lemma ticks_in_order:
  assumes "ctl_inv code s" "sends_inv code s" "i < length (lp_pcs s)" "lp_pcs s ! i \<noteq> AStart"
  shows "\<exists>rest. filter (\<lambda>v. lc_sends code i v = Inr True) (drop (start (lp_obs s) i) (history (lp_obs s))) = sent_by i s @ rest"
proof -
  obtain stm where "os_streams (lp_obs s) i = Some stm"
    using assms by (auto simp: ctl_inv_def streams_inv_def)
  then obtain as where "phase_ok (lp_obs s) as" "stream_ok (lp_obs s) as i stm"
    using obs_phase_ok [OF assms(1)] by blast
  then obtain rest where "drop (start (lp_obs s) i) (history (lp_obs s)) = seen (lp_obs s) i @ rest"
    using stream_ok_rest by blast
  then show ?thesis
    using assms(2) by (auto simp: sends_inv_def)
qed

section \<open>Properties\<close>

lemma constant_rate_started: "started (constant_rate_code c agents) \<longleftrightarrow> (\<forall>a \<in> set agents. Host a \<noteq> None \<and> Topic a \<noteq> None)"
  by (simp add: started_def constant_rate_code_def)

lemma constant_rate_decides: "decides_durations (constant_rate_code c agents)"
  by (simp add: decides_durations_def constant_rate_code_def)

lemma hotstuff_code_facts:
  assumes "hotstuff_code h n agents = Inr code"
  shows "mset (lc_agents code) = mset agents" "decides_durations code" "lc_rate code = second"
    "lc_agents code ! 0 = agents ! (n mod length agents)" "lc_log code = h_LogDuration h" "lc_timeout code = h_Timeout h"
    "lc_sends code i (DurationVal d) = Inr (if i = 0 then \<not> onEvenSecond d else onEvenSecond d)"
proof -
  let ?k = "n mod length agents"
  have k: "?k < length agents" and ne: "agents \<noteq> []"
    using assms by (auto simp: hotstuff_code_def split: if_splits)
  have "mset agents = mset (take ?k agents @ agents ! ?k # drop (?k + 1) agents)"
    using id_take_nth_drop [OF k] by simp
  then show "mset (lc_agents code) = mset agents" "decides_durations code" "lc_rate code = second"
    "lc_agents code ! 0 = agents ! ?k" "lc_log code = h_LogDuration h" "lc_timeout code = h_Timeout h"
    "lc_sends code i (DurationVal d) = Inr (if i = 0 then \<not> onEvenSecond d else onEvenSecond d)"
    using assms ne k by (auto simp: hotstuff_code_def decides_durations_def Let_def)
qed

lemma returned_result:
  assumes "loop_reach lib rnd code t0 s" "lp_main s = MReturned p f" "length (lp_sends s) < 2 ^ 63"
  shows "p = int (length (filter sm_ok (lp_sends s)))" "f = int (length (filter (\<lambda>m. \<not> sm_ok m) (lp_sends s)))"
    "lp_pcs s = replicate (length (lc_agents code)) AExit"
proof -
  have inv: "ctl_inv code s" "sent_count_inv s"
    using loop_reach_inv [OF assms(1)] by (simp_all add: msg_inv_def)
  have d: "lp_wg s = 0" "p = lp_published s" "f = lp_failed s"
    using loop_reach_done [OF assms(1)] assms(2) by (simp_all add: done_inv_def)
  have exited: "\<forall>pc \<in> set (lp_pcs s). pc = AExit"
    using all_exited [of s] d(1) inv(1) by (simp add: ctl_inv_def)
  then have "map (sent_pc b) (lp_pcs s) = map (\<lambda>_. 0) (lp_pcs s)" for b
    by (auto simp: sent_pc_def)
  then have "tot (sent_pc b) s = 0" for b
    by (simp add: tot_def del: map_eq_conv)
  moreover have "wrap64 (int (length (filter P (lp_sends s)))) = int (length (filter P (lp_sends s)))" for P
    using le_less_trans [OF length_filter_le assms(3)] by (intro wrap64_id) auto
  ultimately show "p = int (length (filter sm_ok (lp_sends s)))" "f = int (length (filter (\<lambda>m. \<not> sm_ok m) (lp_sends s)))"
    using inv(2) d by (simp_all add: sent_count_inv_def)
  have "length (lp_pcs s) = length (lc_agents code)"
    using inv(1) assms(2) by (simp add: ctl_inv_def spawn_inv_def)
  then show "lp_pcs s = replicate (length (lc_agents code)) AExit"
    using exited by (metis replicate_length_same)
qed

lemma returned_streams:
  assumes "loop_reach lib rnd code t0 s" "lp_main s = MReturned p f" "i < length (lc_agents code)"
  shows "sent_by i s = filter (\<lambda>v. lc_sends code i v = Inr True) (seen (lp_obs s) i)"
    "\<exists>rest. drop (start (lp_obs s) i) (history (lp_obs s)) = seen (lp_obs s) i @ rest"
    "\<forall>v \<in> set (seen (lp_obs s) i). is_duration v"
proof -
  have inv: "ctl_inv code s" "sends_inv code s"
    using loop_reach_inv [OF assms(1)] by (simp_all add: msg_inv_def)
  have len: "length (lp_pcs s) = length (lc_agents code)"
    using inv(1) assms(2) by (simp add: ctl_inv_def spawn_inv_def)
  have "\<forall>pc \<in> set (lp_pcs s). pc = AExit"
    using all_exited [of s] inv(1) loop_reach_done [OF assms(1)] assms(2) by (simp add: ctl_inv_def done_inv_def)
  then have pc: "lp_pcs s ! i = AExit"
    using assms(3) len by simp
  then show "sent_by i s = filter (\<lambda>v. lc_sends code i v = Inr True) (seen (lp_obs s) i)"
    using inv(2) assms(3) len by (simp add: sends_inv_def pc_of_def)
  obtain st where "os_streams (lp_obs s) i = Some st"
    using inv(1) pc assms(3) len by (auto simp: ctl_inv_def streams_inv_def)
  then obtain as where as: "phase_ok (lp_obs s) as" "stream_ok (lp_obs s) as i st"
    using obs_phase_ok [OF inv(1)] by blast
  then show rest: "\<exists>rest. drop (start (lp_obs s) i) (history (lp_obs s)) = seen (lp_obs s) i @ rest"
    using stream_ok_rest by blast
  have "set (seen (lp_obs s) i) \<subseteq> set (tl (history (lp_obs s)))"
    using rest as(2) by (metis drop_Suc le_Suc_ex plus_1_eq_Suc set_append set_drop_subset stream_ok_def sup.cobounded1 order_trans)
  then show "\<forall>v \<in> set (seen (lp_obs s) i). is_duration v"
    using inv(1) by (auto simp: ctl_inv_def history_inv_def list_all_iff)
qed

text \<open>
  C9. The constant-rate loop, under every interleaving of its goroutines, the observer's writes and the clock. In every
  reachable state the messages of an agent that has subscribed are, one for one and in order, the first ticks published since
  then. Until the stop channel is closed no goroutine returns and no tick is lost: without waiting for the clock or for
  another tick, the agents can go on to a state in which each of them has sent exactly one message for every tick
  since it subscribed. (Of the ticks that an agent has not read when the stop channel is closed, its select may drop some.)
  When the loop returns, every goroutine has returned and the two results are the numbers of \<open>SendMessage\<close> calls that
  succeeded and that failed.
\<close>

theorem constant_rate_one_message_per_tick:
  assumes reach: "loop_reach lib rnd (constant_rate_code c agents) t0 s" and host: "\<forall>a \<in> set agents. Host a \<noteq> None \<and> Topic a \<noteq> None"
  shows "(\<forall>i < length (lp_pcs s). lp_pcs s ! i \<noteq> AStart \<longrightarrow>
       (\<exists>rest. drop (start (lp_obs s) i) (history (lp_obs s)) = sent_by i s @ rest)) \<and>
    (\<not> lp_stop s \<longrightarrow> AExit \<notin> set (lp_pcs s) \<and>
       (\<exists>s'. loop_path lib rnd (constant_rate_code c agents) s s' \<and> history (lp_obs s') = history (lp_obs s) \<and> lp_now s' = lp_now s \<and>
          (\<forall>i < length (lp_pcs s). lp_pcs s ! i \<noteq> AStart \<longrightarrow> sent_by i s' = drop (start (lp_obs s) i) (history (lp_obs s))))) \<and>
    (\<forall>published failed. ConstantRate_Loop lib rnd c agents t0 (published, failed) s \<and> length (lp_sends s) < 2 ^ 63 \<longrightarrow>
       lp_pcs s = replicate (length agents) AExit \<and>
       published = int (length (filter sm_ok (lp_sends s))) \<and> failed = int (length (filter (\<lambda>m. \<not> sm_ok m) (lp_sends s))))"
proof (intro conjI)
  let ?code = "constant_rate_code c agents"
  have code: "lc_agents ?code = agents" "\<And>i v. lc_sends ?code i v = Inr True" "started ?code" "decides_durations ?code"
    using host by (simp_all add: constant_rate_started constant_rate_decides) (simp_all add: constant_rate_code_def)
  have inv: "ctl_inv ?code s" "sends_inv ?code s"
    using loop_reach_inv [OF reach] by (simp_all add: msg_inv_def)
  show "\<forall>i < length (lp_pcs s). lp_pcs s ! i \<noteq> AStart \<longrightarrow> (\<exists>rest. drop (start (lp_obs s) i) (history (lp_obs s)) = sent_by i s @ rest)"
    using ticks_in_order [OF inv] by (simp add: code)
  show "\<forall>published failed. ConstantRate_Loop lib rnd c agents t0 (published, failed) s \<and> length (lp_sends s) < 2 ^ 63 \<longrightarrow>
       lp_pcs s = replicate (length agents) AExit \<and>
       published = int (length (filter sm_ok (lp_sends s))) \<and> failed = int (length (filter (\<lambda>m. \<not> sm_ok m) (lp_sends s)))"
    using returned_result [OF reach] by (auto simp: ConstantRate_Loop_def code)
  show "\<not> lp_stop s \<longrightarrow> AExit \<notin> set (lp_pcs s) \<and>
       (\<exists>s'. loop_path lib rnd ?code s s' \<and> history (lp_obs s') = history (lp_obs s) \<and> lp_now s' = lp_now s \<and>
          (\<forall>i < length (lp_pcs s). lp_pcs s ! i \<noteq> AStart \<longrightarrow> sent_by i s' = drop (start (lp_obs s) i) (history (lp_obs s))))"
  proof
    assume running: "\<not> lp_stop s"
    obtain s' where s': "loop_path lib rnd ?code s s'" "history (lp_obs s') = history (lp_obs s)" "start (lp_obs s') = start (lp_obs s)"
      "lp_now s' = lp_now s" "length (lp_pcs s') = length (lp_pcs s)"
      "\<forall>i < length (lp_pcs s). lp_pcs s ! i \<noteq> AStart \<longrightarrow> lp_pcs s' ! i \<noteq> AStart \<and> agent_lag s' i = 0"
      using agents_catch_up [OF inv(1) code(3,4) running] by blast
    have "ctl_inv ?code s'" "sends_inv ?code s'"
      using loop_reach_inv [OF loop_reach_path [OF s'(1) reach]] by (simp_all add: msg_inv_def)
    from not_behind_sent [OF this] s' have "\<forall>i < length (lp_pcs s). lp_pcs s ! i \<noteq> AStart \<longrightarrow> sent_by i s' = drop (start (lp_obs s) i) (history (lp_obs s))"
      by (simp add: code)
    moreover have "AExit \<notin> set (lp_pcs s)"
      using inv(1) running by (auto simp: ctl_inv_def stop_inv_def)
    ultimately show "AExit \<notin> set (lp_pcs s) \<and>
       (\<exists>s'. loop_path lib rnd ?code s s' \<and> history (lp_obs s') = history (lp_obs s) \<and> lp_now s' = lp_now s \<and>
          (\<forall>i < length (lp_pcs s). lp_pcs s ! i \<noteq> AStart \<longrightarrow> sent_by i s' = drop (start (lp_obs s) i) (history (lp_obs s))))"
      using s' by blast
  qed
qed

text \<open>A schedule of a loop with one agent: one tick, one message.\<close>

definition ex_schedule :: "action list" where
  "ex_schedule = [Spawn, SetStart, NewTicker, Observe 0, ReadClock, NewTimer, Clock (second + 7), Tick (second + 5), UpdateWrite, UpdateWrite,
     Advance 0, Decide 0, Send 0 (replicate 16 3), CountSent 0, Clock (3 * second), TimeoutFires, Stopped 0, Return]"

definition ex_constant :: ConstantRateMessaging where
  "ex_constant = \<lparr>Rate = second, LogDuration = 2 * second, Timeout = 3 * second, MessageSize = 1024\<rparr>"

lemma ex_run:
  "map_option (\<lambda>s. (lp_main s, map (\<lambda>m. (sm_value m, sm_useful m)) (lp_sends s), length (lp_log s), lp_cancelled s))
     (run ex_lib (\<lambda>_. 0) (constant_rate_code ex_constant [ex_agent]) ex_schedule (loop_init 0)) =
   Some (MReturned 1 0, [(DurationVal (second + 5), True)], 1, False)"
  by code_simp

lemma ex_waiting_run:
  "map_option (\<lambda>s. (lp_main s, lp_now s, history (lp_obs s)))
     (run ex_lib (\<lambda>_. 0) (constant_rate_code ex_constant [ex_agent]) (take 7 ex_schedule) (loop_init 0)) =
   Some (MSelect 0 0 (3 * second), second + 7, [TimeVal zero_time])"
  by code_simp

text \<open>In the example, when the tick has been published and not been read, the agent can still send on it.\<close>

lemma ex_published_run:
  "map_option (\<lambda>s. (lp_pcs s, lp_stop s, lp_sends s, start (lp_obs s) 0, history (lp_obs s)))
     (run ex_lib (\<lambda>_. 0) (constant_rate_code ex_constant [ex_agent]) (take 9 ex_schedule) (loop_init 0)) =
   Some ([ASelect], False, [], 1, [TimeVal zero_time, DurationVal (second + 5)])"
  by code_simp

theorem constant_rate_one_message_per_tick_witness:
  "\<exists>s s'. loop_reach ex_lib (\<lambda>_. 0) (constant_rate_code ex_constant [ex_agent]) 0 s \<and> lp_sends s = [] \<and>
     loop_path ex_lib (\<lambda>_. 0) (constant_rate_code ex_constant [ex_agent]) s s' \<and> sent_by 0 s' = [DurationVal (second + 5)]"
proof -
  obtain s where s: "run ex_lib (\<lambda>_. 0) (constant_rate_code ex_constant [ex_agent]) (take 9 ex_schedule) (loop_init 0) = Some s"
    "lp_pcs s = [ASelect]" "\<not> lp_stop s" "lp_sends s = []" "start (lp_obs s) 0 = 1"
    "history (lp_obs s) = [TimeVal zero_time, DurationVal (second + 5)]"
    using ex_published_run by auto
  have reach: "loop_reach ex_lib (\<lambda>_. 0) (constant_rate_code ex_constant [ex_agent]) 0 s"
    by (rule run_reach [OF s(1) loop_reach.init])
  have "\<forall>a \<in> set [ex_agent]. Host a \<noteq> None \<and> Topic a \<noteq> None"
    by (simp add: ex_agent_def)
  then show ?thesis
    using constant_rate_one_message_per_tick [OF reach] s reach by fastforce
qed

text \<open>The two loops of the program.\<close>

definition loop_of :: "GossipAgent list \<Rightarrow> loop_code \<Rightarrow> bool" where
  "loop_of agents code \<longleftrightarrow> (\<exists>c. code = constant_rate_code c agents \<and> 0 < Rate c) \<or> (\<exists>h n. hotstuff_code h n agents = Inr code)"

lemma loop_of_facts:
  assumes "loop_of agents code" "\<forall>a \<in> set agents. Host a \<noteq> None \<and> Topic a \<noteq> None"
  shows "started code" "decides_durations code" "0 < lc_rate code"
proof -
  have hot: "started code" if "hotstuff_code h n agents = Inr code" for h n
    using mset_eq_setD [OF hotstuff_code_facts(1) [OF that]] assms(2) by (simp add: started_def)
  show "started code" "decides_durations code" "0 < lc_rate code"
    using assms hot hotstuff_code_facts(2,3)
    by (auto simp: loop_of_def constant_rate_started constant_rate_decides) (auto simp: constant_rate_code_def)
qed

text \<open>
  C13. Neither loop panics, in any interleaving, when the agents have been started and the rate is positive:
  the stop channel is closed once, the wait group never goes below zero, no stream follows a nil
  pointer, and the type assertion to \<open>time.Duration\<close> always holds, although the subject starts with a
  \<open>time.Time\<close>. And every run can be continued until the loop returns: from each reachable state a sequence of steps
  leads on to a state in which it has returned.
\<close>

theorem messaging_safe_and_completes:
  assumes "loop_of agents code" "\<forall>a \<in> set agents. Host a \<noteq> None \<and> Topic a \<noteq> None" "loop_reach lib rnd code t0 s"
  shows "(\<forall>p. \<not> loop_step lib rnd code s (Inl p)) \<and>
    (\<exists>s' published failed. loop_path lib rnd code s s' \<and> lp_main s' = MReturned published failed)"
  using loop_of_facts [OF assms(1,2)] no_panic [OF loop_reach_ctl [OF assms(3)]] loop_completes [OF loop_reach_ctl [OF assms(3)]] by metis

text \<open>In the example: from the state in which the only agent is about to send its message.\<close>

lemma ex_prefix_run:
  "map_option (\<lambda>s. (lp_main s, lp_pcs s)) (run ex_lib (\<lambda>_. 0) (constant_rate_code ex_constant [ex_agent]) (take 12 ex_schedule) (loop_init 0)) =
   Some (MSelect 0 0 (3 * second), [ASend (DurationVal (second + 5)) True (second + 7)])"
  by code_simp

theorem messaging_safe_and_completes_witness:
  "\<exists>s. lp_pcs s = [ASend (DurationVal (second + 5)) True (second + 7)] \<and>
    (\<forall>p. \<not> loop_step ex_lib (\<lambda>_. 0) (constant_rate_code ex_constant [ex_agent]) s (Inl p)) \<and>
    (\<exists>s' published failed. loop_path ex_lib (\<lambda>_. 0) (constant_rate_code ex_constant [ex_agent]) s s' \<and> lp_main s' = MReturned published failed)"
proof -
  obtain s where s: "run ex_lib (\<lambda>_. 0) (constant_rate_code ex_constant [ex_agent]) (take 12 ex_schedule) (loop_init 0) = Some s"
    "lp_pcs s = [ASend (DurationVal (second + 5)) True (second + 7)]"
    using ex_prefix_run by auto
  have "loop_of [ex_agent] (constant_rate_code ex_constant [ex_agent])"
    unfolding loop_of_def by (intro disjI1 exI [of _ ex_constant]) (simp add: ex_constant_def)
  moreover have "\<forall>a \<in> set [ex_agent]. Host a \<noteq> None \<and> Topic a \<noteq> None"
    by (simp add: ex_agent_def)
  ultimately show ?thesis
    using messaging_safe_and_completes [OF _ _ run_reach [OF s(1) loop_reach.init]] s(2) by blast
qed

text \<open>
  C21. The window of the benchmark. A message carries the flag that makes the statistics count it exactly when
  the flag was computed less than \<open>LogDuration\<close> after \<open>start\<close>, and \<open>start\<close> is always set by then. And while the
  context is not cancelled, nothing is stopped before \<open>start\<close> plus the timeout.
\<close>

theorem messaging_window:
  assumes "loop_reach lib rnd code t0 s"
  shows "(\<forall>m \<in> set (lp_sends s). lp_start s \<le> sm_time m \<and> (sm_useful m \<longleftrightarrow> sm_time m - lp_start s < lc_log code)) \<and>
    (\<not> lp_cancelled s \<and> (lp_stop s \<or> AExit \<in> set (lp_pcs s) \<or> waiting (lp_main s)) \<longrightarrow> lp_start s + lc_timeout code \<le> lp_now s)"
  using loop_reach_inv [OF assms] runs_until_timeout [OF assms] by (auto simp: msg_inv_def useful_inv_def)

theorem messaging_window_witness:
  "\<exists>s. loop_reach ex_lib (\<lambda>_. 0) (constant_rate_code ex_constant [ex_agent]) 0 s \<and> map sm_useful (lp_sends s) = [True] \<and>
     lp_start s + 3 * second \<le> lp_now s \<and> map (\<lambda>m. sm_time m - lp_start s < 2 * second) (lp_sends s) = [True]"
proof -
  obtain s where s: "run ex_lib (\<lambda>_. 0) (constant_rate_code ex_constant [ex_agent]) ex_schedule (loop_init 0) = Some s"
    "lp_main s = MReturned 1 0" "map (\<lambda>m. (sm_value m, sm_useful m)) (lp_sends s) = [(DurationVal (second + 5), True)]" "\<not> lp_cancelled s"
    using ex_run by auto
  have reach: "loop_reach ex_lib (\<lambda>_. 0) (constant_rate_code ex_constant [ex_agent]) 0 s"
    by (rule run_reach [OF s(1) loop_reach.init])
  then show ?thesis
    using messaging_window [OF reach] s
    by (intro exI [of _ s]) (auto simp: constant_rate_code_def ex_constant_def Cons_eq_map_conv)
qed

text \<open>
  C31. A cancelled context stops nothing. The comments say that the selects return on a kill signal; their case for
  \<open>ctx.Done()\<close> is empty, so after the cancellation still no goroutine returns and the stop channel stays open until
  \<open>start\<close> plus the timeout, and the ticks go on: whenever one is due, it can be published.
\<close>

theorem cancellation_ignored:
  assumes "loop_reach lib rnd code t0 s" "lp_cancelled s"
  shows "(lp_stop s \<or> AExit \<in> set (lp_pcs s) \<or> waiting (lp_main s) \<longrightarrow> lp_start s + lc_timeout code \<le> lp_now s) \<and>
    (\<forall>c st e. lp_main s = MSelect c st e \<and> c + lc_rate code \<le> lp_now s \<longrightarrow>
       (\<exists>s'. loop_path lib rnd code s s' \<and> lp_cancelled s' \<and>
          history (lp_obs s') = history (lp_obs s) @ [DurationVal (time_Sub (lp_now s) st)]))"
  using runs_until_timeout [OF assms(1)] tick_published [OF loop_reach_ctl [OF assms(1)]] assms(2) by blast

theorem cancellation_ignored_witness:
  "\<exists>s s'. loop_reach ex_lib (\<lambda>_. 0) (constant_rate_code ex_constant [ex_agent]) 0 s \<and> lp_cancelled s \<and>
     loop_path ex_lib (\<lambda>_. 0) (constant_rate_code ex_constant [ex_agent]) s s' \<and> tl (history (lp_obs s')) = [DurationVal (second + 7)]"
proof -
  let ?code = "constant_rate_code ex_constant [ex_agent]"
  obtain s0 where s0: "run ex_lib (\<lambda>_. 0) ?code (take 7 ex_schedule) (loop_init 0) = Some s0"
    "lp_main s0 = MSelect 0 0 (3 * second)" "lp_now s0 = second + 7" "history (lp_obs s0) = [TimeVal zero_time]"
    using ex_waiting_run by auto
  let ?s = "s0\<lparr>lp_cancelled := True\<rparr>"
  have reach: "loop_reach ex_lib (\<lambda>_. 0) ?code 0 ?s"
    by (rule loop_reach.step [OF run_reach [OF s0(1) loop_reach.init] loop_step.cancel])
  moreover have "time_Sub (second + 7) 0 = second + 7" "0 + lc_rate ?code \<le> lp_now ?s"
    using s0(3) by (simp_all add: time_Sub_def sat64_def constant_rate_code_def ex_constant_def)
  moreover have "lp_main ?s = MSelect 0 0 (3 * second)" "lp_cancelled ?s" "history (lp_obs ?s) = [TimeVal zero_time]" "lp_now ?s = second + 7"
    using s0 by simp_all
  ultimately obtain s' where "loop_path ex_lib (\<lambda>_. 0) ?code ?s s'" "history (lp_obs s') = [TimeVal zero_time] @ [DurationVal (second + 7)]"
    using cancellation_ignored [OF reach] by metis
  then show ?thesis
    using reach by (intro exI [of _ ?s] exI [of _ s']) simp
qed

section \<open>Hotstuff\<close>

lemma onEvenSecond_even:
  assumes "0 \<le> d" "d < 2 ^ 22 * second"
  shows "onEvenSecond d \<longleftrightarrow> even (d div second)"
proof -
  have "0 \<le> d div second"
    using assms(1) by simp
  then show ?thesis
    using Seconds_trunc [of d] assms by (simp add: onEvenSecond_def signed_modulo_int_def sgn_if even_iff_mod_2_eq_zero)
qed

lemma onEvenSecond_code [code]:
  "onEvenSecond d = (if 0 \<le> d \<and> d < 2 ^ 22 * second then even (d div second) else go_trunc (Seconds d) smod 2 = 0)"
  using onEvenSecond_even by (simp add: onEvenSecond_def)

lemma sends_by_goroutine:
  assumes "sends_inv code s" "m \<in> set (lp_sends s)"
  shows "sm_agent m < length (lp_pcs s)" "sm_value m \<in> set (sent_by (sm_agent m) s)"
proof -
  show v: "sm_value m \<in> set (sent_by (sm_agent m) s)"
    using assms(2) by (auto simp: sent_by_def)
  show "sm_agent m < length (lp_pcs s)"
  proof (rule ccontr)
    assume "\<not> sm_agent m < length (lp_pcs s)"
    then have "sent_by (sm_agent m) s = []"
      using spec [OF assms(1) [unfolded sends_inv_def], of "sm_agent m"] by (auto simp: pc_of_def)
    with v show False
      by simp
  qed
qed

text \<open>
  C22. The Hotstuff loop has one leader, the agent that was drawn; every other agent has one goroutine. When the
  loop returns, its results are the numbers of messages sent and failed, and every message was sent on a
  tick: the leader's on odd seconds, all others' on even seconds (for ticks in the first 48 days).
\<close>

theorem hotstuff_roles:
  assumes "hotstuff_code h n agents = Inr code" "Hotstuff_Loop lib rnd h n agents t0 (Inr (published, failed)) s" "length (lp_sends s) < 2 ^ 63"
  shows "mset (lc_agents code) = mset agents \<and> lc_agents code ! 0 = agents ! (n mod length agents) \<and>
    published = int (length (filter sm_ok (lp_sends s))) \<and> failed = int (length (filter (\<lambda>m. \<not> sm_ok m) (lp_sends s))) \<and>
    (\<forall>m \<in> set (lp_sends s). \<exists>d. sm_value m = DurationVal d \<and>
       (0 \<le> d \<and> d < 2 ^ 22 * second \<longrightarrow> (if sm_agent m = 0 then odd (d div second) else even (d div second))))"
proof -
  have reach: "loop_reach lib rnd code t0 s" "lp_main s = MReturned published failed"
    using assms(1,2) by (auto simp: Hotstuff_Loop_def)
  have inv: "ctl_inv code s" "sends_inv code s"
    using loop_reach_inv [OF reach(1)] by (simp_all add: msg_inv_def)
  have "\<exists>d. sm_value m = DurationVal d \<and>
      (0 \<le> d \<and> d < 2 ^ 22 * second \<longrightarrow> (if sm_agent m = 0 then odd (d div second) else even (d div second)))"
    if "m \<in> set (lp_sends s)" for m
  proof -
    let ?i = "sm_agent m"
    have "?i < length (lc_agents code)"
      using sends_by_goroutine [OF inv(2) that] inv(1) by (simp add: ctl_inv_def spawn_inv_def)
    note streams = returned_streams [OF reach this]
    have "sm_value m \<in> set (filter (\<lambda>v. lc_sends code ?i v = Inr True) (seen (lp_obs s) ?i))"
      using sends_by_goroutine(2) [OF inv(2) that] streams(1) by simp
    then obtain d where "sm_value m = DurationVal d" "lc_sends code ?i (DurationVal d) = Inr True"
      using streams(3) by (auto elim!: is_duration.elims(2))
    then show ?thesis
      using hotstuff_code_facts(7) [OF assms(1), of ?i d] onEvenSecond_even [of d] by auto
  qed
  then show ?thesis
    using hotstuff_code_facts(1,4) [OF assms(1)] returned_result(1,2) [OF reach assms(3)] by blast
qed

definition ex_hotstuff :: HotstuffMessaging where
  "ex_hotstuff = \<lparr>h_LogDuration = 2 * second, h_Timeout = 3 * second, h_MessageSize = 1024\<rparr>"

definition ex_hot_agents :: "GossipAgent list" where
  "ex_hot_agents = [ex_agent, ex_agent\<lparr>Port := 1\<rparr>]"

definition ex_hot_code :: loop_code where
  "ex_hot_code = (case hotstuff_code ex_hotstuff 1 ex_hot_agents of Inr code \<Rightarrow> code)"

text \<open>The second agent is drawn as the leader and sends on the only tick, an odd second.\<close>

definition ex_hot_schedule :: "action list" where
  "ex_hot_schedule = [Spawn, Spawn, SetStart, NewTicker, Observe 0, Observe 1, ReadClock, NewTimer, Clock (second + 7), Tick (second + 5),
     UpdateWrite, UpdateWrite, Advance 1, Advance 0, Decide 0, Send 0 (replicate 16 3), CountSent 0, Clock (3 * second), TimeoutFires,
     Stopped 0, Stopped 1, Return]"

lemma ex_hot_run:
  "map_option (\<lambda>s. (lp_main s, map (\<lambda>m. (sm_agent m, sm_value m)) (lp_sends s)))
     (run ex_lib (\<lambda>_. 0) ex_hot_code ex_hot_schedule (loop_init 0)) =
   Some (MReturned 1 0, [(0, DurationVal (second + 5))])"
  by code_simp

theorem hotstuff_roles_witness:
  "\<exists>s. Hotstuff_Loop ex_lib (\<lambda>_. 0) ex_hotstuff 1 ex_hot_agents 0 (Inr (1, 0)) s \<and> lc_agents ex_hot_code ! 0 = ex_hot_agents ! 1 \<and>
     map (\<lambda>m. (sm_agent m, sm_value m)) (lp_sends s) = [(0, DurationVal (second + 5))]"
proof -
  obtain s where s: "run ex_lib (\<lambda>_. 0) ex_hot_code ex_hot_schedule (loop_init 0) = Some s"
    "lp_main s = MReturned 1 0" "map (\<lambda>m. (sm_agent m, sm_value m)) (lp_sends s) = [(0, DurationVal (second + 5))]"
    using ex_hot_run by auto
  have code: "hotstuff_code ex_hotstuff 1 ex_hot_agents = Inr ex_hot_code"
    by (simp add: ex_hot_code_def hotstuff_code_def ex_hot_agents_def Let_def)
  then have loop: "Hotstuff_Loop ex_lib (\<lambda>_. 0) ex_hotstuff 1 ex_hot_agents 0 (Inr (1, 0)) s"
    using run_reach [OF s(1) loop_reach.init] s(2) by (simp add: Hotstuff_Loop_def)
  have "length (lp_sends s) < 2 ^ 63"
    using s(3) by (auto simp: Cons_eq_map_conv)
  then show ?thesis
    using hotstuff_roles [OF code loop] loop s(3) by (auto simp: ex_hot_agents_def)
qed

text \<open>
  Without validators the Hotstuff loop panics when it draws the leader.
\<close>

theorem hotstuff_no_validators_panics:
  "Hotstuff_Loop lib rnd h n [] t0 result s \<longleftrightarrow> result = Inl (InvalidArgument ''Intn'')"
  by (simp add: Hotstuff_Loop_def hotstuff_code_def)

end
