(* ===== verification/Cluster.thy ===== *)
theory Cluster
  imports Topology LatencyData MessageLoop ConnectionHelper
begin

text \<open>
  \<open>cluster/cluster.go\<close>: the cluster of agents.

  The agents are a map from listening port to agent; an agent is stored under one port only, so that a
  change through the pointer is a change of the entry. Loops over the map take the list of its entries in
  the order of the \<open>range\<close> as an argument. \<open>StartAgents\<close> runs its calls through the runner of the theory
  \<open>Runner\<close>; the calls work on different agents and take the cluster's lock around the map, so they are
  executed one after the other in the order in which the runner makes them. A panic in a goroutine ends the
  process: it is the result of the whole run. \<open>ConnectAgents\<close> hands the agents to a topology of the theory \<open>Topology\<close>; the
  calls of \<open>GossipAgent.Connect\<close> (\<open>agent/agent.go\<close>) that the topology makes go through the table of the theory \<open>ConnectionHelper\<close> and
  wrap the two ends of a connection with \<open>CreateConn\<close>.
\<close>

section \<open>Data\<close>

record ClusterConfig =
  ValidatorCount :: int
  StartingPort :: int
  Ip :: string
  MsgSize :: int
  cfg_Kbps :: int
  cfg_MTU :: int

record Cluster =
  cl_latency :: LatencyData
  cl_agents :: "int \<rightharpoonup> GossipAgent"
  startingPort :: int
  cl_config :: ClusterConfig

definition defaultKbps :: int where "defaultKbps = 20 * 1024"

definition defaultMTU :: int where "defaultMTU = 1500"

definition NewCluster :: "LatencyData \<Rightarrow> ClusterConfig \<Rightarrow> Cluster" where
  "NewCluster lat c = \<lparr>cl_latency = lat, cl_agents = Map.empty, startingPort = StartingPort c, cl_config = c\<rparr>"

definition AssignPort :: "int \<Rightarrow> Cluster \<Rightarrow> int" where
  "AssignPort increment c = wrap64 (startingPort c + increment)"

definition getValue :: "int \<Rightarrow> int \<Rightarrow> int" where
  "getValue value def = (if value \<noteq> 0 then value else def)"

definition filterValidators :: "agents \<Rightarrow> GossipAgent list" where
  "filterValidators as = filter IsValidator (map snd as)"

section \<open>Operations\<close>

text \<open>The loop of \<open>AddAgents\<close> from \<open>i\<close>; \<open>r i\<close> is the random draw of its \<open>i\<close>-th iteration.\<close>

function add_agents_from :: "(nat \<Rightarrow> nat) \<Rightarrow> AgentConfig \<Rightarrow> int \<Rightarrow> int \<Rightarrow> Cluster \<Rightarrow> Cluster go" where
  "add_agents_from r config numOfAgents i c =
     (if i < numOfAgents
      then case GetRandomCity (r (nat i)) (cl_latency c) of Inl p \<Rightarrow> Inl p
        | Inr city \<Rightarrow>
            (case NewAgent i city (i < ValidatorCount (cl_config c)) config of Inl p \<Rightarrow> Inl p
             | Inr a \<Rightarrow> add_agents_from r config numOfAgents (i + 1) (c\<lparr>cl_agents := (cl_agents c)(AssignPort i c \<mapsto> a)\<rparr>))
      else Inr c)"
  by pat_completeness auto
termination
  by (relation "measure (\<lambda>(r, config, n, i, c). nat (n - i))") auto

declare add_agents_from.simps [simp del]

definition AddAgents :: "(nat \<Rightarrow> nat) \<Rightarrow> AgentConfig \<Rightarrow> int \<Rightarrow> Cluster \<Rightarrow> Cluster go" where
  "AddAgents r config numOfAgents c = add_agents_from r config numOfAgents 0 c"

definition GetAgent :: "int \<Rightarrow> Cluster \<Rightarrow> GossipAgent go" where
  "GetAgent i c = (case cl_agents c i of None \<Rightarrow> Inl (Explicit (''Agent does not exist: '' @ show_int i)) | Some a \<Rightarrow> Inr a)"

definition RemoveAgent :: "libp2p \<Rightarrow> int \<Rightarrow> Cluster \<Rightarrow> (error option \<times> Cluster) go" where
  "RemoveAgent lib i c =
     go_bind (GetAgent i c) (\<lambda>a.
     go_bind (Stop lib a) (\<lambda>err.
       case err of Some e \<Rightarrow> Inr (Some e, c) | None \<Rightarrow> Inr (None, c\<lparr>cl_agents := (cl_agents c)(i := None)\<rparr>)))"

definition GetAgentCity :: "int \<Rightarrow> Cluster \<Rightarrow> string go" where
  "GetAgentCity i c = go_bind (GetAgent i c) (\<lambda>a. Inr (GetCity a))"

definition CreateConn :: "'conn \<Rightarrow> int \<Rightarrow> int \<Rightarrow> Cluster \<Rightarrow> (error + netConn \<times> 'conn) go" where
  "CreateConn baseConn leftPortID rightPortID c =
     go_bind (GetAgentCity leftPortID c) (\<lambda>lcity.
     go_bind (GetAgentCity rightPortID c) (\<lambda>rcity.
     go_bind (latency_Find lcity rcity (cl_latency c)) (\<lambda>latencyDuration.
       let nn = \<lparr>Kbps = getValue (cfg_Kbps (cl_config c)) defaultKbps, Latency = latencyDuration,
                 MTU = getValue (cfg_MTU (cl_config c)) defaultMTU\<rparr>
       in Inr (Network_Conn nn baseConn))))"

definition cluster_Stop :: "libp2p \<Rightarrow> int \<Rightarrow> Cluster \<Rightarrow> error option go" where
  "cluster_Stop lib port c = go_bind (GetAgent port c) (Stop lib)"

definition cluster_Start :: "libp2p \<Rightarrow> int \<Rightarrow> int \<Rightarrow> Cluster \<Rightarrow> (error option \<times> Cluster \<times> entry list) go" where
  "cluster_Start lib t port c =
     go_bind (GetAgent port c) (\<lambda>a.
       case Listen lib t (Ip (cl_config c)) port a of
         (err, a', es) \<Rightarrow> Inr (err, c\<lparr>cl_agents := (cl_agents c)(port \<mapsto> a')\<rparr>, es))"

text \<open>The errors of \<open>Stop\<close> are ignored.\<close>

primrec StopAll :: "libp2p \<Rightarrow> agents \<Rightarrow> unit go" where
  "StopAll lib [] = Inr ()"
| "StopAll lib (pa # as) = go_bind (Stop lib (snd pa)) (\<lambda>_. StopAll lib as)"

text \<open>The function that \<open>StartAgents\<close> hands to the runner; \<open>t\<close> is the time of the call.\<close>

definition start_agent :: "libp2p \<Rightarrow> (int \<Rightarrow> int) \<Rightarrow> int \<Rightarrow> Cluster \<Rightarrow> (error option \<times> Cluster) go" where
  "start_agent lib now index c =
     (let port = AssignPort index c
      in go_bind (GetAgent port c) (\<lambda>a.
           case Listen lib (now index) (Ip (cl_config c)) port a of
             (Some err, a', es) \<Rightarrow>
               go_bind (RemoveAgent lib port (c\<lparr>cl_agents := (cl_agents c)(port \<mapsto> a')\<rparr>)) (\<lambda>(_, c').
                 Inr (Some (''can not start agent for port '' @ show_int port @ '', err: '' @ err), c'))
           | (None, a', es) \<Rightarrow> Inr (None, c\<lparr>cl_agents := (cl_agents c)(port \<mapsto> a')\<rparr>)))"

primrec start_calls :: "libp2p \<Rightarrow> (int \<Rightarrow> int) \<Rightarrow> int list \<Rightarrow> Cluster \<Rightarrow> Cluster go" where
  "start_calls lib now [] c = Inr c"
| "start_calls lib now (index # calls) c = go_bind (start_agent lib now index c) (\<lambda>(_, c'). start_calls lib now calls c')"

text \<open>What a call returns does not depend on the calls for other agents (lemma \<open>start_agent_result\<close> below).\<close>

definition start_outcome :: "libp2p \<Rightarrow> (int \<Rightarrow> int) \<Rightarrow> Cluster \<Rightarrow> int \<Rightarrow> error option" where
  "start_outcome lib now c index = (case start_agent lib now index c of Inl p \<Rightarrow> None | Inr (err, c') \<Rightarrow> err)"

inductive StartAgents :: "libp2p \<Rightarrow> (int \<Rightarrow> int) \<Rightarrow> Cluster \<Rightarrow> (int \<times> int) go \<Rightarrow> Cluster \<Rightarrow> bool" for lib now c where
  runner_panics: "MultiRoutineRunner (int (card (dom (cl_agents c)))) 1 1000 (start_outcome lib now c) (Inl p) calls \<Longrightarrow>
    StartAgents lib now c (Inl p) c"
| call_panics: "runner_plan (int (card (dom (cl_agents c)))) 1 1000 = Inr cs \<Longrightarrow> runner_reach (start_outcome lib now c) cs s \<Longrightarrow>
    start_calls lib now (r_calls s) c = Inl p \<Longrightarrow> StartAgents lib now c (Inl p) c"
| returns: "MultiRoutineRunner (int (card (dom (cl_agents c)))) 1 1000 (start_outcome lib now c) (Inr result) calls \<Longrightarrow>
    start_calls lib now calls c = Inr c' \<Longrightarrow> StartAgents lib now c (Inr result) c'"

text \<open>The topologies and the messagings that implement the two interfaces.\<close>

datatype topology = LinearTopo | RandomTopo RandomTopology | SuperClusterTopo SuperClusterTopology

text \<open>
  \<open>MakeConnections\<close> of the interface \<open>Topology\<close>, for calls of \<open>Connect\<close> that return \<open>connect\<close>: the pairs on which it was called, and whether
  it returns or panics. (\<open>linear_pair\<close> is the pair of the goroutine with the given number.)
\<close>

inductive topology_MakeConnections ::
  "(GossipAgent \<times> GossipAgent \<Rightarrow> error option) \<Rightarrow> (nat \<Rightarrow> nat) \<Rightarrow> topology \<Rightarrow> agents \<Rightarrow> connectionsList \<Rightarrow> unit go \<Rightarrow> bool"
  for connect r where
  linear: "LinearTopology_MakeConnections connect as result calls \<Longrightarrow>
    topology_MakeConnections connect r LinearTopo as (List.map_filter (\<lambda>i. case linear_pair as i of Inl p \<Rightarrow> None | Inr c \<Rightarrow> Some c) calls)
      (case result of Inl p \<Rightarrow> Inl p | Inr n \<Rightarrow> Inr ())"
| random: "RandomTopology_MakeConnections connect t r as conns result \<Longrightarrow>
    topology_MakeConnections connect r (RandomTopo t) as conns (case result of Inl p \<Rightarrow> Inl p | Inr n \<Rightarrow> Inr ())"
| supercluster: "SuperClusterTopology_MakeConnections connect t r as phases result \<Longrightarrow>
    topology_MakeConnections connect r (SuperClusterTopo t) as (concat (map fst phases)) result"

subsection \<open>Connect\<close>

text \<open>
  What the library does with a call of \<open>Connect\<close>: \<open>peer.AddrInfoFromP2pAddr\<close> fails; \<open>Host.Connect\<close> fails before the transport dials; it fails after
  \<open>Dial\<close> has wrapped its end and before the other end is accepted; or both ends are wrapped, the ends in the list call \<open>ConnectedF\<close>
  in that order, and \<open>Host.Connect\<close> returns the error or success.
\<close>

datatype dial_result = NotDialled error | DialFailed error | Dialled "error option" "conn_end list"

datatype host_result = InvalidAddr error | HostConnect dial_result

text \<open>The address of a host, as far as the program reads it: the port on which \<open>StartAgents\<close> made the agent listen.\<close>

definition listen_port :: "GossipAgent \<Rightarrow> Cluster \<Rightarrow> int" where
  "listen_port a c = AssignPort (Port a) c"

definition port_tcp :: "int \<Rightarrow> string option" where
  "port_tcp p = Some (show_int p)"

primrec report_ends :: "conn_end list \<Rightarrow> int \<times> int \<Rightarrow> connection_helper \<Rightarrow> connection_helper go" where
  "report_ends [] addrs ch = Inr ch"
| "report_ends (e # es) addrs ch =
     (case end_addrs e addrs of (l, r) \<Rightarrow> go_bind (Connected port_tcp l r ch) (\<lambda>(_, ch'). report_ends es addrs ch'))"

text \<open>
  One call of \<open>Connect\<close> (\<open>host\<close> is the library): its result and the table it leaves. The result is \<open>None\<close> when \<open>Wait\<close> blocks for ever, because an
  end never reports. The wrapping of the ends is \<open>CreateConn\<close>, called by \<open>Dial\<close> for the dialling and by \<open>Accept\<close> for the listening
  end; its panics (an agent that does not exist, a latency that does not parse) end the process.
\<close>

definition Connect :: "(GossipAgent \<times> GossipAgent \<Rightarrow> host_result) \<Rightarrow> Cluster \<Rightarrow> GossipAgent \<times> GossipAgent \<Rightarrow> connection_helper \<Rightarrow>
    (error option option \<times> connection_helper) go" where
  "Connect host c = (\<lambda>(a, remote) ch.
     go_bind (deref (Host a)) (\<lambda>_.
     go_bind (deref (Host remote)) (\<lambda>_.
       let localAddr = listen_port a c; remoteAddr = listen_port remote c
       in case host (a, remote) of
            InvalidAddr err \<Rightarrow> Inr (Some (Some err), ch)
          | HostConnect result \<Rightarrow>
              (case Add port_tcp localAddr remoteAddr ch of
                 (Some _, ch) \<Rightarrow>
                   Inr (Some (Some (''connection ('' @ show_int localAddr @ '', '' @ show_int remoteAddr @ '') already exists'')), ch)
               | (None, ch) \<Rightarrow>
                   (case result of
                      NotDialled err \<Rightarrow> Inr (Some (Some err), Delete port_tcp localAddr remoteAddr ch)
                    | DialFailed err \<Rightarrow>
                        go_bind (CreateConn () localAddr remoteAddr c) (\<lambda>_. Inr (Some (Some err), Delete port_tcp localAddr remoteAddr ch))
                    | Dialled ret ends \<Rightarrow>
                        go_bind (CreateConn () localAddr remoteAddr c) (\<lambda>_.
                        go_bind (CreateConn () remoteAddr localAddr c) (\<lambda>_.
                        go_bind (report_ends ends (localAddr, remoteAddr) ch) (\<lambda>ch.
                          case ret of Some err \<Rightarrow> Inr (Some (Some err), Delete port_tcp localAddr remoteAddr ch)
                          | None \<Rightarrow>
                              (case Wait port_tcp localAddr remoteAddr ch of
                                 Blocked \<Rightarrow> Inr (None, ch)
                               | _ \<Rightarrow> Inr (Some None, Delete port_tcp localAddr remoteAddr ch))))))))))"

text \<open>
  The calls of one run are on different pairs of ports, so that none of them finds an entry of another one under its key (theory
  \<open>ConnectionHelper\<close>), and the result does not depend on the other entries (lemma \<open>Connect_established\<close> below): it is the result on the empty table.
\<close>

definition connect_outcome :: "(GossipAgent \<times> GossipAgent \<Rightarrow> host_result) \<Rightarrow> Cluster \<Rightarrow> GossipAgent \<times> GossipAgent \<Rightarrow> error option option go" where
  "connect_outcome host c p = go_bind (Connect host c p newAgentConnectionHelper) (\<lambda>(r, _). Inr r)"

text \<open>
  \<open>ConnectAgents\<close>: the connections that were established, and the result. A call that panics ends the process, and when a call blocks for ever
  there is no result. \<open>as\<close> are the agents in the order in which the topology's \<open>range\<close> loop sees them.
\<close>

inductive ConnectAgents :: "(GossipAgent \<times> GossipAgent \<Rightarrow> host_result) \<Rightarrow> (nat \<Rightarrow> nat) \<Rightarrow> topology \<Rightarrow> Cluster \<Rightarrow> agents \<Rightarrow> connectionsList \<Rightarrow> unit go \<Rightarrow> bool"
  for host r topo c as where
  calls_return: "topology_MakeConnections connect r topo as conns result \<Longrightarrow> \<forall>p \<in> set conns. connect_outcome host c p = Inr (Some (connect p)) \<Longrightarrow>
    ConnectAgents host r topo c as (filter (\<lambda>p. connect p = None) conns) result"
| call_panics: "topology_MakeConnections connect r topo as conns result \<Longrightarrow> p \<in> set conns \<Longrightarrow> connect_outcome host c p = Inl e \<Longrightarrow>
    ConnectAgents host r topo c as [] (Inl e)"

datatype messaging = ConstantRate ConstantRateMessaging | Hotstuff HotstuffMessaging

text \<open>The results of a loop that returns, and the panic of a loop that does not.\<close>

inductive StartMessaging :: "libp2p \<Rightarrow> (nat \<Rightarrow> byte) \<Rightarrow> nat \<Rightarrow> messaging \<Rightarrow> agents \<Rightarrow> int \<Rightarrow> (int \<times> int) go \<Rightarrow> msg_loop \<Rightarrow> bool"
  for lib rnd n where
  constant_rate: "ConstantRate_Loop lib rnd c (filterValidators as) t0 r s \<Longrightarrow> StartMessaging lib rnd n (ConstantRate c) as t0 (Inr r) s"
| constant_rate_panics: "code = constant_rate_code c (filterValidators as) \<Longrightarrow> loop_reach lib rnd code t0 s \<Longrightarrow> loop_step lib rnd code s (Inl p) \<Longrightarrow>
    StartMessaging lib rnd n (ConstantRate c) as t0 (Inl p) s"
| hotstuff: "Hotstuff_Loop lib rnd h n (filterValidators as) t0 result s \<Longrightarrow> StartMessaging lib rnd n (Hotstuff h) as t0 result s"
| hotstuff_panics: "hotstuff_code h n (filterValidators as) = Inr code \<Longrightarrow> loop_reach lib rnd code t0 s \<Longrightarrow> loop_step lib rnd code s (Inl p) \<Longrightarrow>
    StartMessaging lib rnd n (Hotstuff h) as t0 (Inl p) s"

section \<open>Connecting two agents\<close>

lemma report_ends_count:
  assumes "wgs ch (getKey port_tcp l r) = Some wg" "wg < length (wg_heap ch)" "int (length es) \<le> wg_heap ch ! wg"
  shows "report_ends es (l, r) ch = Inr (ch\<lparr>wg_heap := (wg_heap ch)[wg := wg_heap ch ! wg - int (length es)]\<rparr>)"
  using assms
proof (induction es arbitrary: ch)
  case (Cons e es)
  let ?ch = "ch\<lparr>wg_heap := (wg_heap ch)[wg := wg_heap ch ! wg - 1]\<rparr>"
  obtain l' r' where e: "end_addrs e (l, r) = (l', r')"
    by fastforce
  then have "getKey port_tcp l' r' = getKey port_tcp l r"
    using getKey_sym [of port_tcp r l] by (cases e) auto
  then have "Connected port_tcp l' r' ch = Inr (None, ?ch)"
    using Cons.prems by (simp add: Connected_def getWaitGroup_def wg_Done_def)
  then show ?case
    using Cons.IH [of ?ch] Cons.prems by (simp add: e algebra_simps)
qed simp

lemma CreateConn_ok:
  "cl_agents c p = Some a \<Longrightarrow> cl_agents c q = Some b \<Longrightarrow> latency_Find (City a) (City b) (cl_latency c) = Inr d \<Longrightarrow> \<exists>x. CreateConn conn p q c = Inr x"
  by (simp add: CreateConn_def GetAgentCity_def GetAgent_def Network_Conn_def)

text \<open>A call whose connection is established and reported by both ends succeeds, on every table that has no entry for it, and leaves the
  table as it was.\<close>

lemma Connect_established:
  assumes "Host a \<noteq> None" "Host b \<noteq> None" "host (a, b) = HostConnect (Dialled None es)" "length es = 2"
    and "\<exists>x. CreateConn () (listen_port a c) (listen_port b c) c = Inr x" "\<exists>y. CreateConn () (listen_port b c) (listen_port a c) c = Inr y"
    and "wgs ch (getKey port_tcp (listen_port a c) (listen_port b c)) = None"
  shows "\<exists>ch'. Connect host c (a, b) ch = Inr (Some None, ch') \<and> wgs ch' = wgs ch"
proof -
  let ?l = "listen_port a c" and ?r = "listen_port b c"
  let ?k = "getKey port_tcp ?l ?r" and ?wg = "length (wg_heap ch)"
  let ?ch1 = "Add_insert ?k ch"
  let ?ch2 = "?ch1\<lparr>wg_heap := (wg_heap ?ch1)[?wg := 0]\<rparr>"
  have add: "Add port_tcp ?l ?r ch = (None, ?ch1)"
    using assms(7) by (simp add: Add_def Add_check_def)
  have rep: "report_ends es (?l, ?r) ?ch1 = Inr ?ch2"
    using report_ends_count [of ?ch1 ?l ?r ?wg es] assms(4) by (simp add: Add_insert_def)
  have "Wait port_tcp ?l ?r ?ch2 = Released"
    by (simp add: Wait_def getWaitGroup_def Add_insert_def)
  then have "Connect host c (a, b) ch = Inr (Some None, Delete port_tcp ?l ?r ?ch2)"
    using assms(1-3,5,6) add rep by (auto simp: Connect_def Let_def simp del: go_bind_Inr_iff)
  moreover have "wgs (Delete port_tcp ?l ?r ?ch2) = wgs ch"
    using assms(7) by (auto simp: Delete_def Add_insert_def)
  ultimately show ?thesis
    by blast
qed

section \<open>Adding agents\<close>

text \<open>The agent that \<open>AddAgents\<close> makes in its \<open>i\<close>-th iteration.\<close>

definition added_agent :: "(nat \<Rightarrow> nat) \<Rightarrow> GossipConfig \<Rightarrow> Cluster \<Rightarrow> int \<Rightarrow> GossipAgent" where
  "added_agent r v c i = \<lparr>City = snd (SourcesList (cl_latency c) ! (r (nat i) mod length (SourcesList (cl_latency c)))), Port = i,
     Validator = (i < ValidatorCount (cl_config c)), Host = None, Config = v, Topic = None\<rparr>"

definition ports_ok :: "int \<Rightarrow> Cluster \<Rightarrow> bool" where
  "ports_ok n c \<longleftrightarrow> 0 \<le> startingPort c \<and> 0 \<le> n \<and> startingPort c + n < 2 ^ 63 \<and> n < 2 ^ 31"

lemma AssignPort_ok: "ports_ok n c \<Longrightarrow> 0 \<le> i \<Longrightarrow> i < n \<Longrightarrow> AssignPort i c = startingPort c + i"
  by (simp add: AssignPort_def ports_ok_def wrap64_id)

lemma added_agent_update [simp]: "added_agent r v (c\<lparr>cl_agents := m\<rparr>) i = added_agent r v c i"
  by (simp add: added_agent_def)

lemma ports_ok_update [simp]: "ports_ok n (c\<lparr>cl_agents := m\<rparr>) = ports_ok n c"
  by (simp add: ports_ok_def)

lemma add_agents_from_result:
  assumes "SourcesList (cl_latency c) \<noteq> []" "ports_ok n c" "0 \<le> i" "i \<le> n"
  shows "add_agents_from r (GossipConfigPtr v) n i c =
    Inr (c\<lparr>cl_agents := (\<lambda>p. if startingPort c + i \<le> p \<and> p < startingPort c + n then Some (added_agent r v c (p - startingPort c)) else cl_agents c p)\<rparr>)"
  using assms
proof (induction "nat (n - i)" arbitrary: i c)
  case 0
  then have "i = n"
    by simp
  moreover have "(\<lambda>p. if startingPort c + n \<le> p \<and> p < startingPort c + n then Some (added_agent r v c (p - startingPort c)) else cl_agents c p) = cl_agents c"
    by (intro ext) auto
  ultimately show ?case
    by (subst add_agents_from.simps) simp
next
  case (Suc k)
  let ?c = "c\<lparr>cl_agents := (cl_agents c)(startingPort c + i \<mapsto> added_agent r v c i)\<rparr>"
  have i: "i < n"
    using Suc.hyps(2) by simp
  have "add_agents_from r (GossipConfigPtr v) n i c = add_agents_from r (GossipConfigPtr v) n (i + 1) ?c"
    using Suc.prems i
    by (subst add_agents_from.simps) (simp add: GetRandomCity_def NewAgent_def AssignPort_ok added_agent_def)
  also have "\<dots> = Inr (?c\<lparr>cl_agents := (\<lambda>p. if startingPort ?c + (i + 1) \<le> p \<and> p < startingPort ?c + n
      then Some (added_agent r v ?c (p - startingPort ?c)) else cl_agents ?c p)\<rparr>)"
    using Suc.prems i Suc.hyps(2) by (intro Suc.hyps(1)) simp_all
  also have "\<dots> = Inr (c\<lparr>cl_agents := (\<lambda>p. if startingPort c + i \<le> p \<and> p < startingPort c + n
      then Some (added_agent r v c (p - startingPort c)) else cl_agents c p)\<rparr>)"
    using i by (auto simp: fun_eq_iff)
  finally show ?case .
qed

definition added_agents :: "(nat \<Rightarrow> nat) \<Rightarrow> GossipConfig \<Rightarrow> int \<Rightarrow> Cluster \<Rightarrow> (int \<rightharpoonup> GossipAgent)" where
  "added_agents r v n c = (\<lambda>p. if startingPort c \<le> p \<and> p < startingPort c + n then Some (added_agent r v c (p - startingPort c)) else None)"

lemma NewCluster_simps [simp]:
  "cl_latency (NewCluster lat cfg) = lat" "cl_agents (NewCluster lat cfg) = Map.empty"
  "startingPort (NewCluster lat cfg) = StartingPort cfg" "cl_config (NewCluster lat cfg) = cfg"
  by (simp_all add: NewCluster_def)

lemma AddAgents_New:
  assumes "SourcesList lat \<noteq> []" "ports_ok n (NewCluster lat cfg)"
  shows "AddAgents r (GossipConfigPtr v) n (NewCluster lat cfg) =
    Inr ((NewCluster lat cfg)\<lparr>cl_agents := added_agents r v n (NewCluster lat cfg)\<rparr>)"
  using add_agents_from_result [of "NewCluster lat cfg" n 0 r v] assms
  by (simp add: AddAgents_def added_agents_def ports_ok_def cong: if_cong)

lemma dom_added_agents: "dom (added_agents r v n c) = {startingPort c..<startingPort c + n}"
  by (auto simp: added_agents_def split: if_splits)

text \<open>The entries of the cluster's map in some order.\<close>

definition range_of :: "(int \<rightharpoonup> GossipAgent) \<Rightarrow> agents \<Rightarrow> bool" where
  "range_of m as \<longleftrightarrow> distinct (map fst as) \<and> map_of as = m"

lemma range_of_entry: "range_of m as \<Longrightarrow> (p, a) \<in> set as \<longleftrightarrow> m p = Some a"
  by (auto simp: range_of_def)

lemma range_of_length: "range_of m as \<Longrightarrow> length as = card (dom m)"
  unfolding range_of_def by (metis distinct_card dom_map_of_conv_image_fst length_map list.set_map)

text \<open>A map whose agents are at their port, shifted by the first port.\<close>

definition indexed :: "int \<Rightarrow> int \<Rightarrow> (int \<rightharpoonup> GossipAgent) \<Rightarrow> bool" where
  "indexed sp n m \<longleftrightarrow> dom m = {sp..<sp + n} \<and> (\<forall>p a. m p = Some a \<longrightarrow> Port a = p - sp)"

lemma indexed_added: "indexed (startingPort c) n (added_agents r v n c)"
  by (auto simp: indexed_def dom_added_agents) (auto simp: added_agents_def added_agent_def split: if_splits)

lemma indexed_range:
  assumes "indexed sp n m" "range_of m as" "0 \<le> n" "n < 2 ^ 63"
  shows "peers_ok (map snd as)" "int (length as) = n" "Port ` set (map snd as) = {0..<n}"
proof -
  have port: "Port (snd e) = fst e - sp" "fst e \<in> {sp..<sp + n}" if "e \<in> set as" for e
    using assms(1) range_of_entry [OF assms(2), of "fst e" "snd e"] that by (auto simp: indexed_def)
  have dist: "distinct (map fst as)"
    using assms(2) by (simp add: range_of_def)
  have "map (Port \<circ> snd) as = map ((\<lambda>p. p - sp) \<circ> fst) as"
    using port by simp
  moreover have "distinct (map ((\<lambda>p. p - sp) \<circ> fst) as)"
    using dist by (simp add: distinct_map inj_on_def comp_def)
  ultimately have "distinct (map Port (map snd as))"
    by (metis map_map)
  moreover show len: "int (length as) = n"
    using range_of_length [OF assms(2)] assms(1,3) by (simp add: indexed_def)
  ultimately show "peers_ok (map snd as)"
    using port assms(3,4) by (auto simp: peers_ok_def)
  have "fst ` set as = {sp..<sp + n}"
    using assms(1,2) by (metis dom_map_of_conv_image_fst indexed_def range_of_def)
  moreover have "x \<in> (\<lambda>p. p - sp) ` {sp..<sp + n}" if "0 \<le> x" "x < n" for x
    using that by (intro image_eqI [of _ _ "x + sp"]) auto
  ultimately have "(\<lambda>p. p - sp) ` fst ` set as = {0..<n}"
    by auto
  moreover have "Port ` snd ` set as = (\<lambda>p. p - sp) ` fst ` set as"
    using port(1) by (auto simp: image_image)
  ultimately show "Port ` set (map snd as) = {0..<n}"
    by simp
qed

section \<open>Starting agents\<close>

abbreviation listen_at :: "libp2p \<Rightarrow> (int \<Rightarrow> int) \<Rightarrow> Cluster \<Rightarrow> int \<Rightarrow> GossipAgent \<Rightarrow> error option \<times> GossipAgent \<times> entry list" where
  "listen_at lib now c i a \<equiv> Listen lib (now i) (Ip (cl_config c)) (startingPort c + i) a"

lemma start_agent_result:
  assumes "ports_ok n c" "0 \<le> i" "i < n" "cl_agents c (startingPort c + i) = Some a" "Host a = None"
  shows "start_agent lib now i c =
    (case listen_at lib now c i a of
       (None, a', es) \<Rightarrow> Inr (None, c\<lparr>cl_agents := (cl_agents c)(startingPort c + i \<mapsto> a')\<rparr>)
     | (Some e, a', es) \<Rightarrow> Inl NilDereference)"
proof -
  have "Host a' = None" if "listen_at lib now c i a = (Some e, a', es)" for e a' es
    using that assms(5) by (auto simp: Listen_def split: sum.splits option.splits)
  then show ?thesis
    using assms(4) AssignPort_ok [OF assms(1-3)]
    by (auto simp: start_agent_def GetAgent_def RemoveAgent_def Stop_def Let_def split: prod.split option.split)
qed

lemma start_calls_result:
  assumes "ports_ok n c" "distinct calls" "set calls \<subseteq> {0..<n}"
    and "\<forall>i \<in> set calls. cl_agents c (startingPort c + i) = Some (ag i) \<and> Host (ag i) = None"
  shows "start_calls lib now calls c =
    (if \<forall>i \<in> set calls. fst (listen_at lib now c i (ag i)) = None
     then Inr (c\<lparr>cl_agents := (\<lambda>p. if p - startingPort c \<in> set calls
       then Some (fst (snd (listen_at lib now c (p - startingPort c) (ag (p - startingPort c))))) else cl_agents c p)\<rparr>)
     else Inl NilDereference)"
  using assms
proof (induction calls arbitrary: c)
  case (Cons i calls)
  obtain err a' es where l: "listen_at lib now c i (ag i) = (err, a', es)"
    by (cases "listen_at lib now c i (ag i)")
  have step: "start_agent lib now i c =
    (case listen_at lib now c i (ag i) of
       (None, a', es) \<Rightarrow> Inr (None, c\<lparr>cl_agents := (cl_agents c)(startingPort c + i \<mapsto> a')\<rparr>)
     | (Some e, a', es) \<Rightarrow> Inl NilDereference)"
    using Cons.prems by (intro start_agent_result [of n]) auto
  show ?case
  proof (cases err)
    case None
    let ?c = "c\<lparr>cl_agents := (cl_agents c)(startingPort c + i \<mapsto> a')\<rparr>"
    have "start_calls lib now (i # calls) c = start_calls lib now calls ?c"
      using step l None by (simp del: go_bind_Inr_iff)
    also have "\<dots> = (if \<forall>i \<in> set calls. fst (listen_at lib now ?c i (ag i)) = None
     then Inr (?c\<lparr>cl_agents := (\<lambda>p. if p - startingPort ?c \<in> set calls
       then Some (fst (snd (listen_at lib now ?c (p - startingPort ?c) (ag (p - startingPort ?c))))) else cl_agents ?c p)\<rparr>)
     else Inl NilDereference)"
      using Cons.prems by (intro Cons.IH) auto
    also have "\<dots> = (if \<forall>i \<in> set (i # calls). fst (listen_at lib now c i (ag i)) = None
     then Inr (c\<lparr>cl_agents := (\<lambda>p. if p - startingPort c \<in> set (i # calls)
       then Some (fst (snd (listen_at lib now c (p - startingPort c) (ag (p - startingPort c))))) else cl_agents c p)\<rparr>)
     else Inl NilDereference)"
      using l None Cons.prems(2) by (auto cong: if_cong intro!: arg_cong [where f = "\<lambda>m. c\<lparr>cl_agents := m\<rparr>"] ext)
    finally show ?thesis .
  next
    case (Some e)
    then show ?thesis
      using step l by simp
  qed
qed simp

lemma Listen_ok:
  assumes "Listen lib t ip p a = (None, a', es)"
  shows "Host a' \<noteq> None" "Topic a' \<noteq> None" "Port a' = Port a" "Validator a' = Validator a" "City a' = City a"
  using assms by (auto simp: Listen_def split: sum.splits option.splits)

text \<open>The cluster after \<open>AddAgents\<close>, seen by the index of its agents.\<close>

definition fresh_cluster :: "int \<Rightarrow> (int \<Rightarrow> GossipAgent) \<Rightarrow> Cluster \<Rightarrow> bool" where
  "fresh_cluster n ag c \<longleftrightarrow> ports_ok n c \<and> 0 < n \<and>
     cl_agents c = (\<lambda>p. if startingPort c \<le> p \<and> p < startingPort c + n then Some (ag (p - startingPort c)) else None) \<and>
     (\<forall>i. Host (ag i) = None)"

lemma fresh_cluster_facts:
  assumes "fresh_cluster n ag c"
  shows "small_args (int (card (dom (cl_agents c)))) 1 1000" "int (card (dom (cl_agents c))) = n"
    "set calls \<subseteq> {0..<n} \<Longrightarrow> \<forall>i \<in> set calls. cl_agents c (startingPort c + i) = Some (ag i) \<and> Host (ag i) = None"
proof -
  have "dom (cl_agents c) = {startingPort c..<startingPort c + n}"
    using assms by (auto simp: fresh_cluster_def split: if_splits)
  then show n: "int (card (dom (cl_agents c))) = n"
    using assms by (simp add: fresh_cluster_def)
  show "small_args (int (card (dom (cl_agents c)))) 1 1000"
    unfolding n using assms by (simp add: small_args_def fresh_cluster_def ports_ok_def)
  show "\<forall>i \<in> set calls. cl_agents c (startingPort c + i) = Some (ag i) \<and> Host (ag i) = None" if "set calls \<subseteq> {0..<n}"
    using assms that by (auto simp: fresh_cluster_def)
qed

text \<open>The two outcomes: every \<open>Listen\<close> succeeds, or the process dies in \<open>RemoveAgent\<close>.\<close>

lemma StartAgents_runs:
  assumes f: "fresh_cluster n ag c"
  shows "\<exists>result c'. StartAgents lib now c result c'"
proof -
  let ?k = "int (card (dom (cl_agents c)))" and ?fn = "start_outcome lib now c"
  note small = fresh_cluster_facts(1) [OF f]
  obtain result calls where run: "MultiRoutineRunner ?k 1 1000 ?fn result calls"
    using MultiRoutineRunner_returns [OF small] by blast
  then obtain cs s where s: "runner_plan ?k 1 1000 = Inr cs" "runner_reach ?fn cs s" "calls = r_calls s" "result = Inr (r_success s, r_failed s)"
    using runner_plan_partition [OF small] by (auto elim: MultiRoutineRunner.cases)
  show ?thesis
  proof (cases "start_calls lib now calls c")
    case (Inl p)
    then show ?thesis
      using StartAgents.call_panics [OF s(1,2)] s(3) by blast
  next
    case (Inr c')
    then show ?thesis
      using StartAgents.returns run s(4) by blast
  qed
qed

lemma StartAgents_outcome:
  assumes f: "fresh_cluster n ag c" and run: "StartAgents lib now c result c'"
  shows "if \<forall>i \<in> {0..<n}. fst (listen_at lib now c i (ag i)) = None
    then result = Inr (n, 0) \<and> c' = c\<lparr>cl_agents := (\<lambda>p. if startingPort c \<le> p \<and> p < startingPort c + n
       then Some (fst (snd (listen_at lib now c (p - startingPort c) (ag (p - startingPort c))))) else None)\<rparr>
    else result = Inl NilDereference"
proof -
  note facts = fresh_cluster_facts [OF f]
  have po: "ports_ok n c" "0 < n" "n < 2 ^ 31"
    using f by (simp_all add: fresh_cluster_def ports_ok_def)
  have calls: "start_calls lib now calls c =
    (if \<forall>i \<in> set calls. fst (listen_at lib now c i (ag i)) = None
     then Inr (c\<lparr>cl_agents := (\<lambda>p. if p - startingPort c \<in> set calls
       then Some (fst (snd (listen_at lib now c (p - startingPort c) (ag (p - startingPort c))))) else cl_agents c p)\<rparr>)
     else Inl NilDereference)" if "distinct calls" "set calls \<subseteq> {0..<n}" for calls
    using start_calls_result [OF po(1) that facts(3) [OF that(2)]] .
  from run show ?thesis
  proof cases
    case (runner_panics p calls)
    then show ?thesis
      using MultiRoutineRunner_pool [OF facts(1)] by blast
  next
    case (call_panics cs s p)
    have "distinct (r_calls s)" "set (r_calls s) \<subseteq> {0..<n}"
      using runner_calls_so_far [OF facts(1) call_panics(3,4)] facts(2) by simp_all
    then have "p = NilDereference \<and> \<not> (\<forall>i \<in> {0..<n}. fst (listen_at lib now c i (ag i)) = None)"
      using calls call_panics(5) by (auto split: if_splits)
    then show ?thesis
      using call_panics(1) by auto
  next
    case (returns sf calls)
    let ?fn = "start_outcome lib now c"
    have set: "distinct calls" "set calls = {0..<n}"
      using start_pool.pool_each_once [OF _ _ returns(2)] facts(2) po by simp_all
    then have ok: "\<forall>i \<in> {0..<n}. fst (listen_at lib now c i (ag i)) = None"
      using calls [OF set(1)] returns(3) by (auto split: if_splits)
    have "?fn i = None" if "i \<in> {0..<n}" for i
      using start_agent_result [OF po(1), of i "ag i" lib now] facts(3) [of "[i]"] that ok
      by (auto simp: start_outcome_def split: prod.splits option.splits)
    then have "filter (\<lambda>k. ?fn k \<noteq> None) [0..n - 1] = []" "filter (\<lambda>k. ?fn k = None) [0..n - 1] = [0..n - 1]"
      by (simp_all add: filter_empty_conv filter_id_conv)
    moreover have "Inr sf = Inr (int (length (filter (\<lambda>k. ?fn k = None) [0..n - 1])), int (length (filter (\<lambda>k. ?fn k \<noteq> None) [0..n - 1])))"
      using start_pool.pool_result [OF _ _ returns(2)] facts(2) po by simp
    ultimately have "sf = (n, 0)"
      using po by simp
    moreover have "c' = c\<lparr>cl_agents := (\<lambda>p. if p - startingPort c \<in> {0..<n}
       then Some (fst (snd (listen_at lib now c (p - startingPort c) (ag (p - startingPort c))))) else cl_agents c p)\<rparr>"
      using calls [OF set(1)] set(2) returns(3) ok by simp
    moreover have "cl_agents c p = None" if "p - startingPort c \<notin> {0..<n}" for p
      using f that by (auto simp: fresh_cluster_def)
    ultimately show ?thesis
      using ok returns(1) by (auto cong: if_cong intro!: arg_cong [where f = "\<lambda>m. c\<lparr>cl_agents := m\<rparr>"] ext)
  qed
qed

lemma added_agent_fields [simp]:
  "Port (added_agent r v c i) = i" "Validator (added_agent r v c i) \<longleftrightarrow> i < ValidatorCount (cl_config c)"
  "Host (added_agent r v c i) = None"
  by (simp_all add: added_agent_def)

lemma added_agent_city: "SourcesList (cl_latency c) \<noteq> [] \<Longrightarrow> City (added_agent r v c i) \<in> snd ` set (SourcesList (cl_latency c))"
  by (simp add: added_agent_def)

lemma length_filter_range:
  assumes "indexed sp n m" "range_of m as" "\<And>p a. m p = Some a \<Longrightarrow> P a \<longleftrightarrow> Port a < k" "0 \<le> n"
  shows "int (length (filter P (map snd as))) = max 0 (min n k)"
proof -
  have e: "fst e \<in> {sp..<sp + n}" "P (snd e) \<longleftrightarrow> fst e - sp < k" if "e \<in> set as" for e
    using assms(1,3) range_of_entry [OF assms(2), of "fst e" "snd e"] that by (auto simp: indexed_def)
  have "length (filter P (map snd as)) = length (filter (\<lambda>p. p - sp < k) (map fst as))"
    using e(2) by (simp add: filter_map comp_def cong: filter_cong)
  also have "\<dots> = card (set (filter (\<lambda>p. p - sp < k) (map fst as)))"
    using assms(2) by (intro distinct_card [symmetric]) (simp add: range_of_def)
  also have "set (filter (\<lambda>p. p - sp < k) (map fst as)) = {sp..<sp + min n k}"
  proof -
    have "fst ` set as = {sp..<sp + n}"
      using assms(1,2) by (metis dom_map_of_conv_image_fst indexed_def range_of_def)
    then show ?thesis
      by auto
  qed
  finally show ?thesis
    by (simp add: int_nat_eq max_def)
qed

section \<open>The interfaces of the cluster\<close>

text \<open>
  What the cluster relies on of a \<open>Topology\<close>: on a map that suits it, \<open>MakeConnections\<close> returns without a panic when its calls return, and
  the pairs it connects are pairs of the agents and join them.
\<close>

locale agent_topology =
  fixes make :: "agents \<Rightarrow> connectionsList \<Rightarrow> unit go \<Rightarrow> bool"
    and suits :: "agents \<Rightarrow> bool"
  assumes make_returns: "peers_ok (map snd as) \<Longrightarrow> distinct (map fst as) \<Longrightarrow> suits as \<Longrightarrow> \<exists>conns result. make as conns result"
    and make_joins: "peers_ok (map snd as) \<Longrightarrow> distinct (map fst as) \<Longrightarrow> suits as \<Longrightarrow> make as conns result \<Longrightarrow>
      result = Inr () \<and> among (map snd as) conns \<and> connected_on (Port ` set (map snd as)) conns"
begin

lemma joins_cluster:
  assumes "indexed sp n m" "range_of m as" "0 \<le> n" "n < 2 ^ 63" "suits as"
  shows "\<exists>conns result. make as conns result"
    and "make as conns result \<Longrightarrow> result = Inr () \<and> among (map snd as) conns \<and> connected_on {0..<n} conns"
proof -
  have "distinct (map fst as)"
    using assms(2) by (simp add: range_of_def)
  then show "\<exists>conns result. make as conns result"
    and "make as conns result \<Longrightarrow> result = Inr () \<and> among (map snd as) conns \<and> connected_on {0..<n} conns"
    using make_returns [OF indexed_range(1) [OF assms(1-4)]] make_joins [OF indexed_range(1) [OF assms(1-4)]]
      indexed_range(3) [OF assms(1-4)] assms(5) by metis+
qed

end

text \<open>
  What the cluster relies on of a \<open>Messaging\<close>: when it is ready and the validators have been started, its loop can
  return, and no run of it panics.
\<close>

locale agent_messaging =
  fixes loop :: "agents \<Rightarrow> (int \<times> int) go \<Rightarrow> msg_loop \<Rightarrow> bool"
    and ready :: bool
  assumes loop_can_return: "ready \<Longrightarrow> \<forall>a \<in> set (filterValidators as). Host a \<noteq> None \<and> Topic a \<noteq> None \<Longrightarrow> filterValidators as \<noteq> [] \<Longrightarrow>
      \<exists>sf s. loop as (Inr sf) s"
    and loop_safe: "ready \<Longrightarrow> \<forall>a \<in> set (filterValidators as). Host a \<noteq> None \<and> Topic a \<noteq> None \<Longrightarrow> filterValidators as \<noteq> [] \<Longrightarrow>
      loop as result s \<Longrightarrow> \<exists>sf. result = Inr sf"
begin

lemma started_cluster:
  assumes ready and "indexed sp n m" "range_of m as" "1 \<le> k" "k \<le> n"
    and "\<forall>q a. m q = Some a \<longrightarrow> Host a \<noteq> None \<and> Topic a \<noteq> None \<and> (Validator a \<longleftrightarrow> Port a < k)"
  shows "\<exists>sf s. loop as (Inr sf) s" and "loop as result s \<Longrightarrow> \<exists>sf. result = Inr sf"
proof -
  have "int (length (filter IsValidator (map snd as))) = max 0 (min n k)"
    using assms(4-6) by (intro length_filter_range [OF assms(2,3)]) auto
  then have "int (length (filterValidators as)) = k"
    using assms(4,5) by (simp add: filterValidators_def)
  then have "filterValidators as \<noteq> []"
    using assms(4) by (intro notI) simp
  moreover have "\<forall>a \<in> set (filterValidators as). Host a \<noteq> None \<and> Topic a \<noteq> None"
    using assms(6) range_of_entry [OF assms(3)] by (fastforce simp: filterValidators_def)
  ultimately show "\<exists>sf s. loop as (Inr sf) s" and "loop as result s \<Longrightarrow> \<exists>sf. result = Inr sf"
    using loop_can_return loop_safe assms(1) by blast+
qed

end

interpretation linear_topo: agent_topology "topology_MakeConnections connect r LinearTopo" "\<lambda>as. as \<noteq> []" for connect r
proof
  fix as :: agents
  assume as: "peers_ok (map snd as)" "distinct (map fst as)" "as \<noteq> []"
  then have "length as < 2 ^ 63"
    by (simp add: peers_ok_def)
  note lt = linear_topology_result [OF as(3,2) this, of connect]
  then show "\<exists>conns result. topology_MakeConnections connect r LinearTopo as conns result"
    using topology_MakeConnections.linear by blast
  fix conns result
  assume "topology_MakeConnections connect r LinearTopo as conns result"
  then show "result = Inr () \<and> among (map snd as) conns \<and> connected_on (Port ` set (map snd as)) conns"
  proof cases
    case (linear res calls)
    then obtain k where k: "res = Inr k" "set calls = {..<length as - 1}"
      using lt by blast
    then have "set conns = set (linear_conns as)"
      using linear lt by (auto simp: map_filter_def set_conv_nth [of "linear_conns as"] image_iff split: sum.splits)
    then show ?thesis
      using lt linear k linear_conns_among [OF as(2)] connected_on_mono [of _ "linear_conns as" conns] by (simp add: among_def)
  qed
qed

interpretation random_topo: agent_topology "topology_MakeConnections connect r (RandomTopo t)"
  "\<lambda>as. 2 \<le> length as \<and> CreateRing t \<and> length as \<le> unat (Count t) \<and> unat (Count t) < 2 ^ 31" for connect r t
proof
  fix as :: agents
  assume ok: "peers_ok (map snd as)" and s: "2 \<le> length as \<and> CreateRing t \<and> length as \<le> unat (Count t) \<and> unat (Count t) < 2 ^ 31"
  have s': "CreateRing t" "length (map snd as) \<le> unat (Count t)" "unat (Count t) < 2 ^ 31" "2 \<le> length (map snd as)"
    using s by simp_all
  show "\<exists>conns result. topology_MakeConnections connect r (RandomTopo t) as conns result"
    using ring_phase(1) [OF ok s', of connect r 0] topology_MakeConnections.random unfolding RandomTopology_MakeConnections_def by blast
  fix conns result
  assume "topology_MakeConnections connect r (RandomTopo t) as conns result"
  then show "result = Inr () \<and> among (map snd as) conns \<and> connected_on (Port ` set (map snd as)) conns"
  proof cases
    case (random res)
    then obtain k where "populate_ConnectAll connect t r 0 (map snd as) conns res k"
      by (auto simp: RandomTopology_MakeConnections_def)
    from ring_phase(2) [OF ok s' this] populate_ConnectAll_among [OF ok this] show ?thesis
      using random by auto
  qed
qed

interpretation supercluster_topo: agent_topology "topology_MakeConnections connect r (SuperClusterTopo t)"
  "\<lambda>as. length as \<le> 1000000 \<and> 2 \<le> length (filter IsValidator (map snd as)) \<and>
     (filter (\<lambda>a. \<not> IsValidator a) (map snd as) = [] \<or> 2 \<le> length (filter (\<lambda>a. \<not> IsValidator a) (map snd as)))" for connect r t
proof
  fix as :: agents
  assume ok: "peers_ok (map snd as)" and s: "length as \<le> 1000000 \<and> 2 \<le> length (filter IsValidator (map snd as)) \<and>
     (filter (\<lambda>a. \<not> IsValidator a) (map snd as) = [] \<or> 2 \<le> length (filter (\<lambda>a. \<not> IsValidator a) (map snd as)))"
  note sc = ok conjunct1 [OF s] refl conjunct1 [OF conjunct2 [OF s]] refl conjunct2 [OF conjunct2 [OF s]]
  show "\<exists>conns result. topology_MakeConnections connect r (SuperClusterTopo t) as conns result"
    using supercluster_runs [OF sc] topology_MakeConnections.supercluster by blast
  fix conns result
  assume "topology_MakeConnections connect r (SuperClusterTopo t) as conns result"
  then show "result = Inr () \<and> among (map snd as) conns \<and> connected_on (Port ` set (map snd as)) conns"
    by cases (use supercluster_result [OF sc] supercluster_among [OF sc(1,2,4)] in auto)
qed

lemma loop_of_safe:
  assumes "loop_of vs code" "\<forall>a \<in> set vs. Host a \<noteq> None \<and> Topic a \<noteq> None"
  shows "loop_reach lib rnd code t0 s \<Longrightarrow> \<not> loop_step lib rnd code s (Inl p)"
    and "\<exists>s a b. loop_reach lib rnd code t0 s \<and> lp_main s = MReturned a b"
  using loop_of_facts [OF assms] no_panic [OF loop_reach_ctl] loop_completes [OF ctl_inv_init] loop_reach_path [OF _ loop_reach.init] by metis+

interpretation constant_rate: agent_messaging "\<lambda>as. StartMessaging lib rnd n (ConstantRate c) as t0" "0 < Rate c" for lib rnd n c t0
proof
  fix as
  assume r: "0 < Rate c" and vs: "\<forall>a \<in> set (filterValidators as). Host a \<noteq> None \<and> Topic a \<noteq> None"
  have l: "loop_of (filterValidators as) (constant_rate_code c (filterValidators as))"
    using r by (auto simp: loop_of_def)
  from loop_of_safe(2) [OF l vs] obtain s a b where "ConstantRate_Loop lib rnd c (filterValidators as) t0 (a, b) s"
    by (fastforce simp: ConstantRate_Loop_def)
  then show "\<exists>sf s. StartMessaging lib rnd n (ConstantRate c) as t0 (Inr sf) s"
    using StartMessaging.constant_rate by blast
  fix result s
  assume "StartMessaging lib rnd n (ConstantRate c) as t0 result s"
  then show "\<exists>sf. result = Inr sf"
    by cases (use loop_of_safe(1) [OF l vs] in auto)
qed

interpretation hotstuff: agent_messaging "\<lambda>as. StartMessaging lib rnd n (Hotstuff h) as t0" True for lib rnd n h t0
proof
  fix as
  assume vs: "\<forall>a \<in> set (filterValidators as). Host a \<noteq> None \<and> Topic a \<noteq> None" and ne: "filterValidators as \<noteq> []"
  obtain code where code: "hotstuff_code h n (filterValidators as) = Inr code"
    using ne by (simp add: hotstuff_code_def Let_def)
  then have l: "loop_of (filterValidators as) code"
    unfolding loop_of_def by blast
  from loop_of_safe(2) [OF l vs] obtain s a b where "Hotstuff_Loop lib rnd h n (filterValidators as) t0 (Inr (a, b)) s"
    using code by (fastforce simp: Hotstuff_Loop_def)
  then show "\<exists>sf s. StartMessaging lib rnd n (Hotstuff h) as t0 (Inr sf) s"
    using StartMessaging.hotstuff by blast
  fix result s
  assume "StartMessaging lib rnd n (Hotstuff h) as t0 result s"
  then show "\<exists>sf. result = Inr sf"
    by cases (use loop_of_safe(1) [OF l vs] code in \<open>auto simp: Hotstuff_Loop_def\<close>)
qed

section \<open>Properties\<close>

text \<open>
  C23. \<open>AddAgents\<close> on a new cluster: it makes an agent for each of the \<open>n\<close> ports from the starting port on, with
  its index as port number, a city of the latency data and no host; exactly the first
  \<open>ValidatorCount\<close> agents are validators, so that \<open>filterValidators\<close> finds that many of them.
\<close>

theorem AddAgents_populates:
  assumes "SourcesList lat \<noteq> []" "ports_ok n (NewCluster lat cfg)"
  shows "\<exists>c. AddAgents r (GossipConfigPtr v) n (NewCluster lat cfg) = Inr c \<and>
    dom (cl_agents c) = {StartingPort cfg..<StartingPort cfg + n} \<and>
    (\<forall>i. 0 \<le> i \<and> i < n \<longrightarrow> (\<exists>a. GetAgent (AssignPort i c) c = Inr a \<and> Port a = i \<and> Host a = None \<and>
       (Validator a \<longleftrightarrow> i < ValidatorCount cfg) \<and> City a \<in> snd ` set (SourcesList lat))) \<and>
    (\<forall>as. range_of (cl_agents c) as \<longrightarrow> int (length (filterValidators as)) = max 0 (min n (ValidatorCount cfg)))"
proof -
  let ?new = "NewCluster lat cfg"
  let ?c = "?new\<lparr>cl_agents := added_agents r v n ?new\<rparr>"
  have ok: "ports_ok n ?c"
    using assms(2) by simp
  have "AssignPort i ?c = StartingPort cfg + i" if "0 \<le> i" "i < n" for i
    using AssignPort_ok [OF ok that] by simp
  moreover have "int (length (filterValidators as)) = max 0 (min n (ValidatorCount cfg))" if "range_of (added_agents r v n ?new) as" for as
    using assms(2) that indexed_added [of ?new n r v] unfolding filterValidators_def
    by (intro length_filter_range) (auto simp: added_agents_def ports_ok_def split: if_splits)
  moreover have "added_agents r v n ?new (StartingPort cfg + i) = Some (added_agent r v ?new i)" if "0 \<le> i" "i < n" for i
    using that by (simp add: added_agents_def)
  ultimately show ?thesis
    using AddAgents_New [OF assms, of r v] dom_added_agents [of r v n ?new] added_agent_city [of ?new r v] assms(1)
    by (simp add: GetAgent_def)
qed

lemma fresh_AddAgents:
  assumes "SourcesList lat \<noteq> []" "ports_ok n (NewCluster lat cfg)" "0 < n" "AddAgents r (GossipConfigPtr v) n (NewCluster lat cfg) = Inr c"
  shows "fresh_cluster n (added_agent r v (NewCluster lat cfg)) c" "cl_config c = cfg" "startingPort c = StartingPort cfg"
  using assms(2,3,4) AddAgents_New [OF assms(1,2), of r v] by (auto simp: fresh_cluster_def added_agents_def)

lemma StartAgents_ok:
  assumes "SourcesList lat \<noteq> []" "ports_ok n (NewCluster lat cfg)" "0 < n" "AddAgents r (GossipConfigPtr v) n (NewCluster lat cfg) = Inr c"
    and "\<forall>p a. cl_agents c p = Some a \<longrightarrow> fst (Listen lib (now (p - StartingPort cfg)) (Ip cfg) p a) = None"
  shows "(\<exists>result c'. StartAgents lib now c result c') \<and>
    (\<forall>result c'. StartAgents lib now c result c' \<longrightarrow> result = Inr (n, 0) \<and> indexed (StartingPort cfg) n (cl_agents c') \<and>
       (\<forall>p a. cl_agents c' p = Some a \<longrightarrow> Host a \<noteq> None \<and> Topic a \<noteq> None \<and> (Validator a \<longleftrightarrow> Port a < ValidatorCount cfg)))"
proof -
  let ?ag = "added_agent r v (NewCluster lat cfg)"
  note f = fresh_AddAgents [OF assms(1-4)]
  have ok: "\<forall>i \<in> {0..<n}. fst (listen_at lib now c i (?ag i)) = None"
    using assms(5) f fresh_cluster_facts(3) [OF f(1), of "[_]"] by fastforce
  have good: "Host a \<noteq> None \<and> Topic a \<noteq> None \<and> (Validator a \<longleftrightarrow> Port a < ValidatorCount cfg) \<and> Port a = i"
    if "i \<in> {0..<n}" "a = fst (snd (listen_at lib now c i (?ag i)))" for i a
    using ok that Listen_ok [of lib "now i" "Ip (cl_config c)" "startingPort c + i" "?ag i" a "snd (snd (listen_at lib now c i (?ag i)))"]
    by (metis NewCluster_simps(4) added_agent_fields(1,2) prod.collapse)
  have "result = Inr (n, 0) \<and> indexed (StartingPort cfg) n (cl_agents c') \<and>
       (\<forall>p a. cl_agents c' p = Some a \<longrightarrow> Host a \<noteq> None \<and> Topic a \<noteq> None \<and> (Validator a \<longleftrightarrow> Port a < ValidatorCount cfg))"
    if "StartAgents lib now c result c'" for result c'
  proof -
    have "result = Inr (n, 0)" and c': "cl_agents c' = (\<lambda>p. if StartingPort cfg \<le> p \<and> p < StartingPort cfg + n
       then Some (fst (snd (listen_at lib now c (p - StartingPort cfg) (?ag (p - StartingPort cfg))))) else None)"
      using StartAgents_outcome [OF f(1) that] ok f(3) by (simp_all cong: if_cong)
    moreover have "dom (cl_agents c') = {StartingPort cfg..<StartingPort cfg + n}"
      by (auto simp: c' split: if_splits)
    moreover have "p - StartingPort cfg \<in> {0..<n} \<and> a = fst (snd (listen_at lib now c (p - StartingPort cfg) (?ag (p - StartingPort cfg))))"
      if "cl_agents c' p = Some a" for p a
      using that by (auto simp: c' split: if_splits)
    ultimately show ?thesis
      using good unfolding indexed_def by blast
  qed
  then show ?thesis
    using StartAgents_runs [OF f(1)] by blast
qed

lemma StartAgents_keeps:
  assumes "SourcesList lat \<noteq> []" "ports_ok n (NewCluster lat cfg)" "0 < n" "AddAgents r (GossipConfigPtr v) n (NewCluster lat cfg) = Inr c"
    and "\<forall>p a. cl_agents c p = Some a \<longrightarrow> fst (Listen lib (now (p - StartingPort cfg)) (Ip cfg) p a) = None"
    and "StartAgents lib now c result c'"
  shows "startingPort c' = StartingPort cfg" "cl_latency c' = lat" "cl_agents c' p = Some a \<Longrightarrow> City a \<in> snd ` set (SourcesList lat)"
proof -
  let ?ag = "added_agent r v (NewCluster lat cfg)"
  note f = fresh_AddAgents [OF assms(1-4)]
  have ok: "\<forall>i \<in> {0..<n}. fst (listen_at lib now c i (?ag i)) = None"
    using assms(5) f fresh_cluster_facts(3) [OF f(1), of "[_]"] by fastforce
  then have c': "c' = c\<lparr>cl_agents := (\<lambda>p. if StartingPort cfg \<le> p \<and> p < StartingPort cfg + n
       then Some (fst (snd (listen_at lib now c (p - StartingPort cfg) (?ag (p - StartingPort cfg))))) else None)\<rparr>"
    using StartAgents_outcome [OF f(1) assms(6)] f(3) by (simp cong: if_cong)
  have "cl_latency c = lat"
    using assms(4) AddAgents_New [OF assms(1,2), of r v] by auto
  then show "startingPort c' = StartingPort cfg" "cl_latency c' = lat"
    using c' f(3) by simp_all
  assume "cl_agents c' p = Some a"
  then have p: "p - StartingPort cfg \<in> {0..<n}" "a = fst (snd (listen_at lib now c (p - StartingPort cfg) (?ag (p - StartingPort cfg))))"
    by (auto simp: c' split: if_splits)
  then have "City a = City (?ag (p - StartingPort cfg))"
    using ok Listen_ok(5) by (metis prod.collapse)
  then show "City a \<in> snd ` set (SourcesList lat)"
    using added_agent_city [of "NewCluster lat cfg" r v] assms(1) by simp
qed

text \<open>
  C11. \<open>StartAgents\<close> after \<open>AddAgents\<close>, when every agent can listen: under every schedule of its goroutines it
  returns with all \<open>n\<close> agents started and none failed; the agents keep their ports and roles, and each has its
  host and topic.
\<close>

theorem StartAgents_starts_all:
  assumes "SourcesList lat \<noteq> []" "ports_ok n (NewCluster lat cfg)" "0 < n" "AddAgents r (GossipConfigPtr v) n (NewCluster lat cfg) = Inr c"
    and "\<forall>p a. cl_agents c p = Some a \<longrightarrow> fst (Listen lib (now (p - StartingPort cfg)) (Ip cfg) p a) = None"
  shows "(\<exists>result c'. StartAgents lib now c result c') \<and>
    (\<forall>result c'. StartAgents lib now c result c' \<longrightarrow> result = Inr (n, 0) \<and> indexed (StartingPort cfg) n (cl_agents c') \<and>
       (\<forall>p a. cl_agents c' p = Some a \<longrightarrow> Host a \<noteq> None \<and> Topic a \<noteq> None \<and> (Validator a \<longleftrightarrow> Port a < ValidatorCount cfg)))"
  using assms by (rule StartAgents_ok)

text \<open>
  C38. \<open>StartAgents\<close> after \<open>AddAgents\<close>, when the \<open>Listen\<close> of some agent fails: it never returns its counters. The
  call \<open>RemoveAgent\<close> that should drop the agent stops it first, and \<open>Stop\<close> reads the host that the failed
  \<open>Listen\<close> did not set: every schedule ends in that panic.
\<close>

theorem StartAgents_listen_error_panics:
  assumes "SourcesList lat \<noteq> []" "ports_ok n (NewCluster lat cfg)" "AddAgents r (GossipConfigPtr v) n (NewCluster lat cfg) = Inr c"
    and "cl_agents c p = Some a" "fst (Listen lib (now (p - StartingPort cfg)) (Ip cfg) p a) \<noteq> None"
  shows "(\<exists>result c'. StartAgents lib now c result c') \<and> (\<forall>result c'. StartAgents lib now c result c' \<longrightarrow> result = Inl NilDereference)"
proof -
  let ?ag = "added_agent r v (NewCluster lat cfg)"
  have p: "p - StartingPort cfg \<in> {0..<n}" "a = ?ag (p - StartingPort cfg)" "0 < n"
    using assms(3,4) AddAgents_New [OF assms(1,2), of r v] by (auto simp: added_agents_def split: if_splits)
  note f = fresh_AddAgents [OF assms(1,2) p(3) assms(3)]
  have "\<not> (\<forall>i \<in> {0..<n}. fst (listen_at lib now c i (?ag i)) = None)"
    using p(1,2) assms(5) f(2,3) by (auto intro!: bexI [of _ "p - StartingPort cfg"])
  then have "result = Inl NilDereference" if "StartAgents lib now c result c'" for result c'
    using StartAgents_outcome [OF f(1) that] by (simp only: if_False)
  then show ?thesis
    using StartAgents_runs [OF f(1)] by blast
qed

text \<open>
  \<open>CreateConn\<close> wraps a connection with the latency that the table gives for the cities of its two agents, and
  with the configured bandwidth and MTU or, where they are zero, 20480 Kbps and 1500 bytes; the delay is the
  full latency. It panics when one of the ports is not in the cluster.
\<close>

theorem CreateConn_network:
  "CreateConn conn p q c =
     (case (cl_agents c p, cl_agents c q) of
        (Some a, Some b) \<Rightarrow>
          (case latency_Find (City a) (City b) (cl_latency c) of
             Inl e \<Rightarrow> Inl e
           | Inr d \<Rightarrow> Inr (Inr (\<lparr>network = \<lparr>Kbps = (if cfg_Kbps (cl_config c) = 0 then 20480 else cfg_Kbps (cl_config c)), Latency = d,
                                            MTU = (if cfg_MTU (cl_config c) = 0 then 1500 else cfg_MTU (cl_config c))\<rparr>,
                                readBuf = [], lastSendEnd = zero_time, delay = d\<rparr>, conn)))
      | (Some a, None) \<Rightarrow> Inl (Explicit (''Agent does not exist: '' @ show_int q))
      | (None, _) \<Rightarrow> Inl (Explicit (''Agent does not exist: '' @ show_int p)))"
  by (cases "cl_agents c p"; cases "cl_agents c q"; cases "latency_Find (City (the (cl_agents c p))) (City (the (cl_agents c q))) (cl_latency c)")
    (simp_all add: CreateConn_def GetAgentCity_def GetAgent_def getValue_def defaultKbps_def defaultMTU_def Network_Conn_def)

section \<open>Witnesses\<close>

definition ex_config :: ClusterConfig where
  "ex_config = \<lparr>ValidatorCount = 2, StartingPort = 10000, Ip = ''127.0.0.1'', MsgSize = 1024, cfg_Kbps = 0, cfg_MTU = 0\<rparr>"

lemma ex_ports_ok: "ports_ok 3 (NewCluster ex_latencies ex_config)"
  by (simp add: ports_ok_def ex_config_def)

lemma ex_sources: "SourcesList ex_latencies \<noteq> []"
  by (simp add: ex_latencies_def fill_sources_def)

lemma ex_lib_listens: "fst (Listen ex_lib t ip p a) = None"
  by (simp add: Listen_def ex_lib_def)

theorem AddAgents_populates_witness:
  "\<exists>c a. AddAgents (\<lambda>k. k) (GossipConfigPtr (Config ex_agent)) 3 (NewCluster ex_latencies ex_config) = Inr c \<and>
     dom (cl_agents c) = {10000..<10003} \<and> GetAgent (AssignPort 1 c) c = Inr a \<and> Port a = 1 \<and> Validator a"
proof -
  obtain c where c: "AddAgents (\<lambda>k. k) (GossipConfigPtr (Config ex_agent)) 3 (NewCluster ex_latencies ex_config) = Inr c"
    "dom (cl_agents c) = {StartingPort ex_config..<StartingPort ex_config + 3}"
    "\<forall>i. 0 \<le> i \<and> i < 3 \<longrightarrow> (\<exists>a. GetAgent (AssignPort i c) c = Inr a \<and> Port a = i \<and> Host a = None \<and>
       (Validator a \<longleftrightarrow> i < ValidatorCount ex_config) \<and> City a \<in> snd ` set (SourcesList ex_latencies))"
    using AddAgents_populates [OF ex_sources ex_ports_ok, of "\<lambda>k. k" "Config ex_agent"] by blast
  from c(3) obtain a where "GetAgent (AssignPort 1 c) c = Inr a" "Port a = 1" "Validator a"
    by (auto simp: ex_config_def dest!: spec [of _ 1])
  then show ?thesis
    using c(1,2) by (auto simp: ex_config_def)
qed

theorem StartAgents_starts_all_witness:
  "\<exists>c c'. AddAgents (\<lambda>k. k) (GossipConfigPtr (Config ex_agent)) 3 (NewCluster ex_latencies ex_config) = Inr c \<and>
     StartAgents ex_lib (\<lambda>i. i) c (Inr (3, 0)) c' \<and> indexed 10000 3 (cl_agents c')"
proof -
  obtain c where c: "AddAgents (\<lambda>k. k) (GossipConfigPtr (Config ex_agent)) 3 (NewCluster ex_latencies ex_config) = Inr c"
    using AddAgents_New [OF ex_sources ex_ports_ok] by blast
  have "StartingPort ex_config = 10000"
    by (simp add: ex_config_def)
  then show ?thesis
    using StartAgents_starts_all [OF ex_sources ex_ports_ok _ c, of ex_lib "\<lambda>i. i"] ex_lib_listens c by fastforce
qed

theorem StartAgents_listen_error_panics_witness:
  "\<exists>c c'. AddAgents (\<lambda>k. k) (GossipConfigPtr (Config ex_agent)) 3 (NewCluster ex_latencies ex_config) = Inr c \<and>
     StartAgents (ex_lib\<lparr>lib_New := \<lambda>_ _. Inl ''address in use''\<rparr>) (\<lambda>i. i) c (Inl NilDereference) c'"
proof -
  let ?lib = "ex_lib\<lparr>lib_New := \<lambda>_ _. Inl ''address in use''\<rparr>"
  obtain c where c: "AddAgents (\<lambda>k. k) (GossipConfigPtr (Config ex_agent)) 3 (NewCluster ex_latencies ex_config) = Inr c"
    "cl_agents c 10001 = Some (added_agent (\<lambda>k. k) (Config ex_agent) (NewCluster ex_latencies ex_config) 1)"
    using AddAgents_New [OF ex_sources ex_ports_ok, of "\<lambda>k. k" "Config ex_agent"] by (auto simp: added_agents_def ex_config_def)
  have "fst (Listen ?lib t ip p a) \<noteq> None" for t ip p a
    by (simp add: Listen_def ex_lib_def)
  then show ?thesis
    using StartAgents_listen_error_panics [OF ex_sources ex_ports_ok c, of ?lib "\<lambda>i. i"] c(1) by blast
qed

end
