(* ===== verification/Transport.thy ===== *)
theory Transport
  imports Strconv
begin

text \<open>
  \<open>network/transport.go\<close> and \<open>network/transport_manager.go\<close>: the transport that connects agents inside one process.

  A \<open>*Transport\<close> is an address into the list \<open>tm_heap\<close>; the manager's table maps the printed peer id to it.
  \<open>Dial\<close> makes a pair of connected ends (\<open>net.Pipe\<close>), keeps the left end and starts a goroutine that hands the
  right end to the listener. The manager, the channels and the goroutines are the state \<open>fabric\<close>: a started
  goroutine is an entry of \<open>tm_offers\<close>; once it has found the listener it is blocked on the unbuffered
  \<open>acceptCh\<close>, an entry of \<open>t_waiting\<close>, until \<open>Accept\<close> receives from it. \<open>closedCh\<close> is the boolean "closed".

  Multiaddresses, peer ids, the upgrader and the latency factory are not part of these files: they are the record
  \<open>net_lib\<close>. The base factory is the benchmark's \<open>createBaseConn\<close>. \<open>tm_dialed\<close>, \<open>tm_accepted\<close> and \<open>tm_dropped\<close> record what \<open>Dial\<close>
  kept, what \<open>Accept\<close> returned and what it received but could not wrap or upgrade; they are not program state.
\<close>

section \<open>Data\<close>

datatype side = LeftEnd | RightEnd

type_synonym base_conn = "nat \<times> side"

record ('a, 'l) manetConn =
  mc_conn :: 'l
  mc_laddr :: 'a
  mc_raddr :: 'a

definition LocalMultiaddr :: "('a, 'l) manetConn \<Rightarrow> 'a" where
  "LocalMultiaddr c = mc_laddr c"

definition RemoteMultiaddr :: "('a, 'l) manetConn \<Rightarrow> 'a" where
  "RemoteMultiaddr c = mc_raddr c"

record ('a, 'l, 'c) net_lib =
  P_TCP :: int
  ma_tcp :: "'a \<Rightarrow> string option"
  ma_String :: "'a \<Rightarrow> string"
  Pretty :: "string \<Rightarrow> string"
  LatencyConnFactory :: "base_conn \<Rightarrow> int \<Rightarrow> int \<Rightarrow> (error + 'l) go"
  Upgrade :: "('a, 'l) manetConn \<Rightarrow> bool \<Rightarrow> string \<Rightarrow> error + 'c"
  ToNetAddr :: "'a \<Rightarrow> string"

record 'a acceptChData =
  ac_conn :: base_conn
  ac_peerId :: string
  ac_raddr :: 'a

record 'a Transport =
  t_peerId :: string
  t_laddr :: "'a option"
  t_closed :: bool
  t_once :: bool
  t_waiting :: "'a acceptChData list"

record dial_record =
  d_conn :: base_conn
  d_dialer :: nat
  d_target :: string
  d_ok :: bool

record accept_record =
  a_conn :: base_conn
  a_listener :: nat
  a_peer :: string

record 'a fabric =
  tm_heap :: "'a Transport list"
  transports :: "string \<rightharpoonup> nat"
  tm_conns :: nat
  tm_offers :: "(string \<times> 'a acceptChData) list"
  tm_dialed :: "dial_record list"
  tm_accepted :: "accept_record list"
  tm_dropped :: "accept_record list"

text \<open>\<open>createBaseConn\<close> of the benchmark, the \<open>BaseConnFactory\<close>: the two ends of the \<open>k\<close>-th \<open>net.Pipe\<close>.\<close>

definition createBaseConn :: "nat \<Rightarrow> base_conn \<times> base_conn" where
  "createBaseConn k = ((k, LeftEnd), (k, RightEnd))"

section \<open>transport_manager.go\<close>

definition NewTransportManager :: "'a fabric" where
  "NewTransportManager = \<lparr>tm_heap = [], transports = Map.empty, tm_conns = 0, tm_offers = [], tm_dialed = [], tm_accepted = [], tm_dropped = []\<rparr>"

definition GetTransport :: "('a, 'l, 'c) net_lib \<Rightarrow> string \<Rightarrow> 'a fabric \<Rightarrow> nat go" where
  "GetTransport lib peerId m =
     (let transportId = Pretty lib peerId
      in case transports m transportId of None \<Rightarrow> Inl (Explicit (''Transport does not exists: '' @ transportId)) | Some t \<Rightarrow> Inr t)"

text \<open>The function that \<open>Transport()\<close> returns, called for a host with the id \<open>peerId\<close>.\<close>

definition Transport_new :: "('a, 'l, 'c) net_lib \<Rightarrow> string \<Rightarrow> 'a fabric \<Rightarrow> nat \<times> 'a fabric" where
  "Transport_new lib peerId m =
     (length (tm_heap m),
      m\<lparr>tm_heap := tm_heap m @ [\<lparr>t_peerId = peerId, t_laddr = None, t_closed = False, t_once = False, t_waiting = []\<rparr>],
        transports := (transports m)(Pretty lib peerId \<mapsto> length (tm_heap m))\<rparr>)"

section \<open>transport.go\<close>

definition getPort :: "('a, 'l, 'c) net_lib \<Rightarrow> 'a \<Rightarrow> int go" where
  "getPort lib addr =
     (case ma_tcp lib addr of None \<Rightarrow> Inl (Explicit (''invalid port for '' @ ma_String lib addr)) | Some sport \<Rightarrow> Inr (Atoi sport))"

definition set_transport :: "nat \<Rightarrow> 'a Transport \<Rightarrow> 'a fabric \<Rightarrow> 'a fabric" where
  "set_transport i t m = m\<lparr>tm_heap := (tm_heap m)[i := t]\<rparr>"

text \<open>\<open>Dial\<close> on transport \<open>i\<close>: what it returns to its caller, and the state with the goroutine it started.\<close>

definition Dial :: "('a, 'l, 'c) net_lib \<Rightarrow> nat \<Rightarrow> 'a option \<Rightarrow> string \<Rightarrow> 'a fabric \<Rightarrow> ((error + 'c) \<times> 'a fabric) go" where
  "Dial lib i raddr p m =
     (let t = tm_heap m ! i
      in case (t_laddr t, raddr) of
           (Some la, Some ra) \<Rightarrow>
             let (conn1, conn2) = createBaseConn (tm_conns m);
                 m' = m\<lparr>tm_conns := Suc (tm_conns m), tm_offers := tm_offers m @ [(p, \<lparr>ac_conn = conn2, ac_peerId = t_peerId t, ac_raddr = la\<rparr>)]\<rparr>
             in go_bind (getPort lib la) (\<lambda>lport.
                go_bind (getPort lib ra) (\<lambda>rport.
                go_bind (LatencyConnFactory lib conn1 lport rport) (\<lambda>r.
                  let conn = (case r of Inl err \<Rightarrow> Inl err
                              | Inr latencyConn \<Rightarrow> Upgrade lib \<lparr>mc_conn = latencyConn, mc_laddr = la, mc_raddr = ra\<rparr> True p)
                  in Inr (conn, m'\<lparr>tm_dialed := tm_dialed m @ [\<lparr>d_conn = conn1, d_dialer = i, d_target = p, d_ok = (\<not> isl conn)\<rparr>]\<rparr>))))
         | _ \<Rightarrow> Inl (Explicit ''laddr and raddr must be specified''))"

text \<open>The goroutine of a dial, up to its send on the listener's channel.\<close>

definition offer :: "('a, 'l, 'c) net_lib \<Rightarrow> nat \<Rightarrow> 'a fabric \<Rightarrow> 'a fabric go" where
  "offer lib j m =
     (case tm_offers m ! j of (p, ac) \<Rightarrow>
        go_bind (GetTransport lib p m) (\<lambda>other.
          let t = tm_heap m ! other
          in Inr ((set_transport other (t\<lparr>t_waiting := t_waiting t @ [ac]\<rparr>) m)
                  \<lparr>tm_offers := take j (tm_offers m) @ drop (Suc j) (tm_offers m)\<rparr>)))"

definition CanDial :: "'a \<Rightarrow> bool" where
  "CanDial addr = True"

definition transport_Listen :: "nat \<Rightarrow> 'a \<Rightarrow> 'a fabric \<Rightarrow> 'a fabric" where
  "transport_Listen i laddr m = set_transport i ((tm_heap m ! i)\<lparr>t_laddr := Some laddr\<rparr>) m"

definition Protocols :: "('a, 'l, 'c) net_lib \<Rightarrow> int list" where
  "Protocols lib = [P_TCP lib]"

definition Proxy :: bool where
  "Proxy = False"

text \<open>\<open>Accept\<close> on transport \<open>i\<close> that receives from the \<open>j\<close>-th goroutine blocked on its channel. A transport that
  does not listen has the nil address.\<close>

definition Accept_data :: "('a, 'l, 'c) net_lib \<Rightarrow> nat \<Rightarrow> nat \<Rightarrow> 'a fabric \<Rightarrow> ((error + 'c) \<times> 'a fabric) go" where
  "Accept_data lib i j m =
     (let t = tm_heap m ! i; ac = t_waiting t ! j; data = \<lparr>a_conn = ac_conn ac, a_listener = i, a_peer = ac_peerId ac\<rparr>;
          m' = set_transport i (t\<lparr>t_waiting := take j (t_waiting t) @ drop (Suc j) (t_waiting t)\<rparr>) m
      in go_bind (deref (t_laddr t)) (\<lambda>la.
         go_bind (getPort lib la) (\<lambda>lport.
         go_bind (getPort lib (ac_raddr ac)) (\<lambda>rport.
         go_bind (LatencyConnFactory lib (ac_conn ac) lport rport) (\<lambda>r.
           let conn = (case r of Inl err \<Rightarrow> Inl err
                       | Inr latencyConn \<Rightarrow> Upgrade lib \<lparr>mc_conn = latencyConn, mc_laddr = la, mc_raddr = ac_raddr ac\<rparr> False (ac_peerId ac))
           in Inr (conn, if isl conn then m'\<lparr>tm_dropped := tm_dropped m @ [data]\<rparr> else m'\<lparr>tm_accepted := tm_accepted m @ [data]\<rparr>))))))"

text \<open>\<open>Accept\<close>: with both channels ready the select takes either; with none it blocks (no result).\<close>

inductive transport_Accept :: "('a, 'l, 'c) net_lib \<Rightarrow> nat \<Rightarrow> 'a fabric \<Rightarrow> ((error + 'c) \<times> 'a fabric) go \<Rightarrow> bool" for lib i m where
  data: "j < length (t_waiting (tm_heap m ! i)) \<Longrightarrow> transport_Accept lib i m (Accept_data lib i j m)"
| closed: "t_closed (tm_heap m ! i) \<Longrightarrow> transport_Accept lib i m (Inr (Inl ''use of closed network connection'', m))"

text \<open>\<open>once.Do\<close> runs its function the first time only.\<close>

definition transport_Close :: "nat \<Rightarrow> 'a fabric \<Rightarrow> 'a fabric go" where
  "transport_Close i m =
     (let t = tm_heap m ! i
      in if t_once t then Inr m
         else if t_closed t then Inl CloseOfClosedChannel
         else Inr (set_transport i (t\<lparr>t_closed := True, t_once := True\<rparr>) m))"

definition transport_Addr :: "('a, 'l, 'c) net_lib \<Rightarrow> nat \<Rightarrow> 'a fabric \<Rightarrow> string option" where
  "transport_Addr lib i m = map_option (ToNetAddr lib) (t_laddr (tm_heap m ! i))"

definition transport_Multiaddr :: "nat \<Rightarrow> 'a fabric \<Rightarrow> 'a option" where
  "transport_Multiaddr i m = t_laddr (tm_heap m ! i)"

section \<open>The fabric at work\<close>

inductive fabric_step :: "('a, 'l, 'c) net_lib \<Rightarrow> 'a fabric \<Rightarrow> 'a fabric go \<Rightarrow> bool" for lib where
  create: "fabric_step lib m (Inr (snd (Transport_new lib peerId m)))"
| listen: "i < length (tm_heap m) \<Longrightarrow> fabric_step lib m (Inr (transport_Listen i laddr m))"
| dial: "i < length (tm_heap m) \<Longrightarrow> fabric_step lib m (go_bind (Dial lib i raddr p m) (\<lambda>(r, m'). Inr m'))"
| offered: "j < length (tm_offers m) \<Longrightarrow> fabric_step lib m (offer lib j m)"
| accept: "i < length (tm_heap m) \<Longrightarrow> transport_Accept lib i m r \<Longrightarrow> fabric_step lib m (go_bind r (\<lambda>(r, m'). Inr m'))"
| close: "i < length (tm_heap m) \<Longrightarrow> fabric_step lib m (transport_Close i m)"

inductive fabric_reach :: "('a, 'l, 'c) net_lib \<Rightarrow> 'a fabric \<Rightarrow> bool" for lib where
  init: "fabric_reach lib NewTransportManager"
| step: "fabric_reach lib m \<Longrightarrow> fabric_step lib m (Inr m') \<Longrightarrow> fabric_reach lib m'"

section \<open>Invariants\<close>

definition peer_of :: "'a fabric \<Rightarrow> nat \<Rightarrow> string" where
  "peer_of m i = t_peerId (tm_heap m ! i)"

text \<open>Peer ids are kept when the heap grows or a transport changes.\<close>

definition grows :: "'a fabric \<Rightarrow> 'a fabric \<Rightarrow> bool" where
  "grows m m' \<longleftrightarrow> length (tm_heap m) \<le> length (tm_heap m') \<and> (\<forall>i < length (tm_heap m). peer_of m' i = peer_of m i) \<and>
     set (tm_dialed m) \<subseteq> set (tm_dialed m')"

definition table_inv :: "('a, 'l, 'c) net_lib \<Rightarrow> 'a fabric \<Rightarrow> bool" where
  "table_inv lib m \<longleftrightarrow> (\<forall>s i. transports m s = Some i \<longrightarrow> i < length (tm_heap m) \<and> Pretty lib (peer_of m i) = s)"

text \<open>The connection \<open>k\<close> was dialled by the transport of the peer \<open>peer\<close>, towards a peer whose id prints as \<open>s\<close>.\<close>

definition dialled :: "('a, 'l, 'c) net_lib \<Rightarrow> 'a fabric \<Rightarrow> nat \<Rightarrow> string \<Rightarrow> string \<Rightarrow> bool" where
  "dialled lib m k peer s \<longleftrightarrow> (\<exists>d \<in> set (tm_dialed m). d_conn d = (k, LeftEnd) \<and> d_dialer d < length (tm_heap m) \<and>
     peer_of m (d_dialer d) = peer \<and> Pretty lib (d_target d) = s)"

definition origin_inv :: "('a, 'l, 'c) net_lib \<Rightarrow> 'a fabric \<Rightarrow> bool" where
  "origin_inv lib m \<longleftrightarrow>
     (\<forall>(p, ac) \<in> set (tm_offers m). snd (ac_conn ac) = RightEnd \<and> dialled lib m (fst (ac_conn ac)) (ac_peerId ac) (Pretty lib p)) \<and>
     (\<forall>i < length (tm_heap m). \<forall>ac \<in> set (t_waiting (tm_heap m ! i)). snd (ac_conn ac) = RightEnd \<and>
        dialled lib m (fst (ac_conn ac)) (ac_peerId ac) (Pretty lib (peer_of m i))) \<and>
     (\<forall>r \<in> set (tm_accepted m @ tm_dropped m). snd (a_conn r) = RightEnd \<and> a_listener r < length (tm_heap m) \<and>
        dialled lib m (fst (a_conn r)) (a_peer r) (Pretty lib (peer_of m (a_listener r))))"

definition once_inv :: "'a fabric \<Rightarrow> bool" where
  "once_inv m \<longleftrightarrow> (\<forall>t \<in> set (tm_heap m). t_closed t = t_once t)"

text \<open>Every dialled connection is in exactly one place.\<close>

definition in_flight :: "'a fabric \<Rightarrow> base_conn multiset" where
  "in_flight m = mset (map (ac_conn \<circ> snd) (tm_offers m)) + sum_list (map (\<lambda>t. mset (map ac_conn (t_waiting t))) (tm_heap m)) +
     mset (map a_conn (tm_accepted m)) + mset (map a_conn (tm_dropped m))"

definition conn_inv :: "'a fabric \<Rightarrow> bool" where
  "conn_inv m \<longleftrightarrow> in_flight m = mset (map (\<lambda>k. (k, RightEnd)) [0..<tm_conns m]) \<and> map d_conn (tm_dialed m) = map (\<lambda>k. (k, LeftEnd)) [0..<tm_conns m]"

text \<open>Nothing is dropped when the factory and the upgrader never fail.\<close>

definition never_fails :: "('a, 'l, 'c) net_lib \<Rightarrow> bool" where
  "never_fails lib \<longleftrightarrow> (\<forall>c l r e. LatencyConnFactory lib c l r \<noteq> Inr (Inl e)) \<and> (\<forall>c out p e. Upgrade lib c out p \<noteq> Inl e)"

text \<open>What the operations do to the state when they do not panic.\<close>

definition dial_effect :: "bool \<Rightarrow> nat \<Rightarrow> 'a \<Rightarrow> string \<Rightarrow> 'a fabric \<Rightarrow> 'a fabric" where
  "dial_effect ok i la p m = m\<lparr>tm_conns := Suc (tm_conns m),
     tm_offers := tm_offers m @ [(p, \<lparr>ac_conn = (tm_conns m, RightEnd), ac_peerId = peer_of m i, ac_raddr = la\<rparr>)],
     tm_dialed := tm_dialed m @ [\<lparr>d_conn = (tm_conns m, LeftEnd), d_dialer = i, d_target = p, d_ok = ok\<rparr>]\<rparr>"

definition accept_effect :: "bool \<Rightarrow> nat \<Rightarrow> nat \<Rightarrow> 'a fabric \<Rightarrow> 'a fabric" where
  "accept_effect ok i j m =
     (let t = tm_heap m ! i; ac = t_waiting t ! j; data = \<lparr>a_conn = ac_conn ac, a_listener = i, a_peer = ac_peerId ac\<rparr>;
          m' = m\<lparr>tm_heap := (tm_heap m)[i := t\<lparr>t_waiting := take j (t_waiting t) @ drop (Suc j) (t_waiting t)\<rparr>]\<rparr>
      in if ok then m'\<lparr>tm_accepted := tm_accepted m @ [data]\<rparr> else m'\<lparr>tm_dropped := tm_dropped m @ [data]\<rparr>)"

definition offer_effect :: "nat \<Rightarrow> nat \<Rightarrow> 'a fabric \<Rightarrow> 'a fabric" where
  "offer_effect j other m =
     (let t = tm_heap m ! other
      in m\<lparr>tm_heap := (tm_heap m)[other := t\<lparr>t_waiting := t_waiting t @ [snd (tm_offers m ! j)]\<rparr>],
           tm_offers := take j (tm_offers m) @ drop (Suc j) (tm_offers m)\<rparr>)"

lemma Dial_effect: "Dial lib i raddr p m = Inr (r, m') \<Longrightarrow> \<exists>la ok. t_laddr (tm_heap m ! i) = Some la \<and> m' = dial_effect ok i la p m"
  by (auto simp: Dial_def dial_effect_def createBaseConn_def peer_of_def Let_def split: option.splits)

lemma Accept_effect: "Accept_data lib i j m = Inr (r, m') \<Longrightarrow> m' = accept_effect (\<not> isl r) i j m"
  by (auto simp: Accept_data_def accept_effect_def set_transport_def Let_def)

lemma upgrade_never_fails:
  "LatencyConnFactory lib c lp rp = Inr x \<Longrightarrow> never_fails lib \<Longrightarrow> \<not> isl (case x of Inl err \<Rightarrow> Inl err | Inr l \<Rightarrow> Upgrade lib (f l) b p)"
  unfolding never_fails_def by (cases x) (metis, metis isl_def sum.case(2))

lemma Accept_never_fails: "Accept_data lib i j m = Inr (r, m') \<Longrightarrow> never_fails lib \<Longrightarrow> \<not> isl r"
  unfolding Accept_data_def Let_def by (auto dest: upgrade_never_fails)


lemma fabric_step_cases:
  assumes "fabric_step lib m (Inr m')" "table_inv lib m"
  obtains (same) "m' = m"
  | (create) peerId where "m' = snd (Transport_new lib peerId m)"
  | (listen) i laddr where "i < length (tm_heap m)" "m' = m\<lparr>tm_heap := (tm_heap m)[i := (tm_heap m ! i)\<lparr>t_laddr := Some laddr\<rparr>]\<rparr>"
  | (dial) ok i la p where "i < length (tm_heap m)" "m' = dial_effect ok i la p m"
  | (offered) j other where "j < length (tm_offers m)" "other < length (tm_heap m)"
      "Pretty lib (peer_of m other) = Pretty lib (fst (tm_offers m ! j))" "m' = offer_effect j other m"
  | (accept) ok i j where "i < length (tm_heap m)" "j < length (t_waiting (tm_heap m ! i))" "m' = accept_effect ok i j m" "never_fails lib \<Longrightarrow> ok"
  | (close) i where "i < length (tm_heap m)" "m' = m\<lparr>tm_heap := (tm_heap m)[i := (tm_heap m ! i)\<lparr>t_closed := True, t_once := True\<rparr>]\<rparr>"
  using assms(1)
proof cases
  case (dial i raddr p)
  then show ?thesis
    using that(4) Dial_effect by (fastforce simp: Inr_go_bind_iff)
next
  case (offered j)
  obtain p ac where pac: "tm_offers m ! j = (p, ac)"
    by fastforce
  then obtain other where t: "transports m (Pretty lib p) = Some other" "m' = offer_effect j other m"
    using offered by (auto simp: offer_def GetTransport_def offer_effect_def set_transport_def Inr_go_bind_iff Let_def split: option.splits)
  show ?thesis
    using that(5) [OF offered(2) _ _ t(2)] t(1) assms(2) pac by (simp add: table_inv_def)
next
  case (accept i r)
  from accept(3) show ?thesis
  proof cases
    case (data j)
    then show ?thesis
      using that(6) [OF accept(2) data(2)] accept(1) Accept_effect Accept_never_fails by (fastforce simp: Inr_go_bind_iff)
  next
    case closed
    then show ?thesis
      using that(1) accept(1) by simp
  qed
next
  case (close i)
  then show ?thesis
    using that(1,7) by (auto simp: transport_Close_def set_transport_def Let_def split: if_splits)
qed (use that(2,3) in \<open>auto simp: transport_Listen_def set_transport_def\<close>)

lemmas effect_defs = dial_effect_def accept_effect_def offer_effect_def Transport_new_def Let_def

lemma fabric_step_grows: "fabric_step lib m (Inr m') \<Longrightarrow> table_inv lib m \<Longrightarrow> grows m m'"
  by (erule (1) fabric_step_cases) (auto simp: grows_def peer_of_def effect_defs nth_append nth_list_update)

lemma table_inv_step: "fabric_step lib m (Inr m') \<Longrightarrow> table_inv lib m \<Longrightarrow> table_inv lib m'"
  by (frule (1) fabric_step_cases)
    (auto simp: table_inv_def peer_of_def effect_defs nth_append nth_list_update less_Suc_eq split: if_splits)

lemma once_inv_step: "fabric_step lib m (Inr m') \<Longrightarrow> table_inv lib m \<Longrightarrow> once_inv m \<Longrightarrow> once_inv m'"
  by (erule (1) fabric_step_cases)
    (auto simp: once_inv_def effect_defs dest!: set_update_subset_insert [THEN subsetD])

lemma dialled_grows: "dialled lib m k peer s \<Longrightarrow> grows m m' \<Longrightarrow> dialled lib m' k peer s"
  by (fastforce simp: dialled_def grows_def)

lemma mset_drop_nth: "j < length xs \<Longrightarrow> mset xs = add_mset (xs ! j) (mset (take j xs) + mset (drop (Suc j) xs))"
  using id_take_nth_drop [of j xs] by (metis mset.simps(2) mset_append union_mset_add_mset_right)

text \<open>Replacing one transport changes the connections in flight by the change of its channel.\<close>

lemma waiting_update:
  fixes h :: "'a Transport list"
  assumes "i < length h" "mset (map ac_conn (t_waiting t)) + B = mset (map ac_conn (t_waiting (h ! i))) + A"
  shows "sum_list (map (\<lambda>t. mset (map ac_conn (t_waiting t))) (h[i := t])) + B =
    sum_list (map (\<lambda>t. mset (map ac_conn (t_waiting t))) h) + A"
proof -
  let ?f = "\<lambda>t. mset (map ac_conn (t_waiting t))"
  have "sum_list (map ?f (h[i := t])) + ?f (h ! i) + B = sum_list (map ?f h) + (?f t + B)"
    using sum_list_map_update [OF assms(1), of ?f t] by (simp add: ac_simps)
  also have "\<dots> = sum_list (map ?f h) + (?f (h ! i) + A)"
    by (simp only: assms(2))
  also have "\<dots> = sum_list (map ?f h) + A + ?f (h ! i)"
    by (simp add: ac_simps)
  finally show ?thesis
    by (simp add: ac_simps)
qed

lemma conn_inv_step: "fabric_step lib m (Inr m') \<Longrightarrow> table_inv lib m \<Longrightarrow> conn_inv m \<Longrightarrow> conn_inv m'"
proof (erule (1) fabric_step_cases)
  fix j other
  assume inv: "conn_inv m" and j: "j < length (tm_offers m)" and o: "other < length (tm_heap m)" and m': "m' = offer_effect j other m"
  let ?ac = "snd (tm_offers m ! j)"
  have "mset (map (ac_conn \<circ> snd) (tm_offers m)) =
      add_mset (ac_conn ?ac) (mset (map (ac_conn \<circ> snd) (tm_offers m')))"
    using mset_drop_nth [OF j] by (simp add: m' effect_defs)
  moreover have "sum_list (map (\<lambda>t. mset (map ac_conn (t_waiting t))) (tm_heap m')) =
      add_mset (ac_conn ?ac) (sum_list (map (\<lambda>t. mset (map ac_conn (t_waiting t))) (tm_heap m)))"
    using waiting_update [OF o, of "(tm_heap m ! other)\<lparr>t_waiting := t_waiting (tm_heap m ! other) @ [?ac]\<rparr>" "{#}" "{#ac_conn ?ac#}"]
    by (simp add: m' effect_defs)
  moreover have "tm_accepted m' = tm_accepted m" "tm_dropped m' = tm_dropped m" "tm_conns m' = tm_conns m" "tm_dialed m' = tm_dialed m"
    by (simp_all add: m' effect_defs)
  ultimately show "conn_inv m'"
    using inv by (simp add: conn_inv_def in_flight_def)
next
  fix ok i j
  assume inv: "conn_inv m" and i: "i < length (tm_heap m)" and j: "j < length (t_waiting (tm_heap m ! i))" and m': "m' = accept_effect ok i j m"
  let ?w = "t_waiting (tm_heap m ! i)"
  let ?k = "ac_conn (?w ! j)"
  have "mset (map ac_conn ?w) = add_mset ?k (mset (map ac_conn (take j ?w @ drop (Suc j) ?w)))"
    using mset_drop_nth [OF j] by simp
  then have "sum_list (map (\<lambda>t. mset (map ac_conn (t_waiting t))) (tm_heap m)) =
      add_mset ?k (sum_list (map (\<lambda>t. mset (map ac_conn (t_waiting t))) (tm_heap m')))"
    using waiting_update [OF i, of "(tm_heap m ! i)\<lparr>t_waiting := take j ?w @ drop (Suc j) ?w\<rparr>" "{#?k#}" "{#}"]
    by (simp add: m' effect_defs)
  moreover have "mset (map a_conn (tm_accepted m')) + mset (map a_conn (tm_dropped m')) =
      add_mset ?k (mset (map a_conn (tm_accepted m)) + mset (map a_conn (tm_dropped m)))" "tm_offers m' = tm_offers m"
    "tm_conns m' = tm_conns m" "tm_dialed m' = tm_dialed m"
    by (simp_all add: m' effect_defs)
  ultimately show "conn_inv m'"
    using inv by (simp add: conn_inv_def in_flight_def add.assoc)
next
  fix i laddr
  assume "conn_inv m" "i < length (tm_heap m)" "m' = m\<lparr>tm_heap := (tm_heap m)[i := (tm_heap m ! i)\<lparr>t_laddr := Some laddr\<rparr>]\<rparr>"
  then show "conn_inv m'"
    using waiting_update [of i "tm_heap m" "(tm_heap m ! i)\<lparr>t_laddr := Some laddr\<rparr>" "{#}" "{#}"] by (simp add: conn_inv_def in_flight_def)
next
  fix i
  assume "conn_inv m" "i < length (tm_heap m)" "m' = m\<lparr>tm_heap := (tm_heap m)[i := (tm_heap m ! i)\<lparr>t_closed := True, t_once := True\<rparr>]\<rparr>"
  then show "conn_inv m'"
    using waiting_update [of i "tm_heap m" "(tm_heap m ! i)\<lparr>t_closed := True, t_once := True\<rparr>" "{#}" "{#}"] by (simp add: conn_inv_def in_flight_def)
qed (simp_all add: conn_inv_def in_flight_def effect_defs)

lemma origin_inv_step:
  assumes step: "fabric_step lib m (Inr m')" and tab: "table_inv lib m" and inv: "origin_inv lib m"
  shows "origin_inv lib m'"
proof -
  have g: "grows m m'"
    using fabric_step_grows [OF step tab] .
  have keep: "dialled lib m' k peer s" if "dialled lib m k peer s" for k peer s
    using dialled_grows [OF that g] .
  have peer: "peer_of m' i = peer_of m i" "i < length (tm_heap m')" if "i < length (tm_heap m)" for i
    using g that by (simp_all add: grows_def)
  have O: "snd (ac_conn ac) = RightEnd \<and> dialled lib m' (fst (ac_conn ac)) (ac_peerId ac) (Pretty lib p)" if "(p, ac) \<in> set (tm_offers m)" for p ac
    using inv that keep by (auto simp: origin_inv_def)
  have W: "snd (ac_conn ac) = RightEnd \<and> dialled lib m' (fst (ac_conn ac)) (ac_peerId ac) (Pretty lib (peer_of m' i))"
    if "i < length (tm_heap m)" "ac \<in> set (t_waiting (tm_heap m ! i))" for i ac
    using inv that keep peer(1) by (simp add: origin_inv_def)
  have A: "snd (a_conn r) = RightEnd \<and> a_listener r < length (tm_heap m') \<and> dialled lib m' (fst (a_conn r)) (a_peer r) (Pretty lib (peer_of m' (a_listener r)))"
    if "r \<in> set (tm_accepted m @ tm_dropped m)" for r
    using inv that keep peer by (simp add: origin_inv_def)
  have offers: "snd (ac_conn ac) = RightEnd \<and> dialled lib m' (fst (ac_conn ac)) (ac_peerId ac) (Pretty lib p)"
    if "(p, ac) \<in> set (tm_offers m')" for p ac
    using step tab
  proof (cases rule: fabric_step_cases)
    case (dial ok i la q)
    have "dialled lib m' (tm_conns m) (peer_of m i) (Pretty lib q)"
      using dial by (auto simp: dialled_def dial_effect_def peer_of_def)
    then show ?thesis
      using that dial O by (auto simp: dial_effect_def)
  qed (use that O [of p ac] in \<open>auto simp: effect_defs dest: in_set_takeD in_set_dropD\<close>)
  have waiting: "snd (ac_conn ac) = RightEnd \<and> dialled lib m' (fst (ac_conn ac)) (ac_peerId ac) (Pretty lib (peer_of m' i))"
    if "i < length (tm_heap m')" "ac \<in> set (t_waiting (tm_heap m' ! i))" for i ac
    using step tab
  proof (cases rule: fabric_step_cases)
    case (offered j other)
    have "(fst (tm_offers m ! j), snd (tm_offers m ! j)) \<in> set (tm_offers m)"
      using offered(1) by simp
    from O [OF this] show ?thesis
      using that offered W [of i ac] peer(1) [OF offered(2)] by (auto simp: offer_effect_def Let_def nth_list_update split: if_splits)
  qed (use that W [of i ac] in \<open>auto simp: effect_defs nth_append nth_list_update less_Suc_eq split: if_splits dest: in_set_takeD in_set_dropD\<close>)
  have accepted: "snd (a_conn r) = RightEnd \<and> a_listener r < length (tm_heap m') \<and> dialled lib m' (fst (a_conn r)) (a_peer r) (Pretty lib (peer_of m' (a_listener r)))"
    if "r \<in> set (tm_accepted m' @ tm_dropped m')" for r
    using step tab
  proof (cases rule: fabric_step_cases)
    case (accept ok i j)
    then show ?thesis
      using that A [of r] W [OF accept(1), of "t_waiting (tm_heap m ! i) ! j"] peer(2) [OF accept(1)]
      by (cases ok) (auto simp: accept_effect_def Let_def)
  qed (use that A [of r] in \<open>auto simp: effect_defs\<close>)
  show ?thesis
    unfolding origin_inv_def using offers waiting accepted by blast
qed

lemma fabric_reach_inv: "fabric_reach lib m \<Longrightarrow> table_inv lib m \<and> once_inv m \<and> conn_inv m \<and> origin_inv lib m"
proof (induction rule: fabric_reach.induct)
  case init
  then show ?case
    by (simp add: NewTransportManager_def table_inv_def once_inv_def conn_inv_def in_flight_def origin_inv_def)
next
  case (step m m')
  then show ?case
    using table_inv_step once_inv_step conn_inv_step origin_inv_step by blast
qed

section \<open>Properties\<close>

lemma dropped_step: "fabric_step lib m (Inr m') \<Longrightarrow> table_inv lib m \<Longrightarrow> never_fails lib \<Longrightarrow> tm_dropped m = [] \<Longrightarrow> tm_dropped m' = []"
  by (erule (1) fabric_step_cases) (auto simp: effect_defs)

lemma nothing_dropped: "fabric_reach lib m \<Longrightarrow> never_fails lib \<Longrightarrow> tm_dropped m = []"
proof (induction rule: fabric_reach.induct)
  case (step m m')
  then show ?case
    using dropped_step fabric_reach_inv [OF step(1)] by blast
qed (simp add: NewTransportManager_def)


definition ex_net :: "(string, base_conn, base_conn) net_lib" where
  "ex_net = \<lparr>P_TCP = 6, ma_tcp = Some, ma_String = id, Pretty = (\<lambda>p. ''Qm'' @ p), LatencyConnFactory = (\<lambda>c l r. Inr (Inr c)),
     Upgrade = (\<lambda>c out p. Inr (mc_conn c)), ToNetAddr = id\<rparr>"

text \<open>Two transports listen, the first dials the second, and the second accepts.\<close>

definition ex_listening :: "string fabric" where
  "ex_listening = transport_Listen 1 ''10001'' (transport_Listen 0 ''10000''
     (snd (Transport_new ex_net ''B'' (snd (Transport_new ex_net ''A'' NewTransportManager)))))"

definition ex_accepted :: "string fabric" where
  "ex_accepted = accept_effect True 1 0 (offer_effect 0 1 (dial_effect True 0 ''10000'' ''B'' ex_listening))"

lemma ex_listening_state:
  "ex_listening = \<lparr>tm_heap = [\<lparr>t_peerId = ''A'', t_laddr = Some ''10000'', t_closed = False, t_once = False, t_waiting = []\<rparr>,
       \<lparr>t_peerId = ''B'', t_laddr = Some ''10001'', t_closed = False, t_once = False, t_waiting = []\<rparr>],
     transports = [''QmA'' \<mapsto> 0, ''QmB'' \<mapsto> 1], tm_conns = 0, tm_offers = [], tm_dialed = [], tm_accepted = [], tm_dropped = []\<rparr>"
  by (simp add: ex_listening_def transport_Listen_def Transport_new_def set_transport_def NewTransportManager_def ex_net_def)

lemma ex_accepted_reach: "fabric_reach ex_net ex_accepted"
proof -
  let ?m0 = "snd (Transport_new ex_net ''B'' (snd (Transport_new ex_net ''A'' NewTransportManager)))"
  let ?m1 = "dial_effect True 0 ''10000'' ''B'' ex_listening"
  let ?m2 = "offer_effect 0 1 ?m1"
  have "fabric_reach ex_net ?m0"
    by (rule fabric_reach.step [OF fabric_reach.step [OF fabric_reach.init fabric_step.create] fabric_step.create])
  then have "fabric_reach ex_net ex_listening"
    unfolding ex_listening_def
    by (rule fabric_reach.step [OF fabric_reach.step [OF _ fabric_step.listen] fabric_step.listen])
      (simp_all add: Transport_new_def NewTransportManager_def transport_Listen_def set_transport_def)
  moreover have "fabric_step ex_net ex_listening (Inr ?m1)"
    using fabric_step.dial [of 0 ex_listening ex_net "Some ''10001''" "''B''"]
    by (simp add: ex_listening_state Dial_def createBaseConn_def getPort_def ex_net_def dial_effect_def peer_of_def del: go_bind_Inr_iff)
  moreover have "fabric_step ex_net ?m1 (Inr ?m2)"
    using fabric_step.offered [of 0 ?m1 ex_net]
    by (simp add: ex_listening_state dial_effect_def offer_effect_def offer_def GetTransport_def set_transport_def ex_net_def del: go_bind_Inr_iff)
  moreover have "fabric_step ex_net ?m2 (Inr ex_accepted)"
  proof -
    have "transport_Accept ex_net 1 ?m2 (Accept_data ex_net 1 0 ?m2)"
      by (rule transport_Accept.data) (simp add: ex_listening_state dial_effect_def offer_effect_def)
    then show ?thesis
      using fabric_step.accept [of 1 ?m2 ex_net "Accept_data ex_net 1 0 ?m2"]
      by (simp add: ex_accepted_def Accept_data_def accept_effect_def ex_listening_state dial_effect_def offer_effect_def getPort_def set_transport_def
          ex_net_def del: go_bind_Inr_iff)
  qed
  ultimately show ?thesis
    using fabric_reach.step by metis
qed


end
