(* ===== verification/StartGossip.thy ===== *)
theory StartGossip
  imports Cluster Stats
begin

text \<open>
  \<open>cmd/benchmark/commands/start_gossip_cmd.go\<close>: the benchmark command.

  \<open>Run\<close> parses the flags into the parameters, turns them into a topology and a messaging and runs \<open>StartGossipBench\<close>,
  which reads the latencies, adds the agents, starts them, connects them and runs the messaging. The logger's output is
  described by the header of its first line and by \<open>SyslogTimeEncoder\<close>, the time as the lines have it.

  What the run depends on outside the program is the record \<open>bench_env\<close>: the library, whether the logger could be built,
  the embedded latency file, the random draws, the clock, what the library does with a request to connect a pair of hosts, and the filler bytes of messages.
\<close>

section \<open>Parameters\<close>

definition linear :: string where "linear = ''linear''"

definition random :: string where "random = ''random''"

definition superCluster :: string where "superCluster = ''super-cluster''"

definition constantRate :: string where "constantRate = ''constant-rate''"

definition hotStuff :: string where "hotStuff = ''hotstuff''"

definition IpString :: string where "IpString = ''127.0.0.1''"

definition RandomTopologyCreateRing :: bool where "RandomTopologyCreateRing = True"

record GossipParameters =
  nodeCount :: int
  validatorCount :: int
  topology_name :: string
  messaging_name :: string
  messageRate :: int
  benchDuration :: int
  benchDowntime :: int
  messageSize :: int
  peeringDegree :: int
  nonValidatorDegree :: int
  connectionCount :: int
  param_startingPort :: int

definition default_params :: GossipParameters where
  "default_params = \<lparr>nodeCount = 10, validatorCount = 2, topology_name = ''linear'', messaging_name = ''constant-rate'', messageRate = 900,
     benchDuration = 40, benchDowntime = 10, messageSize = 1024, peeringDegree = 6, nonValidatorDegree = 6, connectionCount = 1500,
     param_startingPort = 10000\<rparr>"

text \<open>\<open>NewFlagSet\<close>.\<close>

definition gossip_NewFlagSet :: "GossipParameters flag_set" where
  "gossip_NewFlagSet = map_of
     [(''nodes'', IntVar (\<lambda>v p. p\<lparr>nodeCount := v\<rparr>)), (''validators'', IntVar (\<lambda>v p. p\<lparr>validatorCount := v\<rparr>)),
      (''topology'', StringVar (\<lambda>v p. p\<lparr>topology_name := v\<rparr>)), (''messaging'', StringVar (\<lambda>v p. p\<lparr>messaging_name := v\<rparr>)),
      (''rate'', IntVar (\<lambda>v p. p\<lparr>messageRate := v\<rparr>)), (''duration'', IntVar (\<lambda>v p. p\<lparr>benchDuration := v\<rparr>)),
      (''downtime'', IntVar (\<lambda>v p. p\<lparr>benchDowntime := v\<rparr>)), (''size'', IntVar (\<lambda>v p. p\<lparr>messageSize := v\<rparr>)),
      (''degree'', IntVar (\<lambda>v p. p\<lparr>peeringDegree := v\<rparr>)), (''non-validator-degree'', IntVar (\<lambda>v p. p\<lparr>nonValidatorDegree := v\<rparr>)),
      (''connection-count'', IntVar (\<lambda>v p. p\<lparr>connectionCount := v\<rparr>)), (''port'', IntVar (\<lambda>v p. p\<lparr>param_startingPort := v\<rparr>))]"

section \<open>Run\<close>

text \<open>Go's conversion \<open>uint(x)\<close> is modulo \<open>2^64\<close>.\<close>

definition to_uint :: "int \<Rightarrow> 64 word" where
  "to_uint x = word_of_int x"

text \<open>Lines 95 to 121: the parameters as they are changed, and the topology; \<open>None\<close> for an unknown one.\<close>

definition choose_topology :: "GossipParameters \<Rightarrow> (GossipParameters \<times> topology) option" where
  "choose_topology params =
     (let p = (if topology_name params \<noteq> superCluster then params\<lparr>nonValidatorDegree := -1\<rparr> else params);
          p = (if topology_name p \<noteq> random then p\<lparr>connectionCount := -1\<rparr> else p)
      in if topology_name p = linear then Some (p\<lparr>peeringDegree := 2\<rparr>, LinearTopo)
         else if topology_name p = random
         then Some (p, RandomTopo \<lparr>MaxPeers = to_uint (peeringDegree p), Count = to_uint (connectionCount p), CreateRing = RandomTopologyCreateRing\<rparr>)
         else if topology_name p = superCluster
         then Some (p, SuperClusterTopo \<lparr>ValidatorPeering = to_uint (peeringDegree p), NonValidatorPeering = to_uint (nonValidatorDegree p)\<rparr>)
         else None)"

text \<open>Lines 124 to 148.\<close>

definition choose_messaging :: "GossipParameters \<Rightarrow> messaging option" where
  "choose_messaging p =
     (let duration = wrap64 (benchDuration p * second); downtime = wrap64 (benchDowntime p * second);
          benchTimeout = wrap64 (duration + downtime)
      in if messaging_name p = constantRate
         then Some (ConstantRate \<lparr>Rate = wrap64 (messageRate p * millisecond), LogDuration = duration, Timeout = benchTimeout, MessageSize = messageSize p\<rparr>)
         else if messaging_name p = hotStuff
         then Some (Hotstuff \<lparr>h_LogDuration = duration, h_Timeout = benchTimeout, h_MessageSize = messageSize p\<rparr>)
         else None)"

section \<open>StartGossipBench\<close>

fun topology_type :: "topology \<Rightarrow> string" where
  "topology_type LinearTopo = ''cluster.LinearTopology''"
| "topology_type (RandomTopo t) = ''cluster.RandomTopology''"
| "topology_type (SuperClusterTopo t) = ''cluster.SuperClusterTopology''"

text \<open>The first line of the log, as the statistics decode it.\<close>

definition log_header :: "GossipParameters \<Rightarrow> topology \<Rightarrow> Header" where
  "log_header p t = \<lparr>AgentsCount = nodeCount p, ValidatorsCount = validatorCount p, Topology_name = topology_type t,
     PeeringDegree = peeringDegree p, NonValidatorDegree = nonValidatorDegree p, ConnectionCount = connectionCount p,
     BenchDuration = benchDuration p, MsgRate = messageRate p\<rparr>"

text \<open>\<open>zone\<close> is the offset of the local time zone at a time.\<close>

definition SyslogTimeEncoder :: "(int \<Rightarrow> int) \<Rightarrow> int \<Rightarrow> string" where
  "SyslogTimeEncoder zone t = format_RFC3339 (zone t) t"

record bench_env =
  be_lib :: libp2p
  be_logger :: "error option"
  be_latencyDataRaw :: string
  be_transport :: "nat option"
  be_cities :: "nat \<Rightarrow> nat"
  be_draws :: "nat \<Rightarrow> nat"
  be_leader :: nat
  be_rnd :: "nat \<Rightarrow> byte"
  be_now :: "int \<Rightarrow> int"
  be_t0 :: int
  be_host :: "GossipAgent \<times> GossipAgent \<Rightarrow> host_result"

definition bench_cluster :: "LatencyData \<Rightarrow> GossipParameters \<Rightarrow> Cluster" where
  "bench_cluster latencyData p = NewCluster latencyData
     \<lparr>ValidatorCount = validatorCount p, StartingPort = param_startingPort p, Ip = IpString, MsgSize = messageSize p, cfg_Kbps = 0, cfg_MTU = 0\<rparr>"

text \<open>\<open>acfg\<close> (lines 239 to 241): a zero configuration, the defaults, then the transport of the manager.\<close>

definition bench_config :: "bench_env \<Rightarrow> AgentConfig" where
  "bench_config env = GossipConfigPtr ((SetDefaults \<lparr>Transport = None, GossipSubD = 0, GossipSubDlo = 0, GossipSubDhi = 0,
     GossipSubMcacheLen = 0, GossipSubMcacheGossip = 0, GossipSubSeenTTL = 0, GossipSubFanoutTTL = 0, GossipSubHeartbeatInterval = 0,
     PubsubQueueSize = 0\<rparr>)\<lparr>Transport := be_transport env\<rparr>)"

text \<open>Lines 207 to 242: the logger, the latencies, the cluster and its agents.\<close>

definition bench_agents :: "bench_env \<Rightarrow> GossipParameters \<Rightarrow> Cluster go" where
  "bench_agents env p =
     (case be_logger env of Some err \<Rightarrow> Inl (Explicit err)
      | None \<Rightarrow>
          go_bind (ReadLatencyDataFromJson (be_latencyDataRaw env)) (\<lambda>latencyData.
            AddAgents (be_cities env) (bench_config env) (nodeCount p) (bench_cluster latencyData p)))"

text \<open>The two loops over the cluster's map may see it in different orders. The result is what the messaging counted; the
  list holds the connections that \<open>ConnectAgents\<close> established.\<close>

inductive StartGossipBench ::
  "bench_env \<Rightarrow> GossipParameters \<Rightarrow> topology \<Rightarrow> messaging \<Rightarrow> (int \<times> int) go \<Rightarrow> connectionsList \<Rightarrow> msg_loop option \<Rightarrow> bool"
  for env p topo msg where
  add_panics:
    "bench_agents env p = Inl e \<Longrightarrow>
     StartGossipBench env p topo msg (Inl e) [] None"
| start_panics:
    "bench_agents env p = Inr c \<Longrightarrow>
     StartAgents (be_lib env) (be_now env) c (Inl e) c' \<Longrightarrow> StartGossipBench env p topo msg (Inl e) [] None"
| connect_panics:
    "bench_agents env p = Inr c \<Longrightarrow>
     StartAgents (be_lib env) (be_now env) c (Inr sf) c' \<Longrightarrow> range_of (cl_agents c') as \<Longrightarrow>
     ConnectAgents (be_host env) (be_draws env) topo c' as conns (Inl e) \<Longrightarrow> StartGossipBench env p topo msg (Inl e) conns None"
| messaging:
    "bench_agents env p = Inr c \<Longrightarrow>
     StartAgents (be_lib env) (be_now env) c (Inr sf) c' \<Longrightarrow> range_of (cl_agents c') as \<Longrightarrow>
     ConnectAgents (be_host env) (be_draws env) topo c' as conns (Inr ()) \<Longrightarrow> range_of (cl_agents c') as' \<Longrightarrow>
     StartMessaging (be_lib env) (be_rnd env) (be_leader env) msg as' (be_t0 env) result s \<Longrightarrow>
     StartGossipBench env p topo msg result conns (Some s)"

text \<open>The exit code of the command, or the panic that ends it.\<close>

inductive Run :: "bench_env \<Rightarrow> string list \<Rightarrow> int go \<Rightarrow> bool" for env args where
  flag_error: "flag_Parse gossip_NewFlagSet args default_params = Inl e \<Longrightarrow> Run env args (Inr 1)"
| unknown_topology: "flag_Parse gossip_NewFlagSet args default_params = Inr (params, rest) \<Longrightarrow>
    choose_topology params = None \<Longrightarrow> Run env args (Inr 1)"
| unknown_messaging: "flag_Parse gossip_NewFlagSet args default_params = Inr (params, rest) \<Longrightarrow>
    choose_topology params = Some (p, topo) \<Longrightarrow> choose_messaging p = None \<Longrightarrow> Run env args (Inr 1)"
| executed: "flag_Parse gossip_NewFlagSet args default_params = Inr (params, rest) \<Longrightarrow>
    choose_topology params = Some (p, topo) \<Longrightarrow> choose_messaging p = Some msg \<Longrightarrow>
    StartGossipBench env p topo msg (Inr sf) conns s \<Longrightarrow> Run env args (Inr 0)"
| panics: "flag_Parse gossip_NewFlagSet args default_params = Inr (params, rest) \<Longrightarrow>
    choose_topology params = Some (p, topo) \<Longrightarrow> choose_messaging p = Some msg \<Longrightarrow>
    StartGossipBench env p topo msg (Inl e) conns s \<Longrightarrow> Run env args (Inl e)"

inductive_cases RunE: "Run env args result"

section \<open>The flags\<close>

text \<open>The arguments that set every parameter.\<close>

definition gossip_args :: "GossipParameters \<Rightarrow> string list" where
  "gossip_args p =
     [with_value ''nodes'' (show_int (nodeCount p)), with_value ''validators'' (show_int (validatorCount p)),
      with_value ''topology'' (topology_name p), with_value ''messaging'' (messaging_name p), with_value ''rate'' (show_int (messageRate p)),
      with_value ''duration'' (show_int (benchDuration p)), with_value ''downtime'' (show_int (benchDowntime p)),
      with_value ''size'' (show_int (messageSize p)), with_value ''degree'' (show_int (peeringDegree p)),
      with_value ''non-validator-degree'' (show_int (nonValidatorDegree p)),
      with_value ''connection-count'' (show_int (connectionCount p)), with_value ''port'' (show_int (param_startingPort p))]"

definition params_in_range :: "GossipParameters \<Rightarrow> bool" where
  "params_in_range p \<longleftrightarrow> list_all int64_range [nodeCount p, validatorCount p, messageRate p, benchDuration p, benchDowntime p, messageSize p,
     peeringDegree p, nonValidatorDegree p, connectionCount p, param_startingPort p]"

lemma gossip_flags:
  "gossip_NewFlagSet ''nodes'' = Some (IntVar (\<lambda>v p. p\<lparr>nodeCount := v\<rparr>))"
  "gossip_NewFlagSet ''validators'' = Some (IntVar (\<lambda>v p. p\<lparr>validatorCount := v\<rparr>))"
  "gossip_NewFlagSet ''topology'' = Some (StringVar (\<lambda>v p. p\<lparr>topology_name := v\<rparr>))"
  "gossip_NewFlagSet ''messaging'' = Some (StringVar (\<lambda>v p. p\<lparr>messaging_name := v\<rparr>))"
  "gossip_NewFlagSet ''rate'' = Some (IntVar (\<lambda>v p. p\<lparr>messageRate := v\<rparr>))"
  "gossip_NewFlagSet ''duration'' = Some (IntVar (\<lambda>v p. p\<lparr>benchDuration := v\<rparr>))"
  "gossip_NewFlagSet ''downtime'' = Some (IntVar (\<lambda>v p. p\<lparr>benchDowntime := v\<rparr>))"
  "gossip_NewFlagSet ''size'' = Some (IntVar (\<lambda>v p. p\<lparr>messageSize := v\<rparr>))"
  "gossip_NewFlagSet ''degree'' = Some (IntVar (\<lambda>v p. p\<lparr>peeringDegree := v\<rparr>))"
  "gossip_NewFlagSet ''non-validator-degree'' = Some (IntVar (\<lambda>v p. p\<lparr>nonValidatorDegree := v\<rparr>))"
  "gossip_NewFlagSet ''connection-count'' = Some (IntVar (\<lambda>v p. p\<lparr>connectionCount := v\<rparr>))"
  "gossip_NewFlagSet ''port'' = Some (IntVar (\<lambda>v p. p\<lparr>param_startingPort := v\<rparr>))"
  by (simp_all add: gossip_NewFlagSet_def)

lemma parse_gossip_int:
  assumes "gossip_NewFlagSet n = Some (IntVar upd)" "flag_name n" "int64_range i"
  shows "flag_Parse gossip_NewFlagSet (with_value n (show_int i) # args) p = flag_Parse gossip_NewFlagSet args (upd i p)"
  using assms(2,1,3) by (rule flag_Parse_IntVar)

lemma parse_gossip_string:
  assumes "gossip_NewFlagSet n = Some (StringVar upd)" "flag_name n"
  shows "flag_Parse gossip_NewFlagSet (with_value n v # args) p = flag_Parse gossip_NewFlagSet args (upd v p)"
  using assms(2,1) by (rule flag_Parse_StringVar)

lemmas parse_gossip_flags =
  gossip_flags(1,2,5-12) [THEN parse_gossip_int] gossip_flags(3,4) [THEN parse_gossip_string]

lemma gossip_args_parse:
  assumes "params_in_range p"
  shows "flag_Parse gossip_NewFlagSet (gossip_args p) q = Inr (p, [])"
  using assms by (simp add: gossip_args_def params_in_range_def parse_gossip_flags flag_name_def)

section \<open>What the configuration becomes\<close>

lemma choose_topology_known:
  "choose_topology params \<noteq> None \<longleftrightarrow> topology_name params \<in> {linear, random, superCluster}"
  by (auto simp: choose_topology_def linear_def random_def superCluster_def Let_def)

lemma choose_messaging_known: "choose_messaging p \<noteq> None \<longleftrightarrow> messaging_name p \<in> {constantRate, hotStuff}"
  by (auto simp: choose_messaging_def constantRate_def hotStuff_def Let_def)

lemma choose_topology_keeps:
  assumes "choose_topology params = Some (p, topo)"
  shows "nodeCount p = nodeCount params" "validatorCount p = validatorCount params" "messaging_name p = messaging_name params"
    "param_startingPort p = param_startingPort params" "messageRate p = messageRate params" "benchDuration p = benchDuration params"
    "benchDowntime p = benchDowntime params" "messageSize p = messageSize params"
  using assms by (auto simp: choose_topology_def Let_def split: if_splits)

definition durations_fit :: "GossipParameters \<Rightarrow> bool" where
  "durations_fit p \<longleftrightarrow> 0 \<le> benchDuration p \<and> 0 \<le> benchDowntime p \<and> (benchDuration p + benchDowntime p) * second < 2 ^ 63 \<and>
     0 \<le> messageRate p \<and> messageRate p * millisecond < 2 ^ 63"

lemma choose_messaging_units:
  assumes "durations_fit p"
  shows "choose_messaging p =
    (if messaging_name p = constantRate
     then Some (ConstantRate \<lparr>Rate = messageRate p * 1000000, LogDuration = benchDuration p * 1000000000,
       Timeout = (benchDuration p + benchDowntime p) * 1000000000, MessageSize = messageSize p\<rparr>)
     else if messaging_name p = hotStuff
     then Some (Hotstuff \<lparr>h_LogDuration = benchDuration p * 1000000000, h_Timeout = (benchDuration p + benchDowntime p) * 1000000000,
       h_MessageSize = messageSize p\<rparr>)
     else None)"
proof -
  have "wrap64 (benchDuration p * second) = benchDuration p * second" "wrap64 (benchDowntime p * second) = benchDowntime p * second"
    "wrap64 (benchDuration p * second + benchDowntime p * second) = benchDuration p * second + benchDowntime p * second"
    "wrap64 (messageRate p * millisecond) = messageRate p * millisecond"
    by (intro wrap64_id; use assms in \<open>simp add: durations_fit_def distrib_right\<close>)+
  then show ?thesis
    by (simp add: choose_messaging_def Let_def distrib_right)
qed

text \<open>
  C28. What the flags configure. Arguments that set every parameter, with durations and a rate that do not overflow 64 bits, give the benchmark
  exactly: the parameters of the log header, in which the degree of non validators is -1 unless the topology is the super-cluster, the connection count
  is -1 unless it is the random one, and the linear topology has degree 2; the topology of that name, with the random one's peers and
  connections and the super-cluster's two degrees; and the messaging of that name, whose rate is in milliseconds, whose logging lasts the duration in
  seconds and whose timeout is the duration and the downtime together.
\<close>

theorem configuration_from_flags:
  assumes "params_in_range q" "durations_fit q" "topology_name q \<in> {linear, random, superCluster}" "messaging_name q \<in> {constantRate, hotStuff}"
  shows "\<exists>p topo msg. flag_Parse gossip_NewFlagSet (gossip_args q) default_params = Inr (q, []) \<and>
    choose_topology q = Some (p, topo) \<and> choose_messaging p = Some msg \<and>
    p = q\<lparr>nonValidatorDegree := if topology_name q = superCluster then nonValidatorDegree q else - 1,
       connectionCount := if topology_name q = random then connectionCount q else - 1,
       peeringDegree := if topology_name q = linear then 2 else peeringDegree q\<rparr> \<and>
    topo = (if topology_name q = linear then LinearTopo
      else if topology_name q = random
      then RandomTopo \<lparr>MaxPeers = word_of_int (peeringDegree q), Count = word_of_int (connectionCount q), CreateRing = True\<rparr>
      else SuperClusterTopo \<lparr>ValidatorPeering = word_of_int (peeringDegree q), NonValidatorPeering = word_of_int (nonValidatorDegree q)\<rparr>) \<and>
    msg = (if messaging_name q = constantRate
      then ConstantRate \<lparr>Rate = messageRate q * 1000000, LogDuration = benchDuration q * 1000000000,
        Timeout = (benchDuration q + benchDowntime q) * 1000000000, MessageSize = messageSize q\<rparr>
      else Hotstuff \<lparr>h_LogDuration = benchDuration q * 1000000000, h_Timeout = (benchDuration q + benchDowntime q) * 1000000000,
        h_MessageSize = messageSize q\<rparr>) \<and>
    (Run env (gossip_args q) (Inr 0) \<longleftrightarrow> (\<exists>sf conns s. StartGossipBench env p topo msg (Inr sf) conns s))"
proof -
  let ?p = "q\<lparr>nonValidatorDegree := if topology_name q = superCluster then nonValidatorDegree q else - 1,
       connectionCount := if topology_name q = random then connectionCount q else - 1,
       peeringDegree := if topology_name q = linear then 2 else peeringDegree q\<rparr>"
  note parse = gossip_args_parse [OF assms(1), of default_params]
  have topo: "choose_topology q = Some (?p, if topology_name q = linear then LinearTopo
      else if topology_name q = random
      then RandomTopo \<lparr>MaxPeers = word_of_int (peeringDegree q), Count = word_of_int (connectionCount q), CreateRing = True\<rparr>
      else SuperClusterTopo \<lparr>ValidatorPeering = word_of_int (peeringDegree q), NonValidatorPeering = word_of_int (nonValidatorDegree q)\<rparr>)"
    using assms(3) by (auto simp: choose_topology_def Let_def linear_def random_def superCluster_def RandomTopologyCreateRing_def to_uint_def)
  have "durations_fit ?p"
    using assms(2) by (simp add: durations_fit_def)
  from choose_messaging_units [OF this] assms(4) obtain msg where msg: "choose_messaging ?p = Some msg"
    "msg = (if messaging_name q = constantRate
      then ConstantRate \<lparr>Rate = messageRate q * 1000000, LogDuration = benchDuration q * 1000000000,
        Timeout = (benchDuration q + benchDowntime q) * 1000000000, MessageSize = messageSize q\<rparr>
      else Hotstuff \<lparr>h_LogDuration = benchDuration q * 1000000000, h_Timeout = (benchDuration q + benchDowntime q) * 1000000000,
        h_MessageSize = messageSize q\<rparr>)"
    by (auto simp: constantRate_def hotStuff_def)
  have run: "Run env (gossip_args q) (Inr 0) \<longleftrightarrow> (\<exists>sf conns s. StartGossipBench env p topo msg (Inr sf) conns s)"
    if "choose_topology q = Some (p, topo)" "choose_messaging p = Some msg" for p topo
    using parse that by (auto elim!: RunE intro: Run.executed) blast+
  show ?thesis
    by (intro exI conjI; (rule parse topo msg run refl)+)
qed

theorem configuration_from_flags_witness:
  "\<exists>p topo msg. choose_topology (default_params\<lparr>topology_name := ''random'', benchDowntime := 5\<rparr>) = Some (p, topo) \<and> choose_messaging p = Some msg \<and>
     p = default_params\<lparr>topology_name := ''random'', benchDowntime := 5, nonValidatorDegree := - 1\<rparr> \<and>
     topo = RandomTopo \<lparr>MaxPeers = 6, Count = 1500, CreateRing = True\<rparr> \<and>
     msg = ConstantRate \<lparr>Rate = 900000000, LogDuration = 40000000000, Timeout = 45000000000, MessageSize = 1024\<rparr>"
proof -
  let ?q = "default_params\<lparr>topology_name := ''random'', benchDowntime := 5\<rparr>"
  have "params_in_range ?q" "durations_fit ?q" "topology_name ?q \<in> {linear, random, superCluster}" "messaging_name ?q \<in> {constantRate, hotStuff}"
    by (simp_all add: params_in_range_def durations_fit_def default_params_def int64_range_def random_def constantRate_def)
  from configuration_from_flags [OF this] show ?thesis
    by (simp add: default_params_def linear_def random_def superCluster_def constantRate_def)
qed

section \<open>A benchmark that runs\<close>

text \<open>When the chosen topology can connect \<open>n\<close> agents of which \<open>v\<close> are validators.\<close>

fun fits :: "int \<Rightarrow> int \<Rightarrow> topology \<Rightarrow> bool" where
  "fits n v LinearTopo \<longleftrightarrow> 1 \<le> n"
| "fits n v (RandomTopo t) \<longleftrightarrow> 2 \<le> n \<and> CreateRing t \<and> nat n \<le> unat (Count t) \<and> unat (Count t) < 2 ^ 31"
| "fits n v (SuperClusterTopo t) \<longleftrightarrow> n \<le> 1000000 \<and> 2 \<le> v \<and> (v = n \<or> v + 2 \<le> n)"

fun positive_rate :: "messaging \<Rightarrow> bool" where
  "positive_rate (ConstantRate c) \<longleftrightarrow> 0 < Rate c"
| "positive_rate (Hotstuff h) \<longleftrightarrow> True"

text \<open>The latency file reads as a table with cities, between all of which \<open>Find\<close> returns.\<close>

definition latencies_ok :: "string \<Rightarrow> bool" where
  "latencies_ok raw \<longleftrightarrow> (\<exists>l. ReadLatencyDataFromJson raw = Inr l \<and> SourcesList l \<noteq> [] \<and>
     (\<forall>a \<in> snd ` set (SourcesList l). \<forall>b \<in> snd ` set (SourcesList l). \<exists>d. latency_Find a b l = Inr d))"

text \<open>libp2p connects two hosts of the process whose transport dials, and calls \<open>ConnectedF\<close> once at each end.\<close>

definition host_connects :: "(GossipAgent \<times> GossipAgent \<Rightarrow> host_result) \<Rightarrow> bool" where
  "host_connects host \<longleftrightarrow> (\<forall>p. \<exists>ends. host p = HostConnect (Dialled None ends) \<and> distinct ends \<and> set ends = {DialerEnd, ListenerEnd})"

definition bench_ok :: "bench_env \<Rightarrow> GossipParameters \<Rightarrow> topology \<Rightarrow> messaging \<Rightarrow> bool" where
  "bench_ok env p topo msg \<longleftrightarrow>
     be_logger env = None \<and> latencies_ok (be_latencyDataRaw env) \<and> 0 \<le> param_startingPort p \<and> param_startingPort p + nodeCount p < 2 ^ 63 \<and> nodeCount p < 2 ^ 31 \<and>
     1 \<le> validatorCount p \<and> validatorCount p \<le> nodeCount p \<and> fits (nodeCount p) (validatorCount p) topo \<and> positive_rate msg \<and>
     (\<forall>t ip port a. fst (Listen (be_lib env) t ip port a) = None) \<and> host_connects (be_host env)"

text \<open>A topology that fits joins the agents.\<close>

lemma topology_joins:
  assumes as: "indexed sp n m" "range_of m as" "n < 2 ^ 31" and v: "int (length (filter IsValidator (map snd as))) = v" and fits: "fits n v topo"
  shows "\<exists>conns result. topology_MakeConnections connect r topo as conns result"
    and "topology_MakeConnections connect r topo as conns result \<Longrightarrow> result = Inr () \<and> among (map snd as) conns \<and> connected_on {0..<n} conns"
proof -
  have n: "0 \<le> n" "n < 2 ^ 63"
    using fits v as(3) by (cases topo; auto)+
  have len: "int (length as) = n"
    using indexed_range(2) [OF as(1,2) n] .
  have compl: "length (filter IsValidator (map snd as)) + length (filter (\<lambda>a. \<not> IsValidator a) (map snd as)) = length as"
    using sum_length_filter_compl [of IsValidator "map snd as"] by simp
  have "(\<exists>conns result. topology_MakeConnections connect r topo as conns result) \<and>
    (\<forall>conns result. topology_MakeConnections connect r topo as conns result \<longrightarrow>
       result = Inr () \<and> among (map snd as) conns \<and> connected_on {0..<n} conns)"
  proof (cases topo)
    case LinearTopo
    then have "as \<noteq> []"
      using fits len by auto
    then show ?thesis
      using linear_topo.joins_cluster [OF as(1,2) n] LinearTopo by blast
  next
    case (RandomTopo t)
    then have "2 \<le> length as \<and> CreateRing t \<and> length as \<le> unat (Count t) \<and> unat (Count t) < 2 ^ 31"
      using fits len by auto
    then show ?thesis
      using random_topo.joins_cluster [OF as(1,2) n] RandomTopo by blast
  next
    case (SuperClusterTopo t)
    then have "length as \<le> 1000000 \<and> 2 \<le> length (filter IsValidator (map snd as)) \<and>
      (filter (\<lambda>a. \<not> IsValidator a) (map snd as) = [] \<or> 2 \<le> length (filter (\<lambda>a. \<not> IsValidator a) (map snd as)))"
      using fits len v compl by (auto simp flip: length_0_conv)
    then show ?thesis
      using supercluster_topo.joins_cluster [OF as(1,2) n] SuperClusterTopo by blast
  qed
  then show "\<exists>conns result. topology_MakeConnections connect r topo as conns result"
    and "topology_MakeConnections connect r topo as conns result \<Longrightarrow> result = Inr () \<and> among (map snd as) conns \<and> connected_on {0..<n} conns"
    by blast+
qed

text \<open>When every call on a pair of agents succeeds, the established connections are the ones that the topology asks for.\<close>

lemma ConnectAgents_connects:
  assumes as: "indexed sp n m" "range_of m as" "n < 2 ^ 31" and v: "int (length (filter IsValidator (map snd as))) = v" and fits: "fits n v topo"
    and calls: "\<And>p. fst p \<in> set (map snd as) \<Longrightarrow> snd p \<in> set (map snd as) \<Longrightarrow> connect_outcome host c p = Inr (Some None)"
  shows "\<exists>conns result. ConnectAgents host r topo c as conns result"
    and "ConnectAgents host r topo c as conns result \<Longrightarrow> result = Inr () \<and> connected_on {0..<n} conns"
proof -
  note joins = topology_joins [OF as v fits]
  have ok: "connect_outcome host c p = Inr (Some None)" if "topology_MakeConnections connect r topo as conns result" "p \<in> set conns" for connect conns result p
    using joins(2) [OF that(1)] that(2) calls by (auto simp: among_def)
  obtain cs res where run: "topology_MakeConnections (\<lambda>_. None) r topo as cs res"
    using joins(1) by blast
  then show "\<exists>conns result. ConnectAgents host r topo c as conns result"
    using ConnectAgents.calls_return [OF run, of host c] ok [OF run] by blast
  assume "ConnectAgents host r topo c as conns result"
  then show "result = Inr () \<and> connected_on {0..<n} conns"
  proof cases
    case (calls_return connect cs)
    then have "connect p = None" if "p \<in> set cs" for p
      using ok that by fastforce
    then have "conns = cs"
      using calls_return(1) by (simp add: filter_id_conv)
    then show ?thesis
      using joins(2) [OF calls_return(2)] by blast
  next
    case (call_panics connect cs result p e)
    then show ?thesis
      using ok by fastforce
  qed
qed

text \<open>The cluster that is left after the agents have been started.\<close>

lemma bench_started:
  assumes ok: "bench_ok env p topo msg"
    and add: "bench_agents env p = Inr c"
  shows "\<exists>result c'. StartAgents (be_lib env) (be_now env) c result c'"
    and "StartAgents (be_lib env) (be_now env) c result c' \<Longrightarrow>
      result = Inr (nodeCount p, 0) \<and> indexed (param_startingPort p) (nodeCount p) (cl_agents c') \<and>
      (\<forall>q a. cl_agents c' q = Some a \<longrightarrow> Host a \<noteq> None \<and> Topic a \<noteq> None \<and> (Validator a \<longleftrightarrow> Port a < validatorCount p))"
    and "StartAgents (be_lib env) (be_now env) c result c' \<Longrightarrow> startingPort c' = param_startingPort p \<and>
      (\<forall>q a q' a'. cl_agents c' q = Some a \<longrightarrow> cl_agents c' q' = Some a' \<longrightarrow> (\<exists>d. latency_Find (City a) (City a') (cl_latency c') = Inr d))"
proof -
  let ?cfg = "\<lparr>ValidatorCount = validatorCount p, StartingPort = param_startingPort p, Ip = IpString, MsgSize = messageSize p, cfg_Kbps = 0, cfg_MTU = 0\<rparr>"
  obtain l where l: "be_logger env = None" "ReadLatencyDataFromJson (be_latencyDataRaw env) = Inr l"
    and n: "0 < nodeCount p" "ports_ok (nodeCount p) (NewCluster l ?cfg)" "SourcesList l \<noteq> []"
    and find: "\<forall>a \<in> snd ` set (SourcesList l). \<forall>b \<in> snd ` set (SourcesList l). \<exists>d. latency_Find a b l = Inr d"
    using ok by (auto simp: bench_ok_def ports_ok_def latencies_ok_def)
  obtain v where "bench_config env = GossipConfigPtr v"
    by (simp add: bench_config_def)
  then have added: "AddAgents (be_cities env) (GossipConfigPtr v) (nodeCount p) (NewCluster l ?cfg) = Inr c"
    using add l by (simp add: bench_agents_def bench_cluster_def)
  have listens: "\<forall>q a. cl_agents c q = Some a \<longrightarrow> fst (Listen (be_lib env) (be_now env (q - StartingPort ?cfg)) (Ip ?cfg) q a) = None"
    using ok by (simp add: bench_ok_def)
  show "startingPort c' = param_startingPort p \<and>
      (\<forall>q a q' a'. cl_agents c' q = Some a \<longrightarrow> cl_agents c' q' = Some a' \<longrightarrow> (\<exists>d. latency_Find (City a) (City a') (cl_latency c') = Inr d))"
    if "StartAgents (be_lib env) (be_now env) c result c'"
  proof -
    note k = StartAgents_keeps [OF n(3,2,1) added listens that]
    have "startingPort c' = param_startingPort p"
      using k(1) by simp
    then show ?thesis
      unfolding k(2) using k(3) find by blast
  qed
  from StartAgents_ok [OF n(3,2,1) added listens]
  show "\<exists>result c'. StartAgents (be_lib env) (be_now env) c result c'"
    and "StartAgents (be_lib env) (be_now env) c result c' \<Longrightarrow>
      result = Inr (nodeCount p, 0) \<and> indexed (param_startingPort p) (nodeCount p) (cl_agents c') \<and>
      (\<forall>q a. cl_agents c' q = Some a \<longrightarrow> Host a \<noteq> None \<and> Topic a \<noteq> None \<and> (Validator a \<longleftrightarrow> Port a < validatorCount p))"
    by simp_all
qed

text \<open>There, every \<open>Connect\<close> succeeds.\<close>

lemma bench_connects:
  assumes ok: "bench_ok env p topo msg" and add: "bench_agents env p = Inr c" and run: "StartAgents (be_lib env) (be_now env) c result c'"
    and as: "range_of (cl_agents c') as" "a \<in> set (map snd as)" "b \<in> set (map snd as)"
  shows "connect_outcome (be_host env) c' (a, b) = Inr (Some None)"
proof -
  note st = bench_started(2,3) [OF ok add run]
  have agent: "cl_agents c' (listen_port x c') = Some x \<and> Host x \<noteq> None" if x: "x \<in> set (map snd as)" for x
  proof -
    obtain q where "(q, x) \<in> set as"
      using x by auto
    then have q: "cl_agents c' q = Some x"
      using range_of_entry [OF as(1)] by blast
    then have "Port x = q - param_startingPort p" "q \<in> {param_startingPort p..<param_startingPort p + nodeCount p}"
      using st(1) by (auto simp: indexed_def)
    moreover have "0 \<le> param_startingPort p" "param_startingPort p + nodeCount p < 2 ^ 63"
      using ok by (simp_all add: bench_ok_def)
    ultimately have "listen_port x c' = q"
      using st(2) by (simp add: listen_port_def AssignPort_def wrap64_id)
    then show ?thesis
      using q st(1) by auto
  qed
  obtain ends where ends: "be_host env (a, b) = HostConnect (Dialled None ends)" "distinct ends" "set ends = {DialerEnd, ListenerEnd}"
    using ok unfolding bench_ok_def host_connects_def by blast
  then have "length ends = 2"
    using distinct_card [of ends] by simp
  moreover have "\<exists>x. CreateConn () (listen_port y c') (listen_port z c') c' = Inr x" if "y \<in> {a, b}" "z \<in> {a, b}" for y z
  proof -
    have "cl_agents c' (listen_port y c') = Some y" "cl_agents c' (listen_port z c') = Some z"
      using agent that as(2,3) by auto
    then show ?thesis
      using CreateConn_ok st(2) by meson
  qed
  ultimately obtain ch where "Connect (be_host env) c' (a, b) newAgentConnectionHelper = Inr (Some None, ch)"
    using Connect_established [of a b "be_host env" ends c' newAgentConnectionHelper] ends(1) agent as(2,3)
    by (auto simp: newAgentConnectionHelper_def)
  then show ?thesis
    by (simp add: connect_outcome_def)
qed

lemma ex_range: "finite (dom m) \<Longrightarrow> \<exists>as. range_of m as"
proof -
  assume "finite (dom m)"
  from finite_distinct_list [OF this] obtain ks where ks: "set ks = dom m" "distinct ks"
    by (elim exE conjE)
  have "map_of (map (\<lambda>k. (k, the (m k))) ks) = m"
  proof
    fix k
    show "map_of (map (\<lambda>k. (k, the (m k))) ks) k = m k"
      using ks(1) by (cases "k \<in> set ks") (auto simp: map_of_map_keys domIff map_of_eq_None_iff)
  qed
  then show ?thesis
    using ks(2) by (intro exI [of _ "map (\<lambda>k. (k, the (m k))) ks"]) (simp add: range_of_def comp_def)
qed

lemma bench_adds: "bench_ok env p topo msg \<Longrightarrow> \<exists>c. bench_agents env p = Inr c"
  by (auto simp: bench_agents_def bench_config_def bench_cluster_def AddAgents_New bench_ok_def latencies_ok_def ports_ok_def)

lemma StartMessaging_returns:
  assumes "positive_rate msg" "indexed sp n m" "range_of m as" "1 \<le> k" "k \<le> n"
    and "\<forall>q a. m q = Some a \<longrightarrow> Host a \<noteq> None \<and> Topic a \<noteq> None \<and> (Validator a \<longleftrightarrow> Port a < k)"
  shows "\<exists>sf s. StartMessaging lib rnd ld msg as t0 (Inr sf) s" and "StartMessaging lib rnd ld msg as t0 result s \<Longrightarrow> \<exists>sf. result = Inr sf"
  using constant_rate.started_cluster [OF _ assms(2-6)] hotstuff.started_cluster [OF TrueI assms(2-6)] assms(1)
  by (cases msg; fastforce)+

text \<open>The phases after \<open>AddAgents\<close>.\<close>

lemma bench_phases:
  assumes ok: "bench_ok env p topo msg" and c: "bench_agents env p = Inr c"
    and run: "StartAgents (be_lib env) (be_now env) c r c'" "range_of (cl_agents c') as"
  shows "\<exists>conns result. ConnectAgents (be_host env) (be_draws env) topo c' as conns result"
    "ConnectAgents (be_host env) (be_draws env) topo c' as conns result \<Longrightarrow> result = Inr () \<and> connected_on {0..<nodeCount p} conns"
    "\<exists>sf s. StartMessaging (be_lib env) (be_rnd env) (be_leader env) msg as (be_t0 env) (Inr sf) s"
    "StartMessaging (be_lib env) (be_rnd env) (be_leader env) msg as (be_t0 env) mr s \<Longrightarrow> \<exists>sf. mr = Inr sf"
proof -
  have n: "nodeCount p < 2 ^ 31" "fits (nodeCount p) (validatorCount p) topo" "1 \<le> validatorCount p" "positive_rate msg"
    "validatorCount p \<le> nodeCount p"
    using ok by (simp_all add: bench_ok_def)
  have c': "indexed (param_startingPort p) (nodeCount p) (cl_agents c')"
    and ags: "\<forall>q a. cl_agents c' q = Some a \<longrightarrow> Host a \<noteq> None \<and> Topic a \<noteq> None \<and> (Validator a \<longleftrightarrow> Port a < validatorCount p)"
    using bench_started(2) [OF ok c run(1)] by simp_all
  have "int (length (filter IsValidator (map snd as))) = max 0 (min (nodeCount p) (validatorCount p))"
    using ags n by (intro length_filter_range [OF c' run(2)]) auto
  then have v: "int (length (filter IsValidator (map snd as))) = validatorCount p"
    using n by simp
  show "\<exists>conns result. ConnectAgents (be_host env) (be_draws env) topo c' as conns result"
    "ConnectAgents (be_host env) (be_draws env) topo c' as conns result \<Longrightarrow> result = Inr () \<and> connected_on {0..<nodeCount p} conns"
    using ConnectAgents_connects [OF c' run(2) n(1) v n(2)] bench_connects [OF ok c run] by (metis prod.collapse)+
  show "\<exists>sf s. StartMessaging (be_lib env) (be_rnd env) (be_leader env) msg as (be_t0 env) (Inr sf) s"
    "StartMessaging (be_lib env) (be_rnd env) (be_leader env) msg as (be_t0 env) mr s \<Longrightarrow> \<exists>sf. mr = Inr sf"
    using StartMessaging_returns [OF n(4) c' run(2) n(3,5) ags] by blast+
qed

lemma bench_completes:
  assumes ok: "bench_ok env p topo msg"
  shows "\<exists>sf conns s. StartGossipBench env p topo msg (Inr sf) conns (Some s)"
proof -
  obtain c where c: "bench_agents env p = Inr c"
    using bench_adds [OF ok] by blast
  obtain r c' where c': "StartAgents (be_lib env) (be_now env) c r c'"
    using bench_started(1) [OF ok c] by blast
  then have r: "r = Inr (nodeCount p, 0)" "dom (cl_agents c') = {param_startingPort p..<param_startingPort p + nodeCount p}"
    using bench_started(2) [OF ok c] by (auto simp: indexed_def)
  then have "finite (dom (cl_agents c'))"
    by simp
  then obtain as where as: "range_of (cl_agents c') as"
    using ex_range by blast
  show ?thesis
    using bench_phases [OF ok c c' as] StartGossipBench.messaging [OF c c' [unfolded r] as _ as] by blast
qed

lemma bench_no_panic:
  assumes ok: "bench_ok env p topo msg" and run: "StartGossipBench env p topo msg result conns s"
  shows "(\<exists>sf. result = Inr sf) \<and> connected_on {0..<nodeCount p} conns"
  using run
proof cases
  case (add_panics e)
  then show ?thesis
    using bench_adds [OF ok] by auto
next
  case (start_panics c e c')
  then show ?thesis
    using bench_started(2) [OF ok] by fastforce
next
  case (connect_panics c sf c' as e)
  then show ?thesis
    using bench_phases(2) [OF ok] by fastforce
next
  case (messaging c sf c' as as' s')
  then show ?thesis
    using bench_phases(2,4) [OF ok messaging(2,3)] by blast
qed

section \<open>Properties\<close>

text \<open>
  C1. A benchmark with sane parameters runs through. When every agent can listen, the latency file has a latency for every two of its cities, the
  library connects two hosts that dial each other and notifies both ends, there is a validator, the topology fits the number of agents and
  the rate is positive, then: whatever the random draws and the schedules, no phase of \<open>StartGossipBench\<close> panics; the connections
  that were established, each by a call of \<open>Connect\<close> that returned success, join all the agents; the benchmark can complete; and the command
  exits with 0.
\<close>

theorem benchmark_runs:
  assumes "flag_Parse gossip_NewFlagSet args default_params = Inr (params, rest)"
    and "choose_topology params = Some (p, topo)" "choose_messaging p = Some msg" "bench_ok env p topo msg"
  shows "(\<exists>sf conns s. StartGossipBench env p topo msg (Inr sf) conns (Some s)) \<and>
    (\<forall>result conns s. StartGossipBench env p topo msg result conns s \<longrightarrow>
       (\<exists>sf. result = Inr sf) \<and> connected_on {0..<nodeCount p} conns) \<and>
    (\<forall>result. Run env args result \<longleftrightarrow> result = Inr 0)"
proof -
  note some = bench_completes [OF assms(4)] and all = bench_no_panic [OF assms(4)]
  have "Run env args result \<longleftrightarrow> result = Inr 0" for result
    using some all assms(1-3) by (auto elim!: RunE intro: Run.executed) (fastforce dest: all)+
  then show ?thesis
    using some all by blast
qed

definition ex_env :: bench_env where
  "ex_env = \<lparr>be_lib = ex_lib, be_logger = None, be_latencyDataRaw = ex_latency_file,
     be_transport = Some 0, be_cities = (\<lambda>k. k), be_draws = (\<lambda>k. k), be_leader = 0,
     be_rnd = (\<lambda>_. 0), be_now = (\<lambda>i. i), be_t0 = 0, be_host = (\<lambda>_. HostConnect (Dialled None [ListenerEnd, DialerEnd]))\<rparr>"

lemma ex_env_latencies: "latencies_ok (be_latencyDataRaw ex_env)"
proof -
  let ?l = "file_table [(''7'', ex_row)] ex_source_list"
  have cities: "snd ` set (SourcesList ?l) = {''Amsterdam'', ''Atlanta''}" "SourcesList ?l \<noteq> []"
    by (simp_all add: file_table_def ex_source_list_def)
  have "''91.395'' = decimal ''91'' ''395''"
    by (simp add: decimal_def)
  then have "latency_Find ''Amsterdam'' ''Atlanta'' ?l = Inr 91395000"
    using Find_decimal [of ?l "''Amsterdam''" "''7''" "''Atlanta''" "''18''" "ping_row ex_row" "''91''" "''395''"]
    by (simp add: file_table_def ex_source_list_def ping_row_def ex_row_def ping_avg_def is_digit_def digits_value_def)
  moreover have "latency_Find ''Amsterdam'' ''Amsterdam'' ?l = Inr 580000" "latency_Find ''Atlanta'' c ?l = Inr 580000" for c
    by (intro Find_missing; simp add: file_table_def ex_source_list_def ping_row_def ex_row_def ping_avg_def map_get_def)+
  ultimately have "\<forall>a \<in> snd ` set (SourcesList ?l). \<forall>b \<in> snd ` set (SourcesList ?l). \<exists>d. latency_Find a b ?l = Inr d"
    unfolding cities(1) by blast
  then show ?thesis
    using ReadLatencyDataFromJson_file [OF ex_latency_file_tree(2,1)] cities(2) by (simp add: latencies_ok_def ex_env_def)
qed

theorem benchmark_runs_witness:
  "\<forall>result. Run ex_env [''-size=2048''] result \<longleftrightarrow> result = Inr 0"
proof -
  let ?q = "default_params\<lparr>messageSize := 2048\<rparr>"
  let ?p = "?q\<lparr>nonValidatorDegree := -1, connectionCount := -1, peeringDegree := 2\<rparr>"
  let ?msg = "ConstantRate \<lparr>Rate = 900 * millisecond, LogDuration = 40 * second, Timeout = 50 * second, MessageSize = 2048\<rparr>"
  have "flag_Parse gossip_NewFlagSet [''-size=2048''] default_params = Inr (?q, [])"
    by code_simp
  moreover have "choose_topology ?q = Some (?p, LinearTopo)"
    by (simp add: choose_topology_def default_params_def linear_def random_def superCluster_def)
  moreover have "choose_messaging ?p = Some ?msg"
    by (simp add: choose_messaging_def default_params_def constantRate_def wrap64_def)
  moreover have "bench_ok ex_env ?p LinearTopo ?msg"
    using ex_env_latencies by (simp add: bench_ok_def default_params_def) (auto simp: ex_env_def ex_lib_listens host_connects_def)
  ultimately show ?thesis
    using benchmark_runs [of "[''-size=2048'']" ?q "[]" ?p LinearTopo ?msg ex_env] by blast
qed

text \<open>
  C27. The flags give the parameters: the arguments that name every flag with its value, in Go's decimal notation, are
  parsed to exactly those parameters, whatever the defaults are; no argument gives the defaults. And the command exits with
  1, before any agent is made, when a topology or a messaging is named that does not exist.
\<close>

theorem parameters_from_flags:
  assumes "params_in_range p"
  shows "flag_Parse gossip_NewFlagSet (gossip_args p) q = Inr (p, []) \<and> flag_Parse gossip_NewFlagSet [] q = Inr (q, []) \<and>
    (topology_name p \<notin> {linear, random, superCluster} \<or> messaging_name p \<notin> {constantRate, hotStuff} \<longrightarrow>
       (\<forall>result. Run env (gossip_args p) result \<longleftrightarrow> result = Inr 1))"
proof -
  note parse = gossip_args_parse [OF assms]
  have "Run env (gossip_args p) result \<longleftrightarrow> result = Inr 1"
    if unknown: "topology_name p \<notin> {linear, random, superCluster} \<or> messaging_name p \<notin> {constantRate, hotStuff}" for result
  proof (cases "choose_topology p")
    case None
    then show ?thesis
      using parse by (auto elim!: RunE intro: Run.unknown_topology)
  next
    case (Some r)
    obtain p' topo where r: "r = (p', topo)"
      by fastforce
    have "choose_messaging p' = None"
      using unknown choose_topology_known [of p] choose_messaging_known [of p'] choose_topology_keeps(3) [of p p' topo] Some r by auto
    then show ?thesis
      using Some r parse by (auto elim!: RunE intro: Run.unknown_messaging)
  qed
  then show ?thesis
    using parse by simp
qed

theorem parameters_from_flags_witness:
  "\<forall>result. Run ex_env (gossip_args (default_params\<lparr>topology_name := ''star''\<rparr>)) result \<longleftrightarrow> result = Inr 1"
proof -
  let ?p = "default_params\<lparr>topology_name := ''star''\<rparr>"
  have "params_in_range ?p" "topology_name ?p \<notin> {linear, random, superCluster}"
    by (simp_all add: params_in_range_def default_params_def int64_range_def linear_def random_def superCluster_def)
  then show ?thesis
    using parameters_from_flags [of ?p default_params ex_env] by blast
qed

end
