(* ===== verification/CommandLine.thy ===== *)
theory CommandLine
  imports StartGossip
begin

text \<open>
  The entry points of the two programs (\<open>cmd/benchmark/main.go\<close>, \<open>cmd/stats/main.go\<close>): the texts and the tables of the commands, and
  \<open>main\<close>. The package \<open>cli\<close> is a parameter, the function that \<open>CLI.Run\<close> is; \<open>dispatches\<close> is what its documentation
  promises: the command that the first argument names is run with the other arguments, unless one of them asks for help.
\<close>

section \<open>The commands\<close>

record cli_Command =
  cmd_Help :: string
  cmd_Synopsis :: string
  cmd_Run :: "string list \<Rightarrow> int go \<Rightarrow> bool"

fun unlines :: "string list \<Rightarrow> string" where
  "unlines [] = []"
| "unlines [l] = l"
| "unlines (l # ls) = l @ CHR 0x0A # unlines ls"

definition gossip_Help :: string where
  "gossip_Help = unlines
     [''Command runs the libp2p framework based on provided configuration (node count, validator count, ).'',
      [],
      ''    Usage: start -nodes={numberOfNodes} -validators={numberOfValidators} -topology={topologyType(linear,random, super-cluster)} -rate={messagesRate} -size={messageSize}'',
      [],
      ''    Options:'' @ [CHR 0x09],
      ''    -nodes                 - Count of nodes'',
      ''    -validators            - Count of validators'',
      ''    -topology              - Topology of the nodes (linear, random, super-cluster)'',
      ''    -rate                  - Message rate of a node in milliseconds'',
      ''    -duration              - Guaranteed benchmark duration in seconds for which the results will be logged'',
      [CHR 0x09] @ ''-downtime'' @ [CHR 0x09] @ ''           - Period of time in seconds at the end of benchmark for which logs will be discarded '',
      ''    -size                  - Size of a transmitted message'',
      [CHR 0x09] @ ''-degree                - Peering degree: count of directly connected peers'',
      [CHR 0x09] @ ''-non-validator-degree  - Peering degree: count of directly connected non-validator peers (super-cluster only)'',
      [CHR 0x09] @ ''-connection-count      - Number of connections in random topology'',
      [CHR 0x09] @ ''-messaging'' @ [CHR 0x09] @ [CHR 0x09] @ [CHR 0x09] @ ''   - Messaging syncronization mechanism (constant rate, hotstuff)'']"

definition gossip_Synopsis :: string where
  "gossip_Synopsis = ''Starts the libp2p framework''"

definition StartGossipCommand :: "bench_env \<Rightarrow> cli_Command" where
  "StartGossipCommand env = \<lparr>cmd_Help = gossip_Help, cmd_Synopsis = gossip_Synopsis, cmd_Run = Run env\<rparr>"

definition GetGossipCommands :: "bench_env \<Rightarrow> string \<rightharpoonup> error + cli_Command" where
  "GetGossipCommands env = [''start'' \<mapsto> Inr (StartGossipCommand env)]"

definition stats_Help :: string where
  "stats_Help = unlines
     [''Command runs the libp2p framework based on provided configuration (node count, validator count).'',
      [],
      ''    Usage: start -path={filePath} -maxDuration={25}'',
      [],
      ''    Options:'' @ [CHR 0x09],
      ''    -path        - Path to file with logs'',
      ''    -maxDuration - Maximum duration in seconds for statistics'']"

definition stats_Synopsis :: string where
  "stats_Synopsis = ''Starts the statistics''"

text \<open>The package variable \<open>durations\<close> is empty at first.\<close>

definition GetStatsCommands :: "((string \<rightharpoonup> stats) \<Rightarrow> stats list) \<Rightarrow> (string \<Rightarrow> error + string) \<Rightarrow> string \<rightharpoonup> error + cli_Command" where
  "GetStatsCommands order_of open_file =
     [''start'' \<mapsto> Inr \<lparr>cmd_Help = stats_Help, cmd_Synopsis = stats_Synopsis,
        cmd_Run = (\<lambda>args r. r = map_sum id fst (StatsCommand_Run order_of open_file args []))\<rparr>]"

section \<open>main\<close>

text \<open>\<open>CLI.Run\<close> relates the table and the arguments to a code and an error, or to the panic of the command.\<close>

type_synonym cli = "(string \<rightharpoonup> error + cli_Command) \<Rightarrow> string list \<Rightarrow> (int \<times> error option) go \<Rightarrow> bool"

text \<open>The status of the process: \<open>main\<close> returns, or \<open>log.Fatalf\<close> exits with 1; a panic is status 2.\<close>

fun exit_status :: "(int \<times> error option) go \<Rightarrow> int" where
  "exit_status (Inl p) = 2"
| "exit_status (Inr (code, None)) = 0"
| "exit_status (Inr (code, Some err)) = 1"

text \<open>\<open>os.Args[1:]\<close> of no arguments at all is out of range.\<close>

inductive benchmark_main :: "cli \<Rightarrow> bench_env \<Rightarrow> string list \<Rightarrow> int \<Rightarrow> bool" for cli env where
  no_args: "benchmark_main cli env [] 2"
| run: "cli (GetGossipCommands env) args r \<Longrightarrow> benchmark_main cli env (prog # args) (exit_status r)"

inductive stats_main :: "cli \<Rightarrow> ((string \<rightharpoonup> stats) \<Rightarrow> stats list) \<Rightarrow> (string \<Rightarrow> error + string) \<Rightarrow> string list \<Rightarrow> int \<Rightarrow> bool"
  for cli order_of open_file where
  no_args: "stats_main cli order_of open_file [] 2"
| run: "cli (GetStatsCommands order_of open_file) args r \<Longrightarrow> stats_main cli order_of open_file (prog # args) (exit_status r)"

inductive_simps benchmark_main_args: "benchmark_main cli env (prog # args) status"

inductive_simps stats_main_args: "stats_main cli order_of open_file (prog # args) status"

section \<open>Properties\<close>

text \<open>The code by which a command asks for its help text.\<close>

abbreviation RunResultHelp :: int where "RunResultHelp \<equiv> - 18511"

definition asks_help :: "string list \<Rightarrow> bool" where
  "asks_help args \<longleftrightarrow> list_ex (\<lambda>a. a \<in> set [''-h'', ''-help'', ''--help'']) (takeWhile (\<lambda>a. a \<noteq> ''--'') args)"

definition command_name :: "string \<Rightarrow> bool" where
  "command_name n \<longleftrightarrow> list_all (\<lambda>c. between 97 122 (of_char c)) n \<and> n \<noteq> []"

definition dispatches :: "cli \<Rightarrow> (string \<rightharpoonup> error + cli_Command) \<Rightarrow> bool" where
  "dispatches cli cmds \<longleftrightarrow>
     (\<forall>name args c r. command_name name \<longrightarrow> cmds name = Some (Inr c) \<longrightarrow> \<not> asks_help args \<longrightarrow> \<not> cmd_Run c args (Inr RunResultHelp) \<longrightarrow>
        cli cmds (name # args) r = (\<exists>r'. cmd_Run c args r' \<and> r = map_sum id (\<lambda>code. (code, None)) r'))"

lemma dispatches_start:
  assumes "dispatches cli cmds" "cmds ''start'' = Some (Inr c)" "\<not> asks_help args" "\<not> cmd_Run c args (Inr RunResultHelp)"
  shows "cli cmds (''start'' # args) r \<longleftrightarrow> (\<exists>r'. cmd_Run c args r' \<and> r = map_sum id (\<lambda>code. (code, None)) r')"
proof -
  have "command_name ''start''"
    by code_simp
  then show ?thesis
    using assms unfolding dispatches_def by blast
qed

lemma Run_codes: "Run env args (Inr code) \<Longrightarrow> code = 0 \<or> code = 1"
  by (auto elim: RunE)

lemma StatsCommand_Run_codes: "StatsCommand_Run order_of open_file args ds = Inr (code, rest) \<Longrightarrow> code = 0 \<or> code = 1"
  by (auto simp: StatsCommand_Run_def split: sum.split_asm prod.split_asm if_split_asm)

lemma exit_status_code: "exit_status (map_sum id (\<lambda>code. (code, None)) r) = (case r of Inl p \<Rightarrow> 2 | Inr code \<Rightarrow> 0)"
  by (cases r) simp_all

lemma started_status:
  "(\<exists>r. status = exit_status r \<and> (\<exists>r'. P r' \<and> r = map_sum id (\<lambda>code. (code, None)) r')) \<longleftrightarrow>
   (\<exists>r. P r \<and> status = (case r of Inl p \<Rightarrow> 2 | Inr code \<Rightarrow> 0))"
  by (auto simp flip: exit_status_code)

text \<open>
  C39. The status of the processes: \<open>main\<close> runs the command \<open>start\<close> with the arguments after its name, and the status is 2
  exactly when the command panics and 0 otherwise. The code that the command returns, 1 for wrong arguments, an
  unknown topology or an empty path, is dropped.
\<close>

theorem exit_code_dropped:
  assumes "dispatches cli (GetGossipCommands env)" "dispatches cli (GetStatsCommands order_of open_file)" "\<not> asks_help args"
  shows "(benchmark_main cli env (prog # ''start'' # args) status \<longleftrightarrow> (\<exists>r. Run env args r \<and> status = (case r of Inl p \<Rightarrow> 2 | Inr code \<Rightarrow> 0))) \<and>
    (stats_main cli order_of open_file (prog # ''start'' # args) status \<longleftrightarrow>
      status = (case StatsCommand_Run order_of open_file args [] of Inl p \<Rightarrow> 2 | Inr r \<Rightarrow> 0))"
proof
  have "\<not> Run env args (Inr RunResultHelp)"
    using Run_codes by fastforce
  then show "benchmark_main cli env (prog # ''start'' # args) status \<longleftrightarrow> (\<exists>r. Run env args r \<and> status = (case r of Inl p \<Rightarrow> 2 | Inr code \<Rightarrow> 0))"
    using dispatches_start [OF assms(1) _ assms(3)] 
    by (simp add: benchmark_main_args GetGossipCommands_def StartGossipCommand_def started_status)
  have "map_sum id fst (StatsCommand_Run order_of open_file args []) \<noteq> Inr RunResultHelp"
    using StatsCommand_Run_codes by (cases "StatsCommand_Run order_of open_file args []") fastforce+
  then show "stats_main cli order_of open_file (prog # ''start'' # args) status \<longleftrightarrow>
      status = (case StatsCommand_Run order_of open_file args [] of Inl p \<Rightarrow> 2 | Inr r \<Rightarrow> 0)"
    using dispatches_start [OF assms(2) _ assms(3)]
    by (cases "StatsCommand_Run order_of open_file args []") (auto simp: stats_main_args GetStatsCommands_def started_status)
qed

text \<open>A dispatcher, and a benchmark with a topology that does not exist.\<close>

definition ex_cli :: cli where
  "ex_cli cmds args r =
     (case args of [] \<Rightarrow> r = Inr (127, None)
      | name # rest \<Rightarrow>
          (case cmds name of None \<Rightarrow> r = Inr (127, None)
           | Some (Inl e) \<Rightarrow> r = Inr (1, Some e)
           | Some (Inr c) \<Rightarrow> \<exists>r'. cmd_Run c rest r' \<and> r = map_sum id (\<lambda>code. (code, None)) r'))"

lemma ex_cli_dispatches: "dispatches ex_cli cmds"
  by (simp add: dispatches_def ex_cli_def)

theorem exit_code_dropped_witness:
  "\<forall>status. benchmark_main ex_cli ex_env [''bench'', ''start'', ''-topology=star''] status \<longleftrightarrow> status = 0"
proof -
  let ?args = "[''-topology=star'']"
  have parse: "flag_Parse gossip_NewFlagSet ?args default_params = Inr (default_params\<lparr>topology_name := ''star''\<rparr>, [])"
    by code_simp
  have none: "choose_topology (default_params\<lparr>topology_name := ''star''\<rparr>) = None"
    by code_simp
  have "Run ex_env ?args r \<longleftrightarrow> r = Inr 1" for r
    using parse none by (auto elim!: RunE intro: Run.unknown_topology)
  moreover have "\<not> asks_help ?args"
    by code_simp
  ultimately show ?thesis
    using exit_code_dropped [OF ex_cli_dispatches ex_cli_dispatches, of ?args ex_env "''bench''"] by simp
qed

section \<open>The help texts\<close>

text \<open>The flags that a help text lists: the lines that begin with a dash after the indentation.\<close>

fun split_lines :: "string \<Rightarrow> string list" where
  "split_lines [] = [[]]"
| "split_lines (c # cs) = (if c = CHR 0x0A then [] # split_lines cs else case split_lines cs of [] \<Rightarrow> [[c]] | l # ls \<Rightarrow> (c # l) # ls)"

definition listed_flags :: "string \<Rightarrow> string list" where
  "listed_flags h = [takeWhile (\<lambda>c. \<not> is_space c) (tl l). l \<leftarrow> map (dropWhile is_space) (split_lines h), l \<noteq> [] \<and> hd l = CHR ''-'']"

lemma stats_Help_flags: "filter (\<lambda>n. StatsCommand_NewFlagSet n = None) (listed_flags stats_Help) = [''maxDuration'']"
  by code_simp

lemma documented_usage_refused:
  "StatsCommand_Run order_of open_file [''-path=log'', ''-maxDuration=25''] ds = Inr (1, [], ds)"
proof -
  have "flag_Parse StatsCommand_NewFlagSet [''-path=log'', ''-maxDuration=25''] StatsCommand_defaults = Inl (FlagNotDefined ''maxDuration'')"
    by code_simp
  then show ?thesis
    by (simp add: StatsCommand_Run_def)
qed

end
