(* ===== verification/LogFile.thy ===== *)
theory LogFile
  imports StartGossip
begin

text \<open>
  The log file, by which the benchmark and the statistics communicate: the benchmark's logger writes one JSON object per
  line, first the header of \<open>StartGossipBench\<close> and then the entries of the agents; the statistics read them back.

  The logger's encoder belongs to a library (zap). Here it is a function \<open>enc\<close> from the fields of a line to its text, and
  \<open>encodes\<close> is what the commands rely on: the text is one line, and a JSON object with exactly these fields. The
  time is the text that the program's own \<open>SyslogTimeEncoder\<close> gives.
\<close>

section \<open>The lines\<close>

datatype field =
    StringField string
  | BoolField bool
  | IntField int
  | TimeField string

definition optional :: "string \<Rightarrow> ('a \<Rightarrow> field) \<Rightarrow> 'a option \<Rightarrow> (string \<times> field) list" where
  "optional n f v = (case v of None \<Rightarrow> [] | Some x \<Rightarrow> [(n, f x)])"

text \<open>The fields in the order of the calls of \<open>Logger.Info\<close>: a sent message has \<open>aggregateStats\<close> before \<open>msgID\<close>, a received one after it.\<close>

definition entry_fields :: "(int \<Rightarrow> int) \<Rightarrow> entry \<Rightarrow> (string \<times> field) list" where
  "entry_fields zone e =
     [(''time'', TimeField (SyslogTimeEncoder zone (z_time e)))] @ [(''msg'', StringField (z_msg e))] @
     optional ''peer'' StringField (z_peer e) @ optional ''direction'' StringField (z_direction e) @
     (if z_direction e = Some ''sent''
      then optional ''aggregateStats'' BoolField (z_aggregateStats e) @ optional ''msgID'' StringField (z_msgID e)
      else optional ''msgID'' StringField (z_msgID e) @ optional ''aggregateStats'' BoolField (z_aggregateStats e)) @
     optional ''from'' StringField (z_from e) @ optional ''isValidator'' BoolField (z_isValidator e) @ optional ''topic'' StringField (z_topic e)"

fun messaging_type :: "messaging \<Rightarrow> string" where
  "messaging_type (ConstantRate c) = ''cluster.ConstantRateMessaging''"
| "messaging_type (Hotstuff h) = ''cluster.HotstuffMessaging''"

definition header_fields :: "(int \<Rightarrow> int) \<Rightarrow> int \<Rightarrow> GossipParameters \<Rightarrow> topology \<Rightarrow> messaging \<Rightarrow> (string \<times> field) list" where
  "header_fields zone t p topo msg =
     [(''time'', TimeField (SyslogTimeEncoder zone t)), (''msg'', StringField ''Starting gossip benchmark''),
      (''agentsCount'', IntField (nodeCount p)), (''validatorsCount'', IntField (validatorCount p)),
      (''topology'', StringField (topology_type topo)), (''messaging'', StringField (messaging_type msg)),
      (''benchDuration'', IntField (benchDuration p)), (''msgRate'', IntField (messageRate p)), (''peeringDegree'', IntField (peeringDegree p)),
      (''nonValidatorDegree'', IntField (nonValidatorDegree p)), (''connectionCount'', IntField (connectionCount p))]"

text \<open>The production configuration without sampling: one line for every entry, in the order of the calls.\<close>

definition log_file :: "((string \<times> field) list \<Rightarrow> string) \<Rightarrow> (string \<times> field) list list \<Rightarrow> string" where
  "log_file enc ls = concat (map (\<lambda>fs. enc fs @ [CHR 0x0A]) ls)"

section \<open>The encoder\<close>

fun holds :: "json \<Rightarrow> field \<Rightarrow> bool" where
  "holds (JStr raw) (StringField s) \<longleftrightarrow> unquote raw = s"
| "holds (JStr raw) (TimeField s) \<longleftrightarrow> raw = s"
| "holds (JBool b) (BoolField c) \<longleftrightarrow> b = c"
| "holds (JNum n) (IntField i) \<longleftrightarrow> parse_int64 n = Some i"
| "holds _ _ \<longleftrightarrow> False"

definition encodes :: "((string \<times> field) list \<Rightarrow> string) \<Rightarrow> (string \<times> field) list \<Rightarrow> bool" where
  "encodes enc fs \<longleftrightarrow>
     (\<exists>js. json_parse (enc fs) = Some (JObj js) \<and> list_all2 (\<lambda>(k, v) (n, f). unquote k = n \<and> holds v f) js fs) \<and>
     CHR 0x0A \<notin> set (enc fs) \<and> length (enc fs) < maxScanTokenSize \<and> enc fs \<noteq> [] \<and> last (enc fs) \<noteq> CHR 0x0D"

section \<open>Reading the file\<close>

lemma scan_tokens_line:
  assumes "CHR 0x0A \<notin> set line" "length line < maxScanTokenSize" "line \<noteq> []" "last line \<noteq> CHR 0x0D"
  shows "scan_tokens (line @ CHR 0x0A # rest) = line # scan_tokens rest"
proof -
  have "takeWhile (\<lambda>c. c \<noteq> CHR 0x0A) (line @ CHR 0x0A # rest) = line"
    using assms(1) by (auto simp: takeWhile_append)
  then show ?thesis
    using assms by (subst scan_tokens.simps) (simp add: dropCR_def)
qed

lemma scan_tokens_log_file: "list_all (encodes enc) ls \<Longrightarrow> scan_tokens (log_file enc ls) = map enc ls"
  by (induction ls) (simp_all add: log_file_def encodes_def scan_tokens_line scan_tokens.simps [of "[]"])

text \<open>What the decoding of a field does to the struct; a field that the struct does not have does nothing.\<close>

fun store_field :: "string list \<Rightarrow> (string \<Rightarrow> 'a decoder) \<Rightarrow> (string \<times> field) list \<Rightarrow> 'a \<Rightarrow> 'a \<Rightarrow> bool" where
  "store_field names put [] old new \<longleftrightarrow> new = old"
| "store_field names put ((n, f) # fs) old new \<longleftrightarrow>
     (case match_field names n of None \<Rightarrow> store_field names put fs old new
      | Some m \<Rightarrow> (\<exists>mid. (\<forall>v. holds v f \<longrightarrow> put m v old = Inr mid) \<and> store_field names put fs mid new))"

lemma decode_fields_holds:
  assumes "list_all2 (\<lambda>(k, v) (n, f). unquote k = n \<and> holds v f) js fs" "store_field names put fs old new"
  shows "decode_fields names put js old = Inr new"
  using assms
proof (induction js fs arbitrary: old rule: list_all2_induct)
  case (Cons j js f fs)
  then show ?case
    by (cases j; cases f) (fastforce split: option.splits)
qed simp

lemma Unmarshal_encoded:
  assumes "encodes enc fs" "store_field names put fs old new"
  shows "Unmarshal (decode_struct names put) (enc fs) old = Inr new"
  using assms decode_fields_holds [OF _ assms(2)] by (auto simp: encodes_def Unmarshal_def)

lemma holdsE:
  assumes "holds v f"
  shows "f = StringField s \<Longrightarrow> decode_string v s0 = Inr s" "f = BoolField b \<Longrightarrow> decode_bool v b0 = Inr b"
    "f = IntField i \<Longrightarrow> decode_int v i0 = Inr i" "f = TimeField t \<Longrightarrow> parse_RFC3339 t = Some n \<Longrightarrow> decode_time v n0 = Inr n"
  using assms by (cases v; auto)+

lemma store_field_append:
  "store_field names put fs old mid \<Longrightarrow> store_field names put gs mid new \<Longrightarrow> store_field names put (fs @ gs) old new"
proof (induction fs arbitrary: old)
  case (Cons f fs)
  then show ?case
    by (cases f) (fastforce split: option.splits)
qed simp

text \<open>The local time can be written: whole minutes of offset and a year of four digits.\<close>

definition time_ok :: "(int \<Rightarrow> int) \<Rightarrow> int \<Rightarrow> bool" where
  "time_ok zone t \<longleftrightarrow> zone t mod 60 = 0 \<and> \<bar>zone t\<bar> < 360000 \<and> 0 \<le> year_at (zone t) t \<and> year_at (zone t) t < 10000"

text \<open>The log has whole seconds.\<close>

definition log_time :: "int \<Rightarrow> int" where
  "log_time t = t div second * second"

lemma SyslogTimeEncoder_parse: "time_ok zone t \<Longrightarrow> parse_RFC3339 (SyslogTimeEncoder zone t) = Some (log_time t)"
  by (simp add: time_ok_def SyslogTimeEncoder_def log_time_def parse_format_RFC3339)

text \<open>The variable \<open>logLine\<close> after the line of an entry.\<close>

definition upd :: "('a \<Rightarrow> Log \<Rightarrow> Log) \<Rightarrow> 'a option \<Rightarrow> Log \<Rightarrow> Log" where
  "upd f v l = (case v of None \<Rightarrow> l | Some x \<Rightarrow> f x l)"

definition apply_entry :: "entry \<Rightarrow> Log \<Rightarrow> Log" where
  "apply_entry e l =
     upd (\<lambda>v l. l\<lparr>Log_Topic := v\<rparr>) (z_topic e) (upd (\<lambda>v l. l\<lparr>Log_IsValidator := v\<rparr>) (z_isValidator e) (upd (\<lambda>v l. l\<lparr>From := v\<rparr>) (z_from e)
     (upd (\<lambda>v l. l\<lparr>AggregateStats := v\<rparr>) (z_aggregateStats e) (upd (\<lambda>v l. l\<lparr>MsgID := v\<rparr>) (z_msgID e)
     (upd (\<lambda>v l. l\<lparr>Direction := v\<rparr>) (z_direction e) (upd (\<lambda>v l. l\<lparr>Peer := v\<rparr>) (z_peer e)
     (l\<lparr>Time := log_time (z_time e), Msg := z_msg e\<rparr>)))))))"

lemma apply_entry_simps [simp]:
  "Time (apply_entry e l) = log_time (z_time e)"
  "MsgID (apply_entry e l) = (case z_msgID e of None \<Rightarrow> MsgID l | Some v \<Rightarrow> v)"
  "Direction (apply_entry e l) = (case z_direction e of None \<Rightarrow> Direction l | Some v \<Rightarrow> v)"
  "AggregateStats (apply_entry e l) = (case z_aggregateStats e of None \<Rightarrow> AggregateStats l | Some v \<Rightarrow> v)"
  "Log_IsValidator (apply_entry e l) = (case z_isValidator e of None \<Rightarrow> Log_IsValidator l | Some v \<Rightarrow> v)"
  by (simp_all add: apply_entry_def upd_def split: option.split)

lemma store_log_fields:
  "parse_RFC3339 t = Some n \<Longrightarrow> store_field Log_fields Log_store [(''time'', TimeField t)] l (l\<lparr>Time := n\<rparr>)"
  "store_field Log_fields Log_store [(''msg'', StringField m)] l (l\<lparr>Msg := m\<rparr>)"
  "store_field Log_fields Log_store (optional ''peer'' StringField v) l (upd (\<lambda>v l. l\<lparr>Peer := v\<rparr>) v l)"
  "store_field Log_fields Log_store (optional ''direction'' StringField v) l (upd (\<lambda>v l. l\<lparr>Direction := v\<rparr>) v l)"
  "store_field Log_fields Log_store (optional ''msgID'' StringField v) l (upd (\<lambda>v l. l\<lparr>MsgID := v\<rparr>) v l)"
  "store_field Log_fields Log_store (optional ''aggregateStats'' BoolField b) l (upd (\<lambda>v l. l\<lparr>AggregateStats := v\<rparr>) b l)"
  "store_field Log_fields Log_store (optional ''from'' StringField v) l (upd (\<lambda>v l. l\<lparr>From := v\<rparr>) v l)"
  "store_field Log_fields Log_store (optional ''isValidator'' BoolField b) l (upd (\<lambda>v l. l\<lparr>Log_IsValidator := v\<rparr>) b l)"
  "store_field Log_fields Log_store (optional ''topic'' StringField v) l (upd (\<lambda>v l. l\<lparr>Log_Topic := v\<rparr>) v l)"
  by (simp_all add: optional_def upd_def match_field_def Log_fields_def Log_store_def holdsE split: option.split) 

lemma store_id_fields:
  "store_field Log_fields Log_store
     (if sent then optional ''aggregateStats'' BoolField b @ optional ''msgID'' StringField v else optional ''msgID'' StringField v @ optional ''aggregateStats'' BoolField b)
     l (upd (\<lambda>v l. l\<lparr>AggregateStats := v\<rparr>) b (upd (\<lambda>v l. l\<lparr>MsgID := v\<rparr>) v l))"
proof -
  have "upd (\<lambda>v l. l\<lparr>AggregateStats := v\<rparr>) b (upd (\<lambda>v l. l\<lparr>MsgID := v\<rparr>) v l) =
      upd (\<lambda>v l. l\<lparr>MsgID := v\<rparr>) v (upd (\<lambda>v l. l\<lparr>AggregateStats := v\<rparr>) b l)"
    by (simp add: upd_def split: option.split)
  moreover have "store_field Log_fields Log_store (optional ''aggregateStats'' BoolField b @ optional ''msgID'' StringField v) l
      (upd (\<lambda>v l. l\<lparr>MsgID := v\<rparr>) v (upd (\<lambda>v l. l\<lparr>AggregateStats := v\<rparr>) b l))"
    by (rule store_field_append store_log_fields)+
  moreover have "store_field Log_fields Log_store (optional ''msgID'' StringField v @ optional ''aggregateStats'' BoolField b) l
      (upd (\<lambda>v l. l\<lparr>AggregateStats := v\<rparr>) b (upd (\<lambda>v l. l\<lparr>MsgID := v\<rparr>) v l))"
    by (rule store_field_append store_log_fields)+
  ultimately show ?thesis
    by simp
qed

lemma decode_entry:
  assumes "encodes enc (entry_fields zone e)" "time_ok zone (z_time e)"
  shows "Unmarshal decode_Log (enc (entry_fields zone e)) l = Inr (apply_entry e l)"
proof -
  have "store_field Log_fields Log_store (entry_fields zone e) l (apply_entry e l)"
    unfolding entry_fields_def apply_entry_def
    by (rule store_field_append store_id_fields store_log_fields SyslogTimeEncoder_parse [OF assms(2)])+
  then show ?thesis
    unfolding decode_Log_def by (rule Unmarshal_encoded [OF assms(1)])
qed

lemma header_match:
  "match_field Header_fields ''time'' = None" "match_field Header_fields ''msg'' = None" "match_field Header_fields ''messaging'' = None"
  "n \<in> set Header_fields \<Longrightarrow> match_field Header_fields n = Some n"
proof -
  show "match_field Header_fields ''time'' = None" "match_field Header_fields ''msg'' = None" "match_field Header_fields ''messaging'' = None"
    by code_simp+
  show "n \<in> set Header_fields \<Longrightarrow> match_field Header_fields n = Some n"
    by (simp add: match_field_def)
qed

lemma header_names: "set Header_fields = {''agentsCount'', ''validatorsCount'', ''topology'', ''peeringDegree'', ''nonValidatorDegree'', ''connectionCount'',
     ''benchDuration'', ''msgRate''}"
  by (simp add: Header_fields_def)

lemma store_header_fields:
  "store_field Header_fields Header_store fs h new \<Longrightarrow> store_field Header_fields Header_store ((''time'', t) # fs) h new"
  "store_field Header_fields Header_store fs h new \<Longrightarrow> store_field Header_fields Header_store ((''msg'', t) # fs) h new"
  "store_field Header_fields Header_store fs h new \<Longrightarrow> store_field Header_fields Header_store ((''messaging'', t) # fs) h new"
  "store_field Header_fields Header_store fs (h\<lparr>AgentsCount := i\<rparr>) new \<Longrightarrow> store_field Header_fields Header_store ((''agentsCount'', IntField i) # fs) h new"
  "store_field Header_fields Header_store fs (h\<lparr>ValidatorsCount := i\<rparr>) new \<Longrightarrow> store_field Header_fields Header_store ((''validatorsCount'', IntField i) # fs) h new"
  "store_field Header_fields Header_store fs (h\<lparr>Topology_name := s\<rparr>) new \<Longrightarrow> store_field Header_fields Header_store ((''topology'', StringField s) # fs) h new"
  "store_field Header_fields Header_store fs (h\<lparr>BenchDuration := i\<rparr>) new \<Longrightarrow> store_field Header_fields Header_store ((''benchDuration'', IntField i) # fs) h new"
  "store_field Header_fields Header_store fs (h\<lparr>MsgRate := i\<rparr>) new \<Longrightarrow> store_field Header_fields Header_store ((''msgRate'', IntField i) # fs) h new"
  "store_field Header_fields Header_store fs (h\<lparr>PeeringDegree := i\<rparr>) new \<Longrightarrow> store_field Header_fields Header_store ((''peeringDegree'', IntField i) # fs) h new"
  "store_field Header_fields Header_store fs (h\<lparr>NonValidatorDegree := i\<rparr>) new \<Longrightarrow> store_field Header_fields Header_store ((''nonValidatorDegree'', IntField i) # fs) h new"
  "store_field Header_fields Header_store fs (h\<lparr>ConnectionCount := i\<rparr>) new \<Longrightarrow> store_field Header_fields Header_store ((''connectionCount'', IntField i) # fs) h new"
  by (auto simp: header_match header_names Header_store_def holdsE)

lemma decode_header:
  assumes "encodes enc (header_fields zone t p topo msg)"
  shows "Unmarshal decode_Header (enc (header_fields zone t p topo msg)) zero_Header = Inr (log_header p topo)"
proof -
  have "store_field Header_fields Header_store (header_fields zone t p topo msg) zero_Header (log_header p topo)"
    unfolding header_fields_def log_header_def zero_Header_def by (intro store_header_fields) simp
  then show ?thesis
    unfolding decode_Header_def by (rule Unmarshal_encoded [OF assms])
qed

text \<open>The values of \<open>logLine\<close> over the entries of a log.\<close>

primrec decoded :: "Log \<Rightarrow> entry list \<Rightarrow> Log list" where
  "decoded l [] = []"
| "decoded l (e # es) = apply_entry e l # decoded (apply_entry e l) es"

definition log_lines :: "(int \<Rightarrow> int) \<Rightarrow> int \<Rightarrow> GossipParameters \<Rightarrow> topology \<Rightarrow> messaging \<Rightarrow> entry list \<Rightarrow> (string \<times> field) list list" where
  "log_lines zone t p topo msg es = header_fields zone t p topo msg # map (entry_fields zone) es"

definition log_ok :: "((string \<times> field) list \<Rightarrow> string) \<Rightarrow> (int \<Rightarrow> int) \<Rightarrow> int \<Rightarrow> GossipParameters \<Rightarrow> topology \<Rightarrow> messaging \<Rightarrow> entry list \<Rightarrow> bool" where
  "log_ok enc zone t p topo msg es \<longleftrightarrow> list_all (encodes enc) (log_lines zone t p topo msg es) \<and> list_all (\<lambda>e. time_ok zone (z_time e)) es"

lemma decode_log:
  "list_all (\<lambda>e. encodes enc (entry_fields zone e) \<and> time_ok zone (z_time e)) es \<Longrightarrow>
   decode_lines l (map (\<lambda>e. enc (entry_fields zone e)) es) = (decoded l es, None)"
  by (induction es arbitrary: l) (simp_all add: decode_entry)

lemma RunStats_log_file:
  assumes "log_ok enc zone t p topo msg es"
  shows "RunStats order_of (Inr (log_file enc (log_lines zone t p topo msg es))) m ds0 =
     (let ds = extend_durations m ds0; ls = filter AggregateStats (decoded zero_Log es)
      in if distinct (sent_ids ls)
         then Inr (printStats ds (int (length (sent_ids ls))) (order_of (result_ref ds ls)) (log_header p topo), ds)
         else Inl (Explicit ''Error, sent time already exists.''))"
proof -
  have ok: "list_all (encodes enc) (log_lines zone t p topo msg es)" "encodes enc (header_fields zone t p topo msg)"
    "list_all (\<lambda>e. encodes enc (entry_fields zone e) \<and> time_ok zone (z_time e)) es"
    using assms by (auto simp: log_ok_def log_lines_def list_all_iff)
  show ?thesis
    using scan_tokens_log_file [OF ok(1)] decode_header [OF ok(2)] decode_log [OF ok(3), of zero_Log]
    by (simp add: RunStats_decoded log_lines_def Let_def comp_def)
qed

section \<open>An encoder\<close>

text \<open>The printer of the theory \<open>Json\<close> is such an encoder, for ASCII strings.\<close>

fun field_json :: "field \<Rightarrow> json" where
  "field_json (StringField s) = JStr (quote s)"
| "field_json (TimeField s) = JStr s"
| "field_json (BoolField b) = JBool b"
| "field_json (IntField i) = JNum (show_int i)"

fun field_ok :: "field \<Rightarrow> bool" where
  "field_ok (StringField s) \<longleftrightarrow> ascii s"
| "field_ok (TimeField s) \<longleftrightarrow> raw_ok s"
| "field_ok (BoolField b) \<longleftrightarrow> True"
| "field_ok (IntField i) \<longleftrightarrow> int64_range i"

definition print_line :: "(string \<times> field) list \<Rightarrow> string" where
  "print_line fs = json_print (JObj (map (\<lambda>(n, f). (quote n, field_json f)) fs))"

lemma num_run_digits: "list_all is_digit s \<Longrightarrow> num_run St1 s = Some St1"
  by (induction s) simp_all

lemma number_ok_digits: "number_ok (digits_of n)"
proof (cases "n = 0")
  case True
  then show ?thesis
    by (simp add: digits_of_0 num_start_def num_final_def)
next
  case False
  then obtain c cs where "digits_of n = c # cs" "c \<noteq> CHR ''0''"
    using digits_of_head by blast
  then show ?thesis
    using digits_of_digits [of n] is_digit_no_sign [of c] by (simp add: num_start_def num_run_digits num_final_def)
qed

lemma number_ok_show_int: "number_ok (show_int i)"
proof (cases "i < 0")
  case True
  then obtain c cs where "digits_of (nat (- i)) = c # cs" "c \<noteq> CHR ''0''"
    using digits_of_head [of "nat (- i)"] by auto
  then show ?thesis
    using True digits_of_digits [of "nat (- i)"] by (simp add: show_int_def num_start_def num_run_digits num_final_def)
qed (simp add: show_int_def number_ok_digits)

lemma field_json_wf: "field_ok f \<Longrightarrow> json_wf (field_json f) d \<and> holds (field_json f) f"
  by (cases f) (simp_all add: raw_ok_quote unquote_quote number_ok_show_int parse_int64_show_int)

lemma print_line_encodes:
  assumes "list_all (\<lambda>(n, f). ascii n \<and> field_ok f) fs" "CHR 0x0A \<notin> set (print_line fs)" "length (print_line fs) < maxScanTokenSize"
  shows "encodes print_line fs"
proof -
  let ?js = "map (\<lambda>(n, f). (quote n, field_json f)) fs"
  have "json_wf (JObj ?js) maxNestingDepth"
    using assms(1) field_json_wf by (fastforce simp: list_all_iff maxNestingDepth_def raw_ok_quote split: prod.splits)
  then have "json_parse (print_line fs) = Some (JObj ?js)"
    unfolding print_line_def by (rule json_parse_print)
  moreover have "list_all2 (\<lambda>(k, v) (n, f). unquote k = n \<and> holds v f) ?js fs"
    using assms(1) field_json_wf by (induction fs) (auto simp: unquote_quote)
  ultimately show ?thesis
    using assms(2,3) by (auto simp: encodes_def print_line_def)
qed

end
