(* ===== verification/Spec2Isabelle.thy ===== *)
theory Spec2Isabelle
  imports Observer Runner Binary ConnectionHelper Agent Topology NetSync LatencyData Stats MessageLoop Cluster Transport CommandLine LogFile
begin

text \<open>
  Verification of \<open>libp2p-gossip-bench\<close>, a benchmark of gossip over libp2p. All paths below are under \<open>src/\<close>.

  \<^bold>\<open>The program.\<close> The benchmark command (\<open>cmd/benchmark/commands/start_gossip_cmd.go\<close>) makes a cluster
  (\<open>cluster/cluster.go\<close>) of agents (\<open>agent/agent.go\<close>) in one process, starts them, connects them by one of three
  topologies (\<open>cluster/topology.go\<close>, \<open>cluster/random_topology.go\<close>, \<open>cluster/supercluster_topology.go\<close>, over
  \<open>cluster/connections_list.go\<close>) and runs one of two messaging loops (\<open>cluster/message_loop.go\<close>). Starting and
  connecting run in parallel (\<open>utils/utils.go\<close>); the loops get their ticks from an observable value (\<open>observer/\<close>).
  An agent's \<open>Connect\<close> waits until both ends have seen the connection (\<open>agent/connection_helper.go\<close>). The
  connections are pipes made by the transports (\<open>network/transport.go\<close>, \<open>network/transport_manager.go\<close>), wrapped so
  that they have the bandwidth and latency of a real network (\<open>latency/network_latency.go\<close>) between the
  cities of the two agents (\<open>latency/latency.go\<close>). Every message sent or received is a line of a log, which the
  statistics command (\<open>cmd/stats/commands/stats_cmd.go\<close>) turns into a report.

  \<^bold>\<open>Conventions.\<close> A run-time panic is a value: code that may panic has the type \<open>'a go\<close>, \<open>Inl p\<close> being the panic
  (\<open>Prelude\<close>). A Go \<open>error\<close> is an \<open>option\<close> or a second sum inside. An \<open>int\<close> is an \<open>int\<close> with the wrap-around of
  64 bits written out (\<open>wrap64\<close>) where it can matter, or a \<open>64 word\<close> for \<open>uint\<close>. Pointers that are
  shared are indices into a heap. Random draws, the clock and the iteration order of maps are arguments, and the
  theorems hold for all of them. Goroutines are programs of atomic steps; an \<open>inductive\<close> relation interleaves them,
  and the theorems hold for every reachable state or every completed run.
  Loops that are not structural recursions have a termination proof or use the combinator \<open>go_while\<close>, a
  \<open>partial_function (option)\<close> for which not returning is a value, and then the theorems prove that they return:
  there is no fuel in the development.
  libp2p, pubsub, the logger, multiaddresses and the CLI library are parameters (the records \<open>libp2p\<close> of \<open>Agent\<close> and
  \<open>net_lib\<close> of \<open>Transport\<close>, the encoder of \<open>LogFile\<close>, \<open>cli\<close> of \<open>CommandLine\<close>): the model never defines what they do.
  Files and arguments are text: what the program uses of Go's standard library to read them is modelled as it is written there.

  \<^bold>\<open>Theories.\<close>
  \<^item> \<open>Prelude\<close>: panics, \<open>go_bind\<close>, wrap-around, lists, the locale \<open>ranked_loop\<close> of loops with a measure.
  \<^item> \<open>Binary\<close>, \<open>Strconv\<close>, \<open>Float64\<close>: what the program uses of \<open>encoding/binary\<close>, \<open>io\<close>, \<open>strconv\<close>, \<open>fmt\<close> and
    \<open>float64\<close>; the locale \<open>fixed_codec\<close> is the contract of a record of fixed size on the wire, interpreted for the
    agent's packet, the header of a latency packet and the message of the handshake.
  \<^item> \<open>Json\<close>, \<open>Rfc3339\<close>, \<open>Flags\<close>: what the program uses of \<open>encoding/json\<close> (the scanner as a machine, strings with their
    escapes, decoding into fields, maps and slices), of \<open>time\<close> (the calendar, \<open>Format\<close> and \<open>Parse\<close> of RFC 3339) and of \<open>flag\<close>.
    Printing and parsing are inverse in each of them.
  \<^item> \<open>Observer\<close>: \<open>observer/\<close>. The states on a heap, every operation, all interleavings of updates and streams: a
    stream delivers exactly the updates of its subject, in order. The locale \<open>feed\<close> is the contract.
  \<^item> \<open>Runner\<close>: \<open>MultiRoutineRunner\<close> with its goroutines: every index is called exactly once, the counters are exact,
    every schedule ends; no items is a division by zero. The locale \<open>task_pool\<close> is the contract, interpreted for
    the two ways it is called.
  \<^item> \<open>ConnectionHelper\<close>: the table of wait groups and the calls of \<open>GossipAgent.Connect\<close> as a machine of steps with the
    notifications that come from the dialling and from the listening end: success means that both ends have reported.
  \<^item> \<open>Agent\<close>: configuration, \<open>Listen\<close>, the message format, \<open>SendMessage\<close>, the receive handler, \<open>Disconnect\<close>, \<open>Stop\<close>.
  \<^item> \<open>Connections\<close>, \<open>RandomTopology\<close>, \<open>RandomTopologyProofs\<close>, \<open>Topology\<close>: the connection list and the topologies. \<open>populate\<close>
    returns for all draws, with a simple graph within its bounds that is saturated, and connected with the
    ring; each topology connects the agents, and panics on the small inputs stated.
  \<^item> \<open>NetLatency\<close>, \<open>NetSync\<close>: the latency connection. Framing and reading are inverse, bandwidth and delivery times
    are exact; the handshake \<open>sync\<close> sends a bounded number of probes, blocks while it waits for an open connection, and measures
    a steady lag.
  \<^item> \<open>LatencyData\<close>: from the text of the latency file, in its layout and with the members that the program does not read, to
    \<open>Find\<close>, which is exact on decimal entries in spite of \<open>float64\<close> and has a default for null.
  \<^item> \<open>Transport\<close>: the transports and their manager as a machine of dials, offers, accepts and closes: an accepted
    connection is the other end of the pair that was dialled, no pair is used twice, and every dialled one is in exactly one place.
  \<^item> \<open>MessageLoop\<close>: both loops with their goroutines, the observer's updates, the timer, the context, the stop channel and the wait
    group: safe, able to return from every reachable state, exact counters, one message for each tick, the window of aggregated
    messages; the cancellation of the context stops nothing.
  \<^item> \<open>Cluster\<close>: every operation of the cluster; \<open>AddAgents\<close> and \<open>StartAgents\<close> give agents that run; \<open>Connect\<close> goes through the table of
    \<open>ConnectionHelper\<close> and wraps both ends with \<open>CreateConn\<close>, so that it can fail, panic or block. The interfaces
    \<open>Topology\<close> and \<open>Messaging\<close> of the code are the locales \<open>agent_topology\<close> and \<open>agent_messaging\<close>, interpreted for
    the three topologies and the two loops.
  \<^item> \<open>Stats\<close>: the statistics command, from its arguments and the text of the file to what it prints, equals a reference on
    the list of decoded entries; thresholds and totals.
  \<^item> \<open>StartGossip\<close>: the benchmark command, from its arguments to its exit code: arguments and parameters correspond, the
    parameters give the topology and the messaging with their units, and with sane parameters all phases run through, whatever
    the draws and schedules, and the connections that were established join the agents.
  \<^item> \<open>LogFile\<close>: the lines that the benchmark and the agents give to the logger, and that the statistics read back from the
    text; the logger's encoder is assumed to write each line as a JSON object (\<open>encodes\<close>), as a reference encoder does.
  \<^item> \<open>CommandLine\<close>: the help texts, the command tables and \<open>main\<close> of the two programs: the status of the processes.
  \<^item> This theory: what spans components. The statistics of the log file that the agents wrote count what the agents did;
    the connection that a transport makes with the cluster's factory has the latency of the two cities.

  \<^bold>\<open>Bounds.\<close> Theorems on counters assume fewer than \<open>2^63\<close> messages and on topologies fewer than \<open>2^31\<close> agents or
  connections (\<open>10^6\<close> for the super cluster), where the code's integers do not wrap. \<open>onEvenSecond\<close> goes through
  \<open>float64\<close>; the roles of the Hotstuff loop are stated for the first 48 days. The counters of the statistics count lines of the
  file, which are fewer than \<open>2^63\<close>, so they do not wrap in the model. The allocation limit of \<open>make\<close>, beyond which \<open>createMessage\<close> would
  panic, is not in the model. What a reader gets is the list of the bytes that have arrived; where the code waits for more of them (\<open>sync\<close>,
  \<open>Wait\<close>, \<open>Accept\<close>, the selects of the loops) the model has a blocked outcome or no step.

  \<open>bufio.Scanner\<close> reads lines below 64 KiB (\<open>maxScanTokenSize\<close>); years of the log have four digits.

  \<^bold>\<open>Not modelled.\<close> The contents of \<open>latency/latencies.json\<close>, which are data: the text is an argument. The progress
  and summary lines that the benchmark prints, and the elapsed times in them. The name of the log file. The
  methods that embedded interfaces (\<open>net.Conn\<close>, \<open>net.Listener\<close>) pass through to what they wrap. Everything
  under \<open>vendor/\<close>: third-party code, of which the model has parameters.
\<close>

section \<open>From the agents' log to the statistics\<close>

text \<open>What happens at agents: sending a message and receiving one; the entries they log.\<close>

datatype agent_event =
    EvSend GossipAgent "byte list" int int bool
  | EvReceive GossipAgent nat int "byte list" string

fun event_entries :: "libp2p \<Rightarrow> (nat \<Rightarrow> byte) \<Rightarrow> agent_event \<Rightarrow> entry list" where
  "event_entries lib rnd (EvSend a uuid t sz useful) = (case SendMessage lib rnd uuid t sz useful a of Inl p \<Rightarrow> [] | Inr (r, es) \<Rightarrow> es)"
| "event_entries lib rnd (EvReceive a host t data from) = receive_message lib t host a (Inr (data, from))"

definition written_log :: "libp2p \<Rightarrow> (nat \<Rightarrow> byte) \<Rightarrow> agent_event list \<Rightarrow> entry list" where
  "written_log lib rnd evs = concat (map (event_entries lib rnd) evs)"

text \<open>The lines before them: \<open>StartAgents\<close> has returned when the messaging begins, so every \<open>Listen\<close> has logged. A start is
  the time, the IP, the port and the agent.\<close>

definition started_log :: "libp2p \<Rightarrow> (int \<times> string \<times> int \<times> GossipAgent) list \<Rightarrow> entry list" where
  "started_log lib starts = concat (map (\<lambda>(t, ip, port, a). snd (snd (Listen lib t ip port a))) starts)"

lemma Listen_plain: "e \<in> set (snd (snd (Listen lib t ip port a))) \<Longrightarrow> z_aggregateStats e = None"
  by (auto simp: Listen_def plain_entry_def split: sum.split_asm option.split_asm)

lemma started_log_plain: "e \<in> set (started_log lib starts) \<Longrightarrow> z_aggregateStats e = None"
  by (auto simp: started_log_def Listen_plain)

lemma decoded_after_plain:
  assumes "\<And>e. e \<in> set pre \<Longrightarrow> z_aggregateStats e = None" "\<not> AggregateStats l"
  shows "\<exists>l'. filter AggregateStats (decoded l (pre @ es)) = filter AggregateStats (decoded l' es)"
  using assms by (induction pre arbitrary: l) auto

definition message_entry :: "entry \<Rightarrow> bool" where
  "message_entry e \<longleftrightarrow> z_msgID e \<noteq> None \<and> z_aggregateStats e \<noteq> None \<and>
     (z_direction e = Some ''sent'' \<or> z_direction e = Some ''received'' \<and> z_isValidator e \<noteq> None)"

lemma event_entries_complete: "list_all message_entry (event_entries lib rnd ev)"
  by (cases ev)
    (auto simp: SendMessage_def receive_message_def message_entry_def plain_entry_def Let_def deref_def split: sum.splits option.splits prod.splits)

lemma written_log_complete: "list_all message_entry (written_log lib rnd evs)"
  using event_entries_complete by (fastforce simp: written_log_def list_all_iff)

text \<open>An entry and its decoded form.\<close>

definition decodes :: "entry \<Rightarrow> Log \<Rightarrow> bool" where
  "decodes e l \<longleftrightarrow> z_msgID e = Some (MsgID l) \<and> z_direction e = Some (Direction l) \<and> z_aggregateStats e = Some (AggregateStats l) \<and>
     Time l = log_time (z_time e) \<and> (Direction l = ''received'' \<longrightarrow> z_isValidator e = Some (Log_IsValidator l))"

lemma decoded_entries: "list_all message_entry es \<Longrightarrow> list_all2 decodes es (decoded l es)"
  by (induction es arbitrary: l) (auto simp: decodes_def message_entry_def)

definition entry_sent :: "string \<Rightarrow> entry \<Rightarrow> bool" where
  "entry_sent i e \<longleftrightarrow> z_aggregateStats e = Some True \<and> z_direction e = Some ''sent'' \<and> z_msgID e = Some i"

definition entry_received :: "string \<Rightarrow> entry \<Rightarrow> bool" where
  "entry_received i e \<longleftrightarrow> z_aggregateStats e = Some True \<and> z_direction e = Some ''received'' \<and> z_msgID e = Some i"

lemma decodes_filter:
  assumes "list_all2 decodes es ls"
  shows "length (filter (is_received i) (filter AggregateStats ls)) = length (filter (entry_received i) es)"
    "length (filter Log_IsValidator (filter (is_received i) (filter AggregateStats ls))) =
       length (filter (\<lambda>e. z_isValidator e = Some True) (filter (entry_received i) es))"
  using assms by (induction rule: list_all2_induct) (auto simp: decodes_def is_received_def entry_received_def)

lemma decodes_find:
  assumes "list_all2 decodes es ls"
  shows "map_option Time (find (is_sent i) (filter AggregateStats ls)) = map_option (\<lambda>e. log_time (z_time e)) (find (entry_sent i) es)"
  using assms by (induction rule: list_all2_induct) (auto simp: decodes_def is_sent_def entry_sent_def)

lemma decodes_dropWhile:
  assumes "list_all2 decodes es ls"
  shows "\<exists>ls'. list_all2 decodes (dropWhile (\<lambda>e. \<not> entry_sent i e) es) ls' \<and>
    dropWhile (\<lambda>l. \<not> is_sent i l) (filter AggregateStats ls) = filter AggregateStats ls'"
  using assms
proof (induction rule: list_all2_induct)
  case (Cons e es l ls)
  show ?case
  proof (cases "entry_sent i e")
    case True
    then have "AggregateStats l" "is_sent i l"
      using Cons.hyps(1) by (auto simp: decodes_def is_sent_def entry_sent_def)
    then show ?thesis
      using True Cons.hyps by (intro exI [of _ "l # ls"]) simp
  next
    case False
    then have "\<not> (AggregateStats l \<and> is_sent i l)"
      using Cons.hyps(1) by (auto simp: decodes_def is_sent_def entry_sent_def)
    then show ?thesis
      using False Cons.IH by auto
  qed
qed (intro exI [of _ "[]"], simp)

definition logged_sent_ids :: "entry list \<Rightarrow> string list" where
  "logged_sent_ids es = List.map_filter z_msgID (filter (\<lambda>e. z_aggregateStats e = Some True \<and> z_direction e = Some ''sent'') es)"

lemma decodes_sent_ids:
  assumes "list_all2 decodes es ls"
  shows "sent_ids (filter AggregateStats ls) = logged_sent_ids es"
  using assms by (induction rule: list_all2_induct) (auto simp: decodes_def sent_ids_def logged_sent_ids_def map_filter_simps)

text \<open>The statistics of an id, as the log determines them.\<close>

definition counts_log :: "entry list \<Rightarrow> string \<Rightarrow> stats option \<Rightarrow> bool" where
  "counts_log es i result =
     (let after = filter (entry_received i) (dropWhile (\<lambda>e. \<not> entry_sent i e) es)
      in case find (entry_sent i) es of
        None \<Rightarrow> result = None
      | Some e \<Rightarrow> \<exists>s. result = Some s \<and> msgSentTime s = log_time (z_time e) \<and> totalNodesReceivedMsg s = int (length after) \<and>
          totalValidatorNodesReceivedMsg s = int (length (filter (\<lambda>e. z_isValidator e = Some True) after)))"

lemma counts_log_result_ref:
  assumes dec: "list_all2 decodes es ls"
  shows "counts_log es i (result_ref ds (filter AggregateStats ls) i)"
proof -
  define after where "after = filter (entry_received i) (dropWhile (\<lambda>e. \<not> entry_sent i e) es)"
  let ?ls = "filter AggregateStats ls"
  obtain ls' where ls': "list_all2 decodes (dropWhile (\<lambda>e. \<not> entry_sent i e) es) ls'"
    "dropWhile (\<lambda>l. \<not> is_sent i l) ?ls = filter AggregateStats ls'"
    using decodes_dropWhile [OF dec] by blast
  have "length (receipts i ?ls) = length after"
    "length (filter Log_IsValidator (receipts i ?ls)) = length (filter (\<lambda>e. z_isValidator e = Some True) after)"
    using decodes_filter [OF ls'(1), of i] ls'(2) by (simp_all add: receipts_def after_def)
  then show ?thesis
    unfolding counts_log_def Let_def after_def [symmetric]
    using decodes_find [OF dec, of i] by (cases "find (entry_sent i) es") (auto simp: result_ref_def)
qed

text \<open>
  C2. From the agents to the report: the statistics command, run on the text of the log file that the benchmark's header, the
  agents' \<open>Listen\<close> and then their \<open>SendMessage\<close> and receive handlers give, decodes the header and prints for every message id the time
  (in whole seconds) of its first aggregated \<open>sent\<close> entry and the exact number of aggregated \<open>received\<close> entries
  after it, and of those that validators wrote; the number of messages it prints is the number of aggregated \<open>sent\<close>
  entries. It panics exactly when an id is sent twice. The logger's encoder may be any that writes the fields of a line as a
  JSON object.
\<close>

theorem statistics_count_agent_log:
  assumes "log_ok enc zone t p topo msg (started_log lib starts @ written_log lib rnd evs)"
  shows "\<exists>result. (\<forall>i. counts_log (written_log lib rnd evs) i (result i)) \<and>
     RunStats order_of (Inr (log_file enc (log_lines zone t p topo msg (started_log lib starts @ written_log lib rnd evs)))) m ds0 =
       (if distinct (logged_sent_ids (written_log lib rnd evs))
        then Inr (printStats (extend_durations m ds0) (int (length (logged_sent_ids (written_log lib rnd evs)))) (order_of result) (log_header p topo),
                  extend_durations m ds0)
        else Inl (Explicit ''Error, sent time already exists.''))"
proof -
  have "\<not> AggregateStats zero_Log"
    by (simp add: zero_Log_def)
  then obtain l where l: "filter AggregateStats (decoded zero_Log (started_log lib starts @ written_log lib rnd evs)) =
      filter AggregateStats (decoded l (written_log lib rnd evs))"
    using decoded_after_plain [of "started_log lib starts" zero_Log "written_log lib rnd evs"] started_log_plain by blast
  have dec: "list_all2 decodes (written_log lib rnd evs) (decoded l (written_log lib rnd evs))"
    by (rule decoded_entries [OF written_log_complete])
  show ?thesis
    using counts_log_result_ref [OF dec]
    by (intro exI [of _ "result_ref (extend_durations m ds0) (filter AggregateStats (decoded l (written_log lib rnd evs)))"])
      (simp add: RunStats_log_file [OF assms] l decodes_sent_ids [OF dec] Let_def)
qed

text \<open>One agent sends a message in the first second of 2022, another receives it two seconds later.\<close>

definition ex_packet :: packet where
  "ex_packet = \<lparr>MessageID = replicate 16 65, IsUseful = True\<rparr>"

definition ex_events :: "agent_event list" where
  "ex_events =
     [EvSend ex_agent (MessageID ex_packet) (1640995200 * second + 5) 20 True,
      EvReceive (ex_agent\<lparr>Validator := True\<rparr>) 1 (1640995202 * second) (encode_packet ex_packet) ''peer'']"

definition ex_starts :: "(int \<times> string \<times> int \<times> GossipAgent) list" where
  "ex_starts = [(1640995199 * second, ''127.0.0.1'', 10000, ex_agent), (1640995199 * second, ''127.0.0.1'', 10001, ex_agent)]"

definition ex_line_ok :: "(string \<times> field) list \<Rightarrow> bool" where
  "ex_line_ok fs \<longleftrightarrow> list_all (\<lambda>(n, f). ascii n \<and> field_ok f) fs \<and> CHR 0x0A \<notin> set (print_line fs) \<and> int (length (print_line fs)) < 65536"

definition ex_subscribed :: "entry list" where
  "ex_subscribed = replicate 2 ((plain_entry ''agent successfully subscribed'' (1640995199 * second))\<lparr>z_topic := Some ''Topic''\<rparr>)"

definition ex_log :: "entry list" where
  "ex_log =
     [(plain_entry ''message sent'' (1640995200 * second + 5))
        \<lparr>z_peer := Some ''Qm'', z_direction := Some ''sent'', z_msgID := Some ''AAAAAAAAAAAAAAAA'', z_aggregateStats := Some True\<rparr>,
      (plain_entry ''message received'' (1640995202 * second))
        \<lparr>z_peer := Some ''Qm'', z_direction := Some ''received'', z_msgID := Some ''AAAAAAAAAAAAAAAA'', z_aggregateStats := Some True,
         z_from := Some ''peer'', z_isValidator := Some True\<rparr>]"

lemma ex_log_written: "written_log ex_lib (\<lambda>_. 0) ex_events = ex_log"
  by code_simp

lemma ex_log_started: "started_log ex_lib ex_starts = ex_subscribed"
  by (simp add: started_log_def ex_starts_def ex_subscribed_def Listen_def ex_lib_def topicName_def numeral_2_eq_2)

abbreviation ex_msg :: messaging where
  "ex_msg \<equiv> Hotstuff \<lparr>h_LogDuration = 40 * second, h_Timeout = 50 * second, h_MessageSize = 20\<rparr>"

definition ex_file :: "(string \<times> field) list list" where
  "ex_file = log_lines (\<lambda>_. 3600) (1640995199 * second) default_params LinearTopo ex_msg (ex_subscribed @ ex_log)"

lemma ex_log_ok: "log_ok print_line (\<lambda>_. 3600) (1640995199 * second) default_params LinearTopo ex_msg (ex_subscribed @ ex_log)"
proof -
  have "list_all ex_line_ok ex_file"
    by code_simp
  then have "list_all (encodes print_line) ex_file"
    using print_line_encodes by (auto simp: list_all_iff ex_line_ok_def maxScanTokenSize_def)
  moreover have "list_all (\<lambda>e. time_ok (\<lambda>_. 3600) (z_time e)) (ex_subscribed @ ex_log)"
    by code_simp
  ultimately show ?thesis
    by (simp add: log_ok_def ex_file_def)
qed

theorem statistics_count_agent_log_witness:
  "\<exists>s. RunStats (\<lambda>result. [the (result ''AAAAAAAAAAAAAAAA'')]) (Inr (log_file print_line ex_file)) 2 [] =
      Inr (printStats [second, 2 * second] 1 [s] (log_header default_params LinearTopo), [second, 2 * second]) \<and>
    msgSentTime s = 1640995200 * second \<and> totalNodesReceivedMsg s = 1"
proof -
  let ?i = "''AAAAAAAAAAAAAAAA''"
  have ids: "logged_sent_ids ex_log = [?i]"
    by code_simp
  have ds: "extend_durations 2 [] = [second, 2 * second]"
    by code_simp
  note count = statistics_count_agent_log [OF ex_log_ok [folded ex_log_written ex_log_started], unfolded ex_log_written ex_log_started, folded ex_file_def]
  obtain result where r: "counts_log ex_log ?i (result ?i)"
    "RunStats (\<lambda>result. [the (result ?i)]) (Inr (log_file print_line ex_file)) 2 [] =
      Inr (printStats [second, 2 * second] 1 [the (result ?i)] (log_header default_params LinearTopo), [second, 2 * second])"
    using count [of "\<lambda>result. [the (result ?i)]" 2 "[]"] ids ds by auto
  have "find (entry_sent ?i) ex_log = Some (ex_log ! 0)" "log_time (z_time (ex_log ! 0)) = 1640995200 * second"
    "length (filter (entry_received ?i) (dropWhile (\<lambda>e. \<not> entry_sent ?i e) ex_log)) = 1"
    by code_simp+
  then show ?thesis
    using r by (auto simp: counts_log_def)
qed

section \<open>From the cluster to the connections\<close>

text \<open>
  C14. The latency of a connection depends on the cities at its two ends. With the cluster's \<open>CreateConn\<close> as the
  factory of the transports, an agent that listens on \<open>la\<close> and dials the address \<open>ra\<close> of another gets a connection
  with the delay from its city to the other's; the other end, when it is accepted, has the delay of the way back;
  both have the default bandwidth and MTU, and both are ends of the same pair.
\<close>

theorem connection_latencies:
  assumes "LatencyConnFactory lib = (\<lambda>b l r. CreateConn b l r c)" "cfg_Kbps (cl_config c) = 0" "cfg_MTU (cl_config c) = 0"
    and "ma_tcp lib la = Some sl" "ma_tcp lib ra = Some sr" "cl_agents c (Atoi sl) = Some a" "cl_agents c (Atoi sr) = Some b"
    and "latency_Find (City a) (City b) (cl_latency c) = Inr d" "latency_Find (City b) (City a) (cl_latency c) = Inr d'"
    and "i < length (tm_heap m)" "t_laddr (tm_heap m ! i) = Some la"
    and "j < length (tm_heap m')" "t_laddr (tm_heap m' ! j) = Some ra"
    and "t_waiting (tm_heap m' ! j) ! k = \<lparr>ac_conn = (tm_conns m, RightEnd), ac_peerId = p, ac_raddr = la\<rparr>"
  shows "\<exists>n1 n2 conn1 conn2. conn1 = Upgrade lib \<lparr>mc_conn = (n1, (tm_conns m, LeftEnd)), mc_laddr = la, mc_raddr = ra\<rparr> True q \<and>
      Dial lib i (Some ra) q m = Inr (conn1, dial_effect (\<not> isl conn1) i la q m) \<and>
      conn2 = Upgrade lib \<lparr>mc_conn = (n2, (tm_conns m, RightEnd)), mc_laddr = ra, mc_raddr = la\<rparr> False p \<and>
      Accept_data lib j k m' = Inr (conn2, accept_effect (\<not> isl conn2) j k m') \<and>
      delay n1 = d \<and> delay n2 = d' \<and> network n1 = \<lparr>Kbps = 20480, Latency = d, MTU = 1500\<rparr> \<and> network n2 = \<lparr>Kbps = 20480, Latency = d', MTU = 1500\<rparr>"
  using assms
  by (intro exI [of _ "\<lparr>network = \<lparr>Kbps = 20480, Latency = d, MTU = 1500\<rparr>, readBuf = [], lastSendEnd = zero_time, delay = d\<rparr>"]
      exI [of _ "\<lparr>network = \<lparr>Kbps = 20480, Latency = d', MTU = 1500\<rparr>, readBuf = [], lastSendEnd = zero_time, delay = d'\<rparr>"])
    (simp add: Dial_def createBaseConn_def Accept_data_def getPort_def CreateConn_def GetAgentCity_def GetAgent_def getValue_def defaultKbps_def defaultMTU_def
      Network_Conn_def dial_effect_def accept_effect_def peer_of_def set_transport_def Let_def del: go_bind_Inr_iff)

definition ex_two_cities :: Cluster where
  "ex_two_cities = (NewCluster ex_latencies ex_config)\<lparr>cl_agents :=
     [10000 \<mapsto> ex_agent\<lparr>City := ''Amsterdam''\<rparr>, 10001 \<mapsto> ex_agent\<lparr>City := ''Atlanta'', Port := 1\<rparr>]\<rparr>"

definition ex_wired :: "(string, netConn \<times> base_conn, netConn \<times> base_conn) net_lib" where
  "ex_wired = \<lparr>P_TCP = 6, ma_tcp = Some, ma_String = id, Pretty = (\<lambda>p. ''Qm'' @ p), LatencyConnFactory = (\<lambda>b l r. CreateConn b l r ex_two_cities),
     Upgrade = (\<lambda>c out p. Inr (mc_conn c)), ToNetAddr = id\<rparr>"

lemma ex_two_cities_latency:
  "latency_Find ''Amsterdam'' ''Atlanta'' ex_latencies = Inr 91395000" "latency_Find ''Atlanta'' ''Amsterdam'' ex_latencies = Inr 580000"
proof -
  have "''91.395'' = decimal ''91'' ''395''"
    by (simp add: decimal_def)
  then show "latency_Find ''Amsterdam'' ''Atlanta'' ex_latencies = Inr 91395000"
    using Find_decimal [of ex_latencies "''Amsterdam''" "''7''" "''Atlanta''" "''18''" "[''18'' \<mapsto> ''91.395'']" "''91''" "''395''"]
    by (simp add: ex_latencies_def fill_sources_def is_digit_def digits_value_def)
  show "latency_Find ''Atlanta'' ''Amsterdam'' ex_latencies = Inr 580000"
    by (rule Find_missing) (simp add: ex_latencies_def fill_sources_def map_get_def)
qed

theorem connection_latencies_witness:
  "\<exists>n1 n2. Dial ex_wired 0 (Some ''10001'') ''B'' ex_listening = Inr (Inr (n1, (0, LeftEnd)), dial_effect True 0 ''10000'' ''B'' ex_listening) \<and>
     Accept_data ex_wired 1 0 (offer_effect 0 1 (dial_effect True 0 ''10000'' ''B'' ex_listening)) =
       Inr (Inr (n2, (0, RightEnd)), accept_effect True 1 0 (offer_effect 0 1 (dial_effect True 0 ''10000'' ''B'' ex_listening))) \<and>
     delay n1 = 91395000 \<and> delay n2 = 580000"
proof -
  let ?m' = "offer_effect 0 1 (dial_effect True 0 ''10000'' ''B'' ex_listening)"
  have ports: "Atoi ''10000'' = 10000" "Atoi ''10001'' = 10001"
    by code_simp+
  have up: "Upgrade ex_wired c out p = Inr (mc_conn c)" for c out p
    by (simp add: ex_wired_def)
  have conf: "LatencyConnFactory ex_wired = (\<lambda>b l r. CreateConn b l r ex_two_cities)" "cfg_Kbps (cl_config ex_two_cities) = 0"
    "cfg_MTU (cl_config ex_two_cities) = 0"
    by (simp_all add: ex_wired_def ex_two_cities_def ex_config_def)
  have addr: "ma_tcp ex_wired ''10000'' = Some ''10000''" "ma_tcp ex_wired ''10001'' = Some ''10001''"
    by (simp_all add: ex_wired_def)
  let ?a = "ex_agent\<lparr>City := ''Amsterdam''\<rparr>" and ?b = "ex_agent\<lparr>City := ''Atlanta'', Port := 1\<rparr>"
  have agents: "cl_agents ex_two_cities (Atoi ''10000'') = Some ?a" "cl_agents ex_two_cities (Atoi ''10001'') = Some ?b"
    by (simp_all add: ports ex_two_cities_def)
  have lat: "latency_Find (City ?a) (City ?b) (cl_latency ex_two_cities) = Inr 91395000"
    "latency_Find (City ?b) (City ?a) (cl_latency ex_two_cities) = Inr 580000"
    using ex_two_cities_latency by (simp_all add: ex_two_cities_def)
  have heap: "0 < length (tm_heap ex_listening)" "t_laddr (tm_heap ex_listening ! 0) = Some ''10000''"
    "1 < length (tm_heap ?m')" "t_laddr (tm_heap ?m' ! 1) = Some ''10001''"
    "t_waiting (tm_heap ?m' ! 1) ! 0 = \<lparr>ac_conn = (tm_conns ex_listening, RightEnd), ac_peerId = ''A'', ac_raddr = ''10000''\<rparr>"
    by (simp_all add: ex_listening_state dial_effect_def offer_effect_def peer_of_def)
  have "tm_conns ex_listening = 0"
    by (simp add: ex_listening_state)
  then show ?thesis
    using connection_latencies [OF conf addr agents lat heap, of "''B''"] unfolding up by auto
qed

end
